(* ===== verification/Prelude.thy ===== *)
theory Prelude
  imports Main "HOL-Library.Word" "HOL-Library.AList" "HOL-Library.Multiset"
begin

text \<open>
  Shared vocabulary of the development: the machine types of the Go sources, Go maps as
  association lists, big-endian integers (\<^verbatim>\<open>encoding/binary\<close>), the loop over the 256 shards that the
  three registries of \<^verbatim>\<open>src/internal/customer\<close> share, and the collections of rewrite rules that
  carry the component proofs.

  A Go map is an association list with distinct keys. The order of the list stands for the order
  in which one \<^verbatim>\<open>range\<close> statement visits the map, which Go leaves open; every theorem quantifies over all
  such lists and states results as sets, maps or multisets, so it holds for every visiting order.
\<close>

unbundle bit_operations_syntax

section \<open>Types and collections\<close>

type_synonym u8 = "8 word"
type_synonym u16 = "16 word"
type_synonym u32 = "32 word"
type_synonym u64 = "64 word"
type_synonym i32 = "32 word"
type_synonym bytes = "8 word list"

text \<open>Pointers to \<^verbatim>\<open>wsServer.Conn\<close> objects.\<close>

type_synonym cref = nat

type_synonym ('k, 'v) gomap = "('k \<times> 'v) list"

text \<open>
  \<open>gomap_simps\<close>: reading Go maps after writes. \<open>registry_frame\<close>: operations of the gateway that
  leave a part of its state alone. \<open>be_simps\<close>: big-endian encodings.
\<close>

named_theorems gomap_simps
named_theorems registry_frame
named_theorems be_simps

section \<open>Go maps\<close>

abbreviation keys :: "('k, 'v) gomap \<Rightarrow> 'k list" where
  "keys m \<equiv> map fst m"

abbreviation gm_ok :: "('k, 'v) gomap \<Rightarrow> bool" where
  "gm_ok m \<equiv> distinct (keys m)"

lemma gm_ok_update [gomap_simps, simp, intro]: "gm_ok m \<Longrightarrow> gm_ok (AList.update k v m)"
  by (simp add: distinct_update)

lemma gm_ok_delete [gomap_simps, simp, intro]: "gm_ok m \<Longrightarrow> gm_ok (AList.delete k m)"
  by (simp add: distinct_delete)

lemma gm_update_get [gomap_simps, simp]: "map_of (AList.update k v m) = (map_of m)(k \<mapsto> v)"
  by (rule update_conv')

lemma gm_delete_get [gomap_simps, simp]: "map_of (AList.delete k m) = (map_of m)(k := None)"
  by (rule delete_conv')

lemma gm_update_keys [gomap_simps, simp]: "fst ` set (AList.update k v m) = insert k (fst ` set m)"
  by (simp flip: dom_map_of_conv_image_fst)

lemma gm_delete_keys [gomap_simps, simp]: "fst ` set (AList.delete k m) = fst ` set m - {k}"
  by (auto simp flip: dom_map_of_conv_image_fst)

lemma gm_delete_empty: "AList.delete k m = [] \<longleftrightarrow> fst ` set m \<subseteq> {k}"
  by (metis Diff_eq_empty_iff gm_delete_keys image_is_empty set_empty)

lemma map_of_None_empty: "m = [] \<longleftrightarrow> map_of m = Map.empty"
  by simp

lemma gm_length_card: "gm_ok m \<Longrightarrow> length m = card (dom (map_of m))"
  by (metis distinct_card dom_map_of_conv_image_fst length_map set_map)

lemma gm_length_update:
  assumes "gm_ok m"
  shows "length (AList.update k v m) = (if map_of m k = None then Suc (length m) else length m)"
proof -
  have "dom (map_of (AList.update k v m)) = insert k (dom (map_of m))" by simp
  then have "length (AList.update k v m) = card (insert k (dom (map_of m)))"
    using assms by (metis gm_length_card gm_ok_update)
  then show ?thesis using assms
    by (auto simp: card_insert_if finite_dom_map_of gm_length_card domIff)
qed

lemma gm_length_delete:
  assumes "gm_ok m"
  shows "length (AList.delete k m) = (if map_of m k = None then length m else length m - 1)"
proof -
  have "dom (map_of (AList.delete k m)) = dom (map_of m) - {k}" by auto
  then have "length (AList.delete k m) = card (dom (map_of m) - {k})"
    using assms by (metis gm_length_card gm_ok_delete)
  then show ?thesis using assms
    by (auto simp: gm_length_card card_Diff_singleton_if finite_dom_map_of domIff)
qed

lemma map_of_Some_in_set: "gm_ok m \<Longrightarrow> map_of m k = Some v \<longleftrightarrow> (k, v) \<in> set m"
  by (simp add: map_of_eq_Some_iff)

lemma set_values_ran: "gm_ok m \<Longrightarrow> set (map snd m) = ran (map_of m)"
  by (simp add: ran_distinct)

section \<open>Words\<close>

lemma unat_lt_pow: "unat (w :: 'a::len word) < 2 ^ LENGTH('a)"
  by (rule unsigned_less)

lemma unat_u8_lt: "unat (w :: u8) < 256"
  using unat_lt_pow [of w] by simp

lemma unat_u16_lt: "unat (w :: u16) < 65536"
  using unat_lt_pow [of w] by simp

lemma unat_u32_lt: "unat (w :: u32) < 4294967296"
  using unat_lt_pow [of w] by simp

lemma unat_u64_lt: "unat (w :: u64) < 18446744073709551616"
  using unat_lt_pow [of w] by simp

lemma word_of_unat [simp]: "of_nat (unat (w :: 'a::len word)) = w"
  by (simp add: of_nat_unat)

lemma unat_of_nat_small: "n < 2 ^ LENGTH('a) \<Longrightarrow> unat (of_nat n :: 'a::len word) = n"
  by (simp add: unat_of_nat)

section \<open>Big-endian integers\<close>

text \<open>
  \<open>be_bytes n v\<close> is the \<open>n\<close>-byte big-endian form of \<open>v\<close> (\<^verbatim>\<open>binary.BigEndian.PutUint16/32/64\<close>),
  \<open>be_val\<close> reads one back (\<^verbatim>\<open>binary.BigEndian.Uint16/32/64\<close>).
\<close>

fun be_bytes :: "nat \<Rightarrow> nat \<Rightarrow> bytes" where
  "be_bytes 0 v = []"
| "be_bytes (Suc n) v = be_bytes n (v div 256) @ [of_nat (v mod 256)]"

definition be_val :: "bytes \<Rightarrow> nat" where
  "be_val bs = foldl (\<lambda>a b. a * 256 + unat b) 0 bs"

lemma length_be_bytes [be_simps, simp]: "length (be_bytes n v) = n"
  by (induction n arbitrary: v) auto

lemma be_val_Nil [be_simps, simp]: "be_val [] = 0"
  by (simp add: be_val_def)

lemma be_val_snoc [be_simps, simp]: "be_val (bs @ [b]) = be_val bs * 256 + unat b"
  by (simp add: be_val_def)

lemma unat_of_byte [be_simps]: "unat (of_nat (v mod 256) :: u8) = v mod 256"
  by (simp add: unsigned_of_nat take_bit_eq_mod)

lemma be_val_bytes [be_simps]: "be_val (be_bytes n v) = v mod 256 ^ n"
proof (induction n arbitrary: v)
  case 0
  then show ?case by simp
next
  case (Suc n)
  have "be_val (be_bytes (Suc n) v) = (v div 256 mod 256 ^ n) * 256 + v mod 256"
    by (simp add: Suc.IH unat_of_byte)
  also have "\<dots> = v mod (256 * 256 ^ n)"
    by (simp add: mod_mult2_eq)
  finally show ?case by simp
qed

lemma be_val_lt [be_simps]: "be_val bs < 256 ^ length bs"
proof (induction bs rule: rev_induct)
  case Nil
  then show ?case by simp
next
  case (snoc b bs)
  have b: "unat b < 256" by (rule unat_u8_lt)
  from snoc.IH have "be_val bs + 1 \<le> 256 ^ length bs" by simp
  then have "(be_val bs + 1) * 256 \<le> 256 ^ length bs * 256" by (rule mult_le_mono1)
  with b show ?case by simp
qed

definition PutUint16 :: "u16 \<Rightarrow> bytes" where "PutUint16 w = be_bytes 2 (unat w)"
definition PutUint32 :: "u32 \<Rightarrow> bytes" where "PutUint32 w = be_bytes 4 (unat w)"
definition PutUint64 :: "u64 \<Rightarrow> bytes" where "PutUint64 w = be_bytes 8 (unat w)"

definition Uint16 :: "bytes \<Rightarrow> u16" where "Uint16 bs = of_nat (be_val (take 2 bs))"
definition Uint32 :: "bytes \<Rightarrow> u32" where "Uint32 bs = of_nat (be_val (take 4 bs))"
definition Uint64 :: "bytes \<Rightarrow> u64" where "Uint64 bs = of_nat (be_val (take 8 bs))"

lemma length_Put [be_simps, simp]:
  "length (PutUint16 a) = 2" "length (PutUint32 b) = 4" "length (PutUint64 c) = 8"
  by (simp_all add: PutUint16_def PutUint32_def PutUint64_def)

lemma unat_mod_width:
  "unat (a :: u16) mod 256 ^ 2 = unat a" "unat (b :: u32) mod 256 ^ 4 = unat b"
  "unat (c :: u64) mod 256 ^ 8 = unat c"
  using unat_u16_lt [of a] unat_u32_lt [of b] unat_u64_lt [of c] by simp_all

lemma Uint16_Put [be_simps, simp]: "Uint16 (PutUint16 w @ r) = w"
  by (simp only: Uint16_def PutUint16_def be_val_bytes unat_mod_width take_append length_be_bytes
      append_Nil2 diff_self_eq_0 take0 take_all order_refl word_of_unat)

lemma Uint32_Put [be_simps, simp]: "Uint32 (PutUint32 w @ r) = w"
  by (simp only: Uint32_def PutUint32_def be_val_bytes unat_mod_width take_append length_be_bytes
      append_Nil2 diff_self_eq_0 take0 take_all order_refl word_of_unat)

lemma Uint64_Put [be_simps, simp]: "Uint64 (PutUint64 w @ r) = w"
  by (simp only: Uint64_def PutUint64_def be_val_bytes unat_mod_width take_append length_be_bytes
      append_Nil2 diff_self_eq_0 take0 take_all order_refl word_of_unat)

end
