(* ===== verification/RingQueue.thy ===== *)
theory RingQueue
  imports Prelude
begin

text \<open>
  The bounded multi-producer single-consumer ring queue, \<^verbatim>\<open>src/pkg/queue/queue.go\<close>. Producers, the
  consumer and a closer interleave one atomic operation at a time (\<open>step\<close>): each rule is one atomic
  load, store, compare-and-swap or channel operation of the code, and the local variables of a call are
  the arguments of its program counter. The counters \<^verbatim>\<open>head\<close>, \<^verbatim>\<open>tail\<close> and the sequence numbers are
  natural numbers: the code's 64 bits suffice for 2^64 enqueues. The memory layout (strides, padding,
  unsafe pointers) is not modelled: \<open>seqs\<close> and \<open>dat\<close> are the fields of the slots. The lists \<open>log\<close> and
  \<open>out\<close> record the items in the order in which they were accepted and delivered; no rule reads them.
\<close>

section \<open>Creation\<close>

text \<open>\<^verbatim>\<open>New\<close>: clamp, then round up to a power of two by smearing the top bit.\<close>

definition smear :: "nat \<Rightarrow> nat \<Rightarrow> nat" where
  "smear k c = c OR drop_bit k c"

definition New_capacity :: "int \<Rightarrow> nat" where
  "New_capacity capacity =
     (let c = nat (if capacity \<le> 1 then 2 else if capacity > 65536 then 65536 else capacity);
          c = c - 1;
          c = smear 1 c; c = smear 2 c; c = smear 4 c; c = smear 8 c; c = smear 16 c
      in c + 1)"

section \<open>State\<close>

text \<open>
  Program counters of a producer in \<^verbatim>\<open>Enqueue\<close>: before the check of \<^verbatim>\<open>closed\<close>, before loading head,
  before loading the sequence number, before the CAS, before writing the data, before publishing the
  sequence number, before the notification, and before the second look at head of a full queue.
\<close>

datatype 'a producer =
    PIdle
  | PClosed 'a
  | PHead 'a
  | PSeq 'a nat
  | PCas 'a nat
  | PData 'a nat
  | PPublish 'a nat
  | PNotify
  | PFull 'a nat

text \<open>
  Program counters of \<^verbatim>\<open>Dequeue\<close>. \<open>CScan\<close> is the head of the inner loop with the local \<^verbatim>\<open>tail\<close> and the
  items read so far, \<open>CTake\<close> reads a slot found ready, \<open>CEmpty\<close> is reached with nothing read, \<open>CWait\<close>
  blocks on the channel, \<open>CRelease\<close> frees the slots one by one after the new tail is stored.
\<close>

datatype 'a consumer =
    CIdle
  | CTail nat nat
  | CScan nat nat nat "'a list"
  | CTake nat nat nat "'a list"
  | CEmpty nat nat
  | CWait nat nat
  | CWoken nat nat
  | CLen nat nat
  | CStore nat "'a list"
  | CRelease nat nat "'a list"

record 'a queue =
  head :: nat
  tail :: nat
  qmask :: nat
  qclosed :: bool
  noticer :: bool
  seqs :: "nat \<Rightarrow> nat"
  dat :: "nat \<Rightarrow> 'a option"
  prods :: "nat \<Rightarrow> 'a producer"
  cons :: "'a consumer"
  closing :: nat
  log :: "'a list"
  out :: "'a list"

definition New :: "int \<Rightarrow> 'a queue" where
  "New capacity =
     \<lparr>head = 0, tail = 0, qmask = New_capacity capacity - 1, qclosed = False, noticer = False,
      seqs = (\<lambda>i. i), dat = (\<lambda>_. None), prods = (\<lambda>_. PIdle), cons = CIdle, closing = 0,
      log = [], out = []\<rparr>"

definition Queue_Len :: "'a queue \<Rightarrow> nat" where
  "Queue_Len q = (let t = tail q; h = head q in if h < t then 0 else h - t)"

definition Queue_Cap :: "'a queue \<Rightarrow> nat" where "Queue_Cap q = qmask q + 1"

definition Queue_IsClosed :: "'a queue \<Rightarrow> bool" where "Queue_IsClosed q = qclosed q"

section \<open>Steps\<close>

text \<open>The steps of producer \<open>i\<close> in \<^verbatim>\<open>Enqueue\<close>.\<close>

inductive enq_step :: "'a queue \<Rightarrow> nat \<Rightarrow> 'a queue \<Rightarrow> bool" where
  e_call: "prods q i = PIdle \<Longrightarrow> enq_step q i (q\<lparr>prods := (prods q)(i := PClosed x)\<rparr>)"
| e_is_closed: "prods q i = PClosed x \<Longrightarrow> qclosed q \<Longrightarrow>
    enq_step q i (q\<lparr>prods := (prods q)(i := PIdle)\<rparr>)"
| e_open: "prods q i = PClosed x \<Longrightarrow> \<not> qclosed q \<Longrightarrow>
    enq_step q i (q\<lparr>prods := (prods q)(i := PHead x)\<rparr>)"
| e_head: "prods q i = PHead x \<Longrightarrow>
    enq_step q i (q\<lparr>prods := (prods q)(i := PSeq x (head q))\<rparr>)"
| e_free: "prods q i = PSeq x h \<Longrightarrow> seqs q (h AND qmask q) = h \<Longrightarrow>
    enq_step q i (q\<lparr>prods := (prods q)(i := PCas x h)\<rparr>)"
| e_full: "prods q i = PSeq x h \<Longrightarrow> seqs q (h AND qmask q) < h \<Longrightarrow>
    enq_step q i (q\<lparr>prods := (prods q)(i := PFull x h)\<rparr>)"
| e_behind: "prods q i = PSeq x h \<Longrightarrow> seqs q (h AND qmask q) > h \<Longrightarrow>
    enq_step q i (q\<lparr>prods := (prods q)(i := PClosed x)\<rparr>)"
| e_cas: "prods q i = PCas x h \<Longrightarrow> head q = h \<Longrightarrow>
    enq_step q i (q\<lparr>head := h + 1, prods := (prods q)(i := PData x h), log := log q @ [x]\<rparr>)"
| e_cas_lost: "prods q i = PCas x h \<Longrightarrow> head q \<noteq> h \<Longrightarrow>
    enq_step q i (q\<lparr>prods := (prods q)(i := PClosed x)\<rparr>)"
| e_data: "prods q i = PData x h \<Longrightarrow>
    enq_step q i (q\<lparr>dat := (dat q)(h AND qmask q := Some x), prods := (prods q)(i := PPublish x h)\<rparr>)"
| e_publish: "prods q i = PPublish x h \<Longrightarrow>
    enq_step q i (q\<lparr>seqs := (seqs q)(h AND qmask q := h + 1), prods := (prods q)(i := PNotify)\<rparr>)"
| e_notify: "prods q i = PNotify \<Longrightarrow>
    enq_step q i (q\<lparr>noticer := True, prods := (prods q)(i := PIdle)\<rparr>)"
| e_give_up: "prods q i = PFull x h \<Longrightarrow> head q = h \<Longrightarrow>
    enq_step q i (q\<lparr>prods := (prods q)(i := PIdle)\<rparr>)"
| e_retry: "prods q i = PFull x h \<Longrightarrow> head q \<noteq> h \<Longrightarrow>
    enq_step q i (q\<lparr>prods := (prods q)(i := PClosed x)\<rparr>)"

text \<open>
  The steps of producer \<open>i\<close> in \<^verbatim>\<open>TryEnqueue\<close>, which gives up where \<^verbatim>\<open>Enqueue\<close> tries again.
\<close>

inductive try_step :: "'a queue \<Rightarrow> nat \<Rightarrow> 'a queue \<Rightarrow> bool" where
  t_call: "prods q i = PIdle \<Longrightarrow> try_step q i (q\<lparr>prods := (prods q)(i := PClosed x)\<rparr>)"
| t_is_closed: "prods q i = PClosed x \<Longrightarrow> qclosed q \<Longrightarrow> try_step q i (q\<lparr>prods := (prods q)(i := PIdle)\<rparr>)"
| t_open: "prods q i = PClosed x \<Longrightarrow> \<not> qclosed q \<Longrightarrow> try_step q i (q\<lparr>prods := (prods q)(i := PHead x)\<rparr>)"
| t_head: "prods q i = PHead x \<Longrightarrow> try_step q i (q\<lparr>prods := (prods q)(i := PSeq x (head q))\<rparr>)"
| t_free: "prods q i = PSeq x h \<Longrightarrow> seqs q (h AND qmask q) = h \<Longrightarrow> try_step q i (q\<lparr>prods := (prods q)(i := PCas x h)\<rparr>)"
| t_not_free: "prods q i = PSeq x h \<Longrightarrow> seqs q (h AND qmask q) \<noteq> h \<Longrightarrow> try_step q i (q\<lparr>prods := (prods q)(i := PIdle)\<rparr>)"
| t_cas: "prods q i = PCas x h \<Longrightarrow> head q = h \<Longrightarrow>
    try_step q i (q\<lparr>head := h + 1, prods := (prods q)(i := PData x h), log := log q @ [x]\<rparr>)"
| t_cas_lost: "prods q i = PCas x h \<Longrightarrow> head q \<noteq> h \<Longrightarrow> try_step q i (q\<lparr>prods := (prods q)(i := PIdle)\<rparr>)"
| t_data: "prods q i = PData x h \<Longrightarrow>
    try_step q i (q\<lparr>dat := (dat q)(h AND qmask q := Some x), prods := (prods q)(i := PPublish x h)\<rparr>)"
| t_publish: "prods q i = PPublish x h \<Longrightarrow>
    try_step q i (q\<lparr>seqs := (seqs q)(h AND qmask q := h + 1), prods := (prods q)(i := PNotify)\<rparr>)"
| t_notify: "prods q i = PNotify \<Longrightarrow> try_step q i (q\<lparr>noticer := True, prods := (prods q)(i := PIdle)\<rparr>)"

text \<open>The steps of the consumer in \<^verbatim>\<open>Dequeue\<close>; \<open>n\<close> is \<^verbatim>\<open>len(result)\<close>, \<open>k\<close> the counter \<^verbatim>\<open>schedule\<close>.\<close>

inductive deq_step :: "'a queue \<Rightarrow> 'a queue \<Rightarrow> bool" where
  d_call: "cons q = CIdle \<Longrightarrow> 0 < n \<Longrightarrow> deq_step q (q\<lparr>cons := CTail n 0\<rparr>)"
| d_tail: "cons q = CTail n k \<Longrightarrow> deq_step q (q\<lparr>cons := CScan n k (tail q) []\<rparr>)"
| d_ready: "cons q = CScan n k t got \<Longrightarrow> length got < n \<Longrightarrow> seqs q (t AND qmask q) = t + 1 \<Longrightarrow>
    deq_step q (q\<lparr>cons := CTake n k t got\<rparr>)"
| d_take: "cons q = CTake n k t got \<Longrightarrow> dat q (t AND qmask q) = Some x \<Longrightarrow>
    deq_step q (q\<lparr>dat := (dat q)(t AND qmask q := None), cons := CScan n k (t + 1) (got @ [x]), out := out q @ [x]\<rparr>)"
| d_break: "cons q = CScan n k t got \<Longrightarrow> length got < n \<Longrightarrow> seqs q (t AND qmask q) \<noteq> t + 1 \<Longrightarrow>
    deq_step q (q\<lparr>cons := (if got = [] then CEmpty n k else CStore t got)\<rparr>)"
| d_limit: "cons q = CScan n k t got \<Longrightarrow> length got = n \<Longrightarrow>
    deq_step q (q\<lparr>cons := CStore t got\<rparr>)"
| d_empty_closed: "cons q = CEmpty n k \<Longrightarrow> qclosed q \<Longrightarrow> deq_step q (q\<lparr>cons := CWoken n k\<rparr>)"
| d_spin: "cons q = CEmpty n k \<Longrightarrow> \<not> qclosed q \<Longrightarrow> k < 3 \<Longrightarrow> deq_step q (q\<lparr>cons := CTail n (k + 1)\<rparr>)"
| d_block: "cons q = CEmpty n k \<Longrightarrow> \<not> qclosed q \<Longrightarrow> \<not> k < 3 \<Longrightarrow> deq_step q (q\<lparr>cons := CWait n k\<rparr>)"
| d_wake: "cons q = CWait n k \<Longrightarrow> noticer q \<Longrightarrow> deq_step q (q\<lparr>noticer := False, cons := CWoken n k\<rparr>)"
| d_woken_open: "cons q = CWoken n k \<Longrightarrow> \<not> qclosed q \<Longrightarrow> deq_step q (q\<lparr>cons := CTail n k\<rparr>)"
| d_woken_closed: "cons q = CWoken n k \<Longrightarrow> qclosed q \<Longrightarrow> deq_step q (q\<lparr>cons := CLen n k\<rparr>)"
| d_drain: "cons q = CLen n k \<Longrightarrow> Queue_Len q > 0 \<Longrightarrow> deq_step q (q\<lparr>cons := CTail n k\<rparr>)"
| d_return0: "cons q = CLen n k \<Longrightarrow> Queue_Len q = 0 \<Longrightarrow> deq_step q (q\<lparr>cons := CIdle\<rparr>)"
| d_store: "cons q = CStore t got \<Longrightarrow> deq_step q (q\<lparr>tail := t, cons := CRelease t 0 got\<rparr>)"
| d_release: "cons q = CRelease t i got \<Longrightarrow> i < length got \<Longrightarrow> r = t - length got + i \<Longrightarrow>
    deq_step q (q\<lparr>seqs := (seqs q)(r AND qmask q := r + qmask q + 1), cons := CRelease t (i + 1) got\<rparr>)"
| d_return: "cons q = CRelease t i got \<Longrightarrow> i = length got \<Longrightarrow> deq_step q (q\<lparr>cons := CIdle\<rparr>)"

text \<open>\<^verbatim>\<open>Close\<close>: the CAS on \<^verbatim>\<open>closed\<close>, then the notification; \<open>closing\<close> counts the calls in between.\<close>

inductive close_step :: "'a queue \<Rightarrow> 'a queue \<Rightarrow> bool" where
  c_cas: "\<not> qclosed q \<Longrightarrow> close_step q (q\<lparr>qclosed := True, closing := closing q + 1\<rparr>)"
| c_lost: "qclosed q \<Longrightarrow> close_step q q"
| c_notify: "closing q > 0 \<Longrightarrow> close_step q (q\<lparr>noticer := True, closing := closing q - 1\<rparr>)"

inductive step :: "'a queue \<Rightarrow> 'a queue \<Rightarrow> bool" where
  step_enq: "enq_step q i q' \<Longrightarrow> step q q'"
| step_try: "try_step q i q' \<Longrightarrow> step q q'"
| step_deq: "deq_step q q' \<Longrightarrow> step q q'"
| step_close: "close_step q q' \<Longrightarrow> step q q'"

inductive reachable :: "int \<Rightarrow> 'a queue \<Rightarrow> bool" for capacity where
  r_new: "reachable capacity (New capacity)"
| r_step: "reachable capacity q \<Longrightarrow> step q q' \<Longrightarrow> reachable capacity q'"

section \<open>Capacity\<close>

lemma bit_smear_k:
  assumes "\<And>n. bit c n \<longleftrightarrow> (\<exists>d < k. bit (x :: nat) (n + d))"
  shows "bit (smear k c) n \<longleftrightarrow> (\<exists>d < 2 * k. bit x (n + d))"
proof -
  have "bit (smear k c) n \<longleftrightarrow> (\<exists>d < k. bit x (n + d)) \<or> (\<exists>d < k. bit x (k + n + d))"
    by (simp add: smear_def bit_or_iff bit_drop_bit_eq assms)
  also have "\<dots> \<longleftrightarrow> (\<exists>d < 2 * k. bit x (n + d))"
  proof
    assume "\<exists>d < 2 * k. bit x (n + d)"
    then obtain d where d: "d < 2 * k" "bit x (n + d)" by blast
    show "(\<exists>d < k. bit x (n + d)) \<or> (\<exists>d < k. bit x (k + n + d))"
    proof (cases "d < k")
      case False
      then have "d - k < k" "k + n + (d - k) = n + d" using d(1) by auto
      then show ?thesis using d(2) by metis
    qed (use d in blast)
  next
    assume "(\<exists>d < k. bit x (n + d)) \<or> (\<exists>d < k. bit x (k + n + d))"
    then obtain d where "d < 2 * k" "bit x (n + d)"
    proof (elim disjE exE conjE)
      fix d assume "d < k" "bit x (k + n + d)"
      then have "k + d < 2 * k" "bit x (n + (k + d))" by (simp_all add: ac_simps)
      then show thesis by (rule that)
    next
      fix d assume "d < k" "bit x (n + d)"
      then show thesis by (intro that [of d]) auto
    qed
    then show "\<exists>d < 2 * k. bit x (n + d)" by blast
  qed
  finally show ?thesis .
qed

lemma smear_mask:
  assumes "0 < x" "x < 2 ^ 32"
  obtains k where "smear 16 (smear 8 (smear 4 (smear 2 (smear 1 x)))) = 2 ^ Suc k - 1" "2 ^ k \<le> x" "x < 2 ^ Suc k"
proof -
  obtain k where k: "2 ^ k \<le> x" "x < 2 ^ Suc k"
    using assms(1) ex_power_ivl1 [of 2 x] by auto
  have "(2 :: nat) ^ k < 2 ^ 32" using k(1) assms(2) by (rule order.strict_trans1)
  then have k32: "k < 32" by (rule power_less_imp_less_exp [rotated]) simp
  have top: "bit x k"
  proof -
    have "x div 2 ^ k = 1" using k by (simp add: div_nat_eqI)
    then show ?thesis by (simp add: bit_iff_odd)
  qed
  have above: "\<not> bit x m" if "k < m" for m
  proof -
    have "2 ^ Suc k \<le> (2 :: nat) ^ m" using that by (intro power_increasing) auto
    then have "x < 2 ^ m" using k(2) by (rule order.strict_trans2 [rotated])
    then show ?thesis by (simp add: bit_iff_odd)
  qed
  have 1: "bit (smear 1 x) n \<longleftrightarrow> (\<exists>d < 2. bit x (n + d))" for n
    using bit_smear_k [of x 1 x n] by simp
  have 2: "bit (smear 2 (smear 1 x)) n \<longleftrightarrow> (\<exists>d < 4. bit x (n + d))" for n
    using bit_smear_k [of "smear 1 x" 2 x n] 1 by simp
  have 3: "bit (smear 4 (smear 2 (smear 1 x))) n \<longleftrightarrow> (\<exists>d < 8. bit x (n + d))" for n
    using bit_smear_k [of "smear 2 (smear 1 x)" 4 x n] 2 by simp
  have 4: "bit (smear 8 (smear 4 (smear 2 (smear 1 x)))) n \<longleftrightarrow> (\<exists>d < 16. bit x (n + d))" for n
    using bit_smear_k [of "smear 4 (smear 2 (smear 1 x))" 8 x n] 3 by simp
  have 5: "bit (smear 16 (smear 8 (smear 4 (smear 2 (smear 1 x))))) n \<longleftrightarrow> (\<exists>d < 32. bit x (n + d))" for n
    using bit_smear_k [of "smear 8 (smear 4 (smear 2 (smear 1 x)))" 16 x n] 4 by simp
  have "smear 16 (smear 8 (smear 4 (smear 2 (smear 1 x)))) = mask (Suc k)"
  proof (rule bit_eqI)
    fix n
    have "(\<exists>d < 32. bit x (n + d)) \<longleftrightarrow> n < Suc k"
    proof
      show "\<exists>d < 32. bit x (n + d)" if "n < Suc k"
        using that top k32 by (intro exI [of _ "k - n"]) auto
      show "n < Suc k" if "\<exists>d < 32. bit x (n + d)"
        using that above by (metis le_add1 less_Suc_eq_le linorder_not_less order.strict_trans1)
    qed
    then show "bit (smear 16 (smear 8 (smear 4 (smear 2 (smear 1 x))))) n = bit (mask (Suc k) :: nat) n"
      unfolding 5 bit_mask_iff by simp
  qed
  then show thesis using that [of k] k by (simp add: mask_eq_exp_minus_1)
qed

lemma New_capacity_pow:
  obtains k where "New_capacity capacity = 2 ^ Suc k"
    "nat (max 2 (min capacity 65536)) \<le> 2 ^ Suc k" "2 ^ Suc k < 2 * nat (max 2 (min capacity 65536))"
proof -
  define c where "c = nat (if capacity \<le> 1 then 2 else if capacity > 65536 then 65536 else capacity)"
  have c: "c = nat (max 2 (min capacity 65536))" "2 \<le> c" "c \<le> 65536" by (auto simp: c_def)
  from c(2) have "0 < c - 1" by linarith
  moreover from c(3) have "c - 1 < 2 ^ 32" by simp
  ultimately obtain k where k: "smear 16 (smear 8 (smear 4 (smear 2 (smear 1 (c - 1))))) = 2 ^ Suc k - 1"
      "2 ^ k \<le> c - 1" "c - 1 < 2 ^ Suc k"
    by (rule smear_mask)
  have "New_capacity capacity = 2 ^ Suc k"
    unfolding New_capacity_def Let_def c_def [symmetric] k(1) by simp
  moreover have "c \<le> 2 ^ Suc k" using k(3) by simp
  moreover have "2 ^ Suc k < 2 * c" using k(2) c(2) by (simp add: le_diff_conv2)
  ultimately show thesis using that [of k] c(1) by simp
qed

section \<open>Invariant\<close>

text \<open>
  \<open>taken\<close> is the position up to which items have been read, \<open>freed\<close> the position up to which slots
  have been given back to the producers; \<open>busy p\<close> says that a producer owns position \<open>p\<close> and has not
  published it yet.
\<close>

abbreviation (input) taken :: "'a queue \<Rightarrow> nat" where "taken q \<equiv> length (out q)"

definition freed :: "'a queue \<Rightarrow> nat" where
  "freed q = (case cons q of CRelease t i got \<Rightarrow> t - length got + i | _ \<Rightarrow> tail q)"

definition owns :: "'a producer \<Rightarrow> nat \<Rightarrow> bool" where
  "owns p h \<longleftrightarrow> (\<exists>x. p = PData x h \<or> p = PPublish x h)"

definition busy :: "'a queue \<Rightarrow> nat \<Rightarrow> bool" where
  "busy q h \<longleftrightarrow> (\<exists>i. owns (prods q i) h)"

definition prod_ok :: "'a queue \<Rightarrow> 'a producer \<Rightarrow> bool" where
  "prod_ok q p = (case p of
      PSeq x h \<Rightarrow> h \<le> head q
    | PCas x h \<Rightarrow> h < freed q + Queue_Cap q
    | PData x h \<Rightarrow> taken q \<le> h \<and> h < head q \<and> log q ! h = x
    | PPublish x h \<Rightarrow> taken q \<le> h \<and> h < head q \<and> log q ! h = x \<and> dat q (h AND qmask q) = Some x
    | _ \<Rightarrow> True)"

definition cons_ok :: "'a queue \<Rightarrow> bool" where
  "cons_ok q = (case cons q of
      CScan n k t got \<Rightarrow> t = taken q \<and> t = tail q + length got
    | CTake n k t got \<Rightarrow> t = taken q \<and> t = tail q + length got \<and> seqs q (t AND qmask q) = t + 1 \<and> t < head q
    | CStore t got \<Rightarrow> t = taken q \<and> t = tail q + length got
    | CRelease t i got \<Rightarrow> t = taken q \<and> t = tail q \<and> length got \<le> t \<and> i \<le> length got
    | _ \<Rightarrow> taken q = tail q)"

definition slots_ok :: "'a queue \<Rightarrow> bool" where
  "slots_ok q \<longleftrightarrow>
     (\<forall>p. freed q \<le> p \<and> p < freed q + Queue_Cap q \<longrightarrow>
        (p < taken q \<longrightarrow> seqs q (p AND qmask q) = p + 1) \<and>
        (taken q \<le> p \<and> p < head q \<and> busy q p \<longrightarrow> seqs q (p AND qmask q) = p) \<and>
        (taken q \<le> p \<and> p < head q \<and> \<not> busy q p \<longrightarrow>
           seqs q (p AND qmask q) = p + 1 \<and> dat q (p AND qmask q) = Some (log q ! p)) \<and>
        (head q \<le> p \<longrightarrow> seqs q (p AND qmask q) = p))"

definition queue_inv :: "'a queue \<Rightarrow> bool" where
  "queue_inv q \<longleftrightarrow>
     (\<exists>k. qmask q = 2 ^ Suc k - 1) \<and>
     freed q \<le> taken q \<and> taken q \<le> head q \<and> head q \<le> freed q + Queue_Cap q \<and>
     length (log q) = head q \<and> take (taken q) (log q) = out q \<and>
     (\<forall>i. prod_ok q (prods q i)) \<and>
     (\<forall>i j h. owns (prods q i) h \<and> owns (prods q j) h \<longrightarrow> i = j) \<and>
     cons_ok q \<and> slots_ok q"

section \<open>Preservation\<close>

lemma idx_mod: "qmask q = 2 ^ Suc k - 1 \<Longrightarrow> h AND qmask q = h mod Queue_Cap q"
proof -
  assume m: "qmask q = 2 ^ Suc k - 1"
  have "h AND qmask q = take_bit (Suc k) h"
    unfolding m by (simp only: take_bit_eq_mask mask_eq_exp_minus_1)
  also have "\<dots> = h mod 2 ^ Suc k" by (rule take_bit_eq_mod)
  also have "(2 :: nat) ^ Suc k = Queue_Cap q" using m by (simp add: Queue_Cap_def)
  finally show ?thesis .
qed

lemma window_inj:
  assumes "a \<le> p" "p < a + c" "a \<le> p'" "p' < a + c" "p mod c = p' mod (c :: nat)"
  shows "p = p'"
proof -
  have "p = p'" if "p \<le> p'" "p' < p + c" "p mod c = p' mod c" for p p' :: nat
  proof -
    have "c dvd p' - p" using that(1,3) by (metis mod_eq_dvd_iff_nat)
    moreover have "p' - p < c" using that(1,2) by linarith
    ultimately show ?thesis using that(1) by (metis dvd_imp_le le_zero_eq diff_is_0_eq le_antisym neq0_conv not_less)
  qed
  from this [of p p'] this [of p' p] assms show ?thesis by (cases "p \<le> p'") auto
qed

lemma queue_invD:
  assumes "queue_inv q"
  shows "freed q \<le> taken q" "taken q \<le> head q" "head q \<le> freed q + Queue_Cap q"
    "length (log q) = head q" "take (taken q) (log q) = out q" "\<And>i. prod_ok q (prods q i)"
    "\<And>i j h. owns (prods q i) h \<Longrightarrow> owns (prods q j) h \<Longrightarrow> i = j"
    "cons_ok q" "slots_ok q" "2 \<le> Queue_Cap q"
proof -
  obtain k where "qmask q = 2 ^ Suc k - 1" using assms by (auto simp: queue_inv_def)
  moreover have "2 ^ Suc k \<ge> (2 :: nat)" by simp
  ultimately show "2 \<le> Queue_Cap q" by (simp add: Queue_Cap_def)
qed (use assms in \<open>auto simp: queue_inv_def\<close>)

lemma queue_invI:
  assumes "queue_inv q" "qmask q' = qmask q"
    "freed q' \<le> taken q'" "taken q' \<le> head q'" "head q' \<le> freed q' + Queue_Cap q'"
    "length (log q') = head q'" "take (taken q') (log q') = out q'" "\<And>i. prod_ok q' (prods q' i)"
    "\<And>i j h. owns (prods q' i) h \<Longrightarrow> owns (prods q' j) h \<Longrightarrow> i = j"
    "cons_ok q'" "slots_ok q'"
  shows "queue_inv q'"
  using assms(1) unfolding queue_inv_def [of q] by (auto simp: queue_inv_def [of q'] assms(2) intro: assms)

lemma upd_simps [simp]:
  "freed (q\<lparr>prods := a\<rparr>) = freed q" "freed (q\<lparr>head := b\<rparr>) = freed q" "freed (q\<lparr>log := l\<rparr>) = freed q"
  "freed (q\<lparr>dat := d\<rparr>) = freed q" "freed (q\<lparr>seqs := e\<rparr>) = freed q" "freed (q\<lparr>out := l\<rparr>) = freed q"
  "Queue_Cap (q\<lparr>prods := a\<rparr>) = Queue_Cap q" "Queue_Cap (q\<lparr>head := b\<rparr>) = Queue_Cap q"
  "Queue_Cap (q\<lparr>log := l\<rparr>) = Queue_Cap q" "Queue_Cap (q\<lparr>dat := d\<rparr>) = Queue_Cap q"
  "Queue_Cap (q\<lparr>seqs := e\<rparr>) = Queue_Cap q" "Queue_Cap (q\<lparr>out := l\<rparr>) = Queue_Cap q"
  "Queue_Cap (q\<lparr>cons := c\<rparr>) = Queue_Cap q" "Queue_Cap (q\<lparr>tail := t\<rparr>) = Queue_Cap q"
  by (simp_all add: freed_def Queue_Cap_def split: consumer.splits)

lemma same_slot:
  assumes "queue_inv q" "freed q \<le> p" "p < freed q + Queue_Cap q" "freed q \<le> p'" "p' < freed q + Queue_Cap q"
    and "p AND qmask q = p' AND qmask q"
  shows "p = p'"
proof -
  obtain k where k: "qmask q = 2 ^ Suc k - 1" using assms(1) by (auto simp: queue_inv_def)
  show ?thesis
    using window_inj [OF assms(2-5)] assms(6) unfolding idx_mod [OF k] by simp
qed

lemma slots_okD:
  assumes "slots_ok q" "freed q \<le> p" "p < freed q + Queue_Cap q"
  shows "p < taken q \<Longrightarrow> seqs q (p AND qmask q) = p + 1"
    and "taken q \<le> p \<Longrightarrow> p < head q \<Longrightarrow> busy q p \<Longrightarrow> seqs q (p AND qmask q) = p"
    and "taken q \<le> p \<Longrightarrow> p < head q \<Longrightarrow> \<not> busy q p \<Longrightarrow>
      seqs q (p AND qmask q) = p + 1 \<and> dat q (p AND qmask q) = Some (log q ! p)"
    and "head q \<le> p \<Longrightarrow> seqs q (p AND qmask q) = p"
  using assms unfolding slots_ok_def by blast+

lemma slots_okI:
  assumes "\<And>p. freed q \<le> p \<Longrightarrow> p < freed q + Queue_Cap q \<Longrightarrow> p < taken q \<Longrightarrow> seqs q (p AND qmask q) = p + 1"
    and "\<And>p. freed q \<le> p \<Longrightarrow> p < freed q + Queue_Cap q \<Longrightarrow> taken q \<le> p \<Longrightarrow> p < head q \<Longrightarrow> busy q p \<Longrightarrow>
      seqs q (p AND qmask q) = p"
    and "\<And>p. freed q \<le> p \<Longrightarrow> p < freed q + Queue_Cap q \<Longrightarrow> taken q \<le> p \<Longrightarrow> p < head q \<Longrightarrow> \<not> busy q p \<Longrightarrow>
      seqs q (p AND qmask q) = p + 1 \<and> dat q (p AND qmask q) = Some (log q ! p)"
    and "\<And>p. freed q \<le> p \<Longrightarrow> p < freed q + Queue_Cap q \<Longrightarrow> head q \<le> p \<Longrightarrow> seqs q (p AND qmask q) = p"
  shows "slots_ok q"
  using assms unfolding slots_ok_def by blast

text \<open>A producer moves between program counters at which it owns no slot.\<close>

lemma inv_move:
  assumes inv: "queue_inv q" and ok: "prod_ok q p'" and own: "\<And>h. \<not> owns p' h" "\<And>h. \<not> owns (prods q i) h"
  shows "queue_inv (q\<lparr>prods := (prods q)(i := p')\<rparr>)"
proof -
  let ?q = "q\<lparr>prods := (prods q)(i := p')\<rparr>"
  have "owns (((prods q)(i := p')) j) h = owns (prods q j) h" for j h using own by simp
  then have b: "busy ?q h = busy q h" for h by (simp add: busy_def)
  have po: "prod_ok ?q p = prod_ok q p" for p by (simp add: prod_ok_def split: producer.splits)
  have "cons_ok ?q = cons_ok q" by (simp add: cons_ok_def split: consumer.splits)
  moreover have "slots_ok ?q = slots_ok q" by (simp add: slots_ok_def b)
  ultimately show ?thesis using inv ok own by (auto simp: queue_inv_def po)
qed

text \<open>The consumer moves without touching slots, tail or output.\<close>

lemma inv_cons:
  assumes inv: "queue_inv q" and fr: "freed (q\<lparr>cons := c\<rparr>) = freed q" and ok: "cons_ok (q\<lparr>cons := c\<rparr>)"
  shows "queue_inv (q\<lparr>cons := c\<rparr>)"
proof -
  let ?q = "q\<lparr>cons := c\<rparr>"
  have b: "busy ?q h = busy q h" for h by (simp add: busy_def)
  have po: "prod_ok ?q p = prod_ok q p" for p by (simp add: prod_ok_def fr split: producer.splits)
  have "slots_ok ?q = slots_ok q" by (simp add: slots_ok_def b fr)
  then show ?thesis using inv ok by (auto simp: queue_inv_def fr po)
qed

lemma inv_notice: "queue_inv q \<Longrightarrow> queue_inv (q\<lparr>noticer := b\<rparr>)"
  and inv_close: "queue_inv q \<Longrightarrow> queue_inv (q\<lparr>qclosed := b\<rparr>)"
  and inv_closing: "queue_inv q \<Longrightarrow> queue_inv (q\<lparr>closing := n\<rparr>)"
  by (simp_all add: queue_inv_def prod_ok_def cons_ok_def slots_ok_def freed_def busy_def Queue_Cap_def
      cong: producer.case_cong consumer.case_cong)

lemma owns_simps [simp]:
  "owns (PData x h) h' = (h = h')" "owns (PPublish x h) h' = (h = h')"
  "\<not> owns PIdle h'" "\<not> owns (PClosed x) h'" "\<not> owns (PHead x) h'" "\<not> owns (PSeq x h) h'"
  "\<not> owns (PCas x h) h'" "\<not> owns PNotify h'" "\<not> owns (PFull x h) h'"
  by (auto simp: owns_def)

lemma owns_window:
  assumes "queue_inv q" "owns (prods q i) h"
  shows "freed q \<le> h" "h < freed q + Queue_Cap q" "taken q \<le> h" "h < head q"
proof -
  show "taken q \<le> h" "h < head q"
    using queue_invD(6) [OF assms(1), of i] assms(2) by (auto simp: owns_def prod_ok_def)
  then show "freed q \<le> h" "h < freed q + Queue_Cap q" using queue_invD(1-3) [OF assms(1)] by linarith+
qed

lemma inv_cas:
  assumes inv: "queue_inv q" and p: "prods q i = PCas x (head q)"
  shows "queue_inv (q\<lparr>head := head q + 1, prods := (prods q)(i := PData x (head q)), log := log q @ [x]\<rparr>)"
proof -
  let ?h = "head q"
  let ?q = "q\<lparr>head := ?h + 1, prods := (prods q)(i := PData x ?h), log := log q @ [x]\<rparr>"
  note D = queue_invD [OF inv]
  have room: "?h < freed q + Queue_Cap q" using D(6) [of i] p by (simp add: prod_ok_def)
  have lt: "owns (prods q j) h \<Longrightarrow> h < ?h" for j h using owns_window [OF inv] by blast
  have own: "owns (prods ?q j) h' = (owns (prods q j) h' \<or> j = i \<and> h' = ?h)" for j h' using p by auto
  have b: "busy ?q h = (busy q h \<or> h = ?h)" for h
    unfolding busy_def own by blast
  have po: "prod_ok ?q r" if "prod_ok q r" for r
    using that D(4) by (auto simp: prod_ok_def nth_append split: producer.splits)
  have "prod_ok ?q (PData x ?h)" using D(2,4) by (simp add: prod_ok_def nth_append)
  then have P: "\<And>j. prod_ok ?q (prods ?q j)" using po D(6) by simp
  have U: "owns (prods ?q j) h \<Longrightarrow> owns (prods ?q l) h \<Longrightarrow> j = l" for j l h
    unfolding own using D(7) lt by blast
  have C: "cons_ok ?q" using D(8) by (auto simp: cons_ok_def split: consumer.splits)
  have S: "slots_ok ?q"
    unfolding slots_ok_def b
    using slots_okD [OF D(9)] D(2,4) by (auto simp: nth_append less_Suc_eq)
  show ?thesis
    by (rule queue_invI [OF inv _ _ _ _ _ _ P U C S]) (use room D(1-5) in simp_all)
qed

lemma inv_data:
  assumes inv: "queue_inv q" and p: "prods q i = PData x h"
  shows "queue_inv (q\<lparr>dat := (dat q)(h AND qmask q := Some x), prods := (prods q)(i := PPublish x h)\<rparr>)"
proof -
  let ?q = "q\<lparr>dat := (dat q)(h AND qmask q := Some x), prods := (prods q)(i := PPublish x h)\<rparr>"
  note D = queue_invD [OF inv]
  have own: "owns (prods ?q j) h' = owns (prods q j) h'" for j h' using p by simp
  have b: "busy ?q h' = busy q h'" for h' unfolding busy_def own ..
  have hb: "busy q h" using p by (auto simp: busy_def intro: exI [of _ i])
  have oi: "owns (prods q i) h" using p by simp
  note w = owns_window [OF inv oi]
  have ne: "h' AND qmask q \<noteq> h AND qmask q" if "h' \<noteq> h" "freed q \<le> h'" "h' < freed q + Queue_Cap q" for h'
    using same_slot [OF inv that(2,3) w(1,2)] that(1) by blast
  have P: "prod_ok ?q (prods ?q j)" for j
  proof (cases "j = i")
    case True
    then show ?thesis using D(6) [of i] p by (simp add: prod_ok_def)
  next
    case False
    have "h' AND qmask q \<noteq> h AND qmask q" if "prods q j = PPublish y h'" for y h'
      using ne [of h'] owns_window [OF inv, of j h'] D(7) [OF _ oi, of j] False that by auto
    then show ?thesis using D(6) [of j] False by (auto simp: prod_ok_def split: producer.splits)
  qed
  have C: "cons_ok ?q" using D(8) by (auto simp: cons_ok_def split: consumer.splits)
  have S: "slots_ok ?q"
  proof (rule slots_okI, goal_cases)
    case (3 p)
    then have "p \<noteq> h" using hb b by blast
    then show ?case using 3 slots_okD(3) [OF D(9), of p] ne [of p] by (simp add: b)
  qed (use slots_okD [OF D(9)] in \<open>simp_all add: b\<close>)
  have U: "owns (prods ?q j) h \<Longrightarrow> owns (prods ?q l) h \<Longrightarrow> j = l" for j l h
    unfolding own by (rule D(7))
  show ?thesis
    by (rule queue_invI [OF inv _ _ _ _ _ _ P U C S]) (use D(1-5) in simp_all)
qed

lemma inv_publish:
  assumes inv: "queue_inv q" and p: "prods q i = PPublish x h"
  shows "queue_inv (q\<lparr>seqs := (seqs q)(h AND qmask q := h + 1), prods := (prods q)(i := PNotify)\<rparr>)"
proof -
  let ?q = "q\<lparr>seqs := (seqs q)(h AND qmask q := h + 1), prods := (prods q)(i := PNotify)\<rparr>"
  note D = queue_invD [OF inv]
  have oi: "owns (prods q i) h" using p by simp
  note w = owns_window [OF inv oi]
  have own: "owns (prods ?q j) h' = (owns (prods q j) h' \<and> h' \<noteq> h)" for j h'
    using p D(7) [OF _ oi, of j] by (cases "j = i") auto
  have b: "busy ?q h' = (busy q h' \<and> h' \<noteq> h)" for h' unfolding busy_def own by blast
  have ne: "h' AND qmask q \<noteq> h AND qmask q" if "h' \<noteq> h" "freed q \<le> h'" "h' < freed q + Queue_Cap q" for h'
    using same_slot [OF inv that(2,3) w(1,2)] that(1) by blast
  have here: "dat q (h AND qmask q) = Some x" "log q ! h = x" using D(6) [of i] p by (auto simp: prod_ok_def)
  have P: "prod_ok ?q (prods ?q j)" for j
    using D(6) [of j] by (auto simp: prod_ok_def split: producer.splits)
  have C: "cons_ok ?q"
  proof -
    have "t AND qmask q \<noteq> h AND qmask q" if "cons q = CTake n k t got" for n k t got
    proof -
      have t: "t = taken q" "seqs q (t AND qmask q) = t + 1" "t < head q"
        using D(8) that by (auto simp: cons_ok_def)
      have bh: "busy q h" using oi by (auto simp: busy_def)
      have "seqs q (h AND qmask q) = h" using slots_okD(2) [OF D(9) w(1,2,3,4) bh] .
      then have "t \<noteq> h" using t(2) by auto
      then show ?thesis using ne t D(1,3) by auto
    qed
    then show ?thesis using D(8) by (auto simp: cons_ok_def split: consumer.splits)
  qed
  have S: "slots_ok ?q"
  proof (rule slots_okI, goal_cases)
    case (1 p)
    then have "p \<noteq> h" using w(3) by auto
    then show ?case using 1 slots_okD(1) [OF D(9), of p] ne [of p] by simp
  next
    case (2 p)
    then have "p \<noteq> h" "busy q p" using b by blast+
    then show ?case using 2 slots_okD(2) [OF D(9), of p] ne [of p] by simp
  next
    case (3 p)
    then have "p \<noteq> h \<Longrightarrow> \<not> busy q p" using b by blast
    then show ?case using 3 slots_okD(3) [OF D(9), of p] ne [of p] here by (cases "p = h") simp_all
  next
    case (4 p)
    then have "p \<noteq> h" using w(4) by auto
    then show ?case using 4 slots_okD(4) [OF D(9), of p] ne [of p] by simp
  qed
  have U: "owns (prods ?q j) h \<Longrightarrow> owns (prods ?q l) h \<Longrightarrow> j = l" for j l h
    unfolding own using D(7) by blast
  show ?thesis
    by (rule queue_invI [OF inv _ _ _ _ _ _ P U C S]) (use D(1-5) in simp_all)
qed

lemma inv_take:
  assumes inv: "queue_inv q" and c: "cons q = CTake n k t got" and x: "dat q (t AND qmask q) = Some x"
  shows "queue_inv (q\<lparr>dat := (dat q)(t AND qmask q := None), cons := CScan n k (t + 1) (got @ [x]), out := out q @ [x]\<rparr>)"
proof -
  let ?q = "q\<lparr>dat := (dat q)(t AND qmask q := None), cons := CScan n k (t + 1) (got @ [x]), out := out q @ [x]\<rparr>"
  note D = queue_invD [OF inv]
  have t: "t = taken q" "t = tail q + length got" "seqs q (t AND qmask q) = t + 1" "t < head q"
    using D(8) c by (auto simp: cons_ok_def)
  have w: "freed q \<le> t" "t < freed q + Queue_Cap q" using t D(1,3) by linarith+
  have fr: "freed ?q = freed q" using c by (simp add: freed_def)
  have nb: "\<not> busy q t" using slots_okD(2) [OF D(9) w] t by auto
  then have lt: "log q ! t = x" using slots_okD(3) [OF D(9) w] t x by auto
  have ne: "h' AND qmask q \<noteq> t AND qmask q" if "h' \<noteq> t" "freed q \<le> h'" "h' < freed q + Queue_Cap q" for h'
    using same_slot [OF inv that(2,3) w] that(1) by blast
  have own: "h \<noteq> t" "taken q + 1 \<le> h" if "owns (prods q j) h" for j h
    using nb owns_window(3) [OF inv that] that t(1) by (auto simp: busy_def le_less)
  have P: "prod_ok ?q (prods ?q j)" for j
  proof -
    have "h AND qmask q \<noteq> t AND qmask q" "taken q + 1 \<le> h" if "prods q j = PPublish y h" for y h
      using ne [of h] own [of j h] owns_window [OF inv, of j h] that by auto
    moreover have "taken q + 1 \<le> h" if "prods q j = PData y h" for y h
      using own [of j h] that by auto
    ultimately show ?thesis
      using D(6) [of j] unfolding prod_ok_def fr by (auto split: producer.splits)
  qed
  have U: "owns (prods ?q j) h \<Longrightarrow> owns (prods ?q l) h \<Longrightarrow> j = l" for j l h using D(7) by simp
  have C: "cons_ok ?q" using t by (simp add: cons_ok_def)
  have b: "busy ?q = busy q" by (simp add: busy_def fun_eq_iff)
  have S: "slots_ok ?q"
  proof (rule slots_okI, unfold fr b, goal_cases)
    case (1 p)
    then show ?case using slots_okD(1) [OF D(9), of p] t by (cases "p = t") auto
  next
    case (3 p)
    then show ?case using slots_okD(3) [OF D(9), of p] t ne [of p] by auto
  qed (use slots_okD [OF D(9)] in simp_all)
  have tk: "take (Suc (taken q)) (log q) = out q @ [x]"
    using D(4,5) t lt by (simp add: take_Suc_conv_app_nth)
  show ?thesis
    by (rule queue_invI [OF inv _ _ _ _ _ _ P U C S], unfold fr) (use D(1-4) t tk in simp_all)
qed

lemma inv_store:
  assumes inv: "queue_inv q" and c: "cons q = CStore t got"
  shows "queue_inv (q\<lparr>tail := t, cons := CRelease t 0 got\<rparr>)"
proof -
  let ?q = "q\<lparr>tail := t, cons := CRelease t 0 got\<rparr>"
  note D = queue_invD [OF inv]
  have t: "t = taken q" "t = tail q + length got" using D(8) c by (auto simp: cons_ok_def)
  have fr: "freed ?q = freed q" using c t by (simp add: freed_def)
  have b: "busy ?q = busy q" by (simp add: busy_def fun_eq_iff)
  have P: "prod_ok ?q (prods ?q j)" for j
    using D(6) [of j] unfolding prod_ok_def fr by (auto split: producer.splits)
  have U: "owns (prods ?q j) h \<Longrightarrow> owns (prods ?q l) h \<Longrightarrow> j = l" for j l h using D(7) by simp
  have C: "cons_ok ?q" using t by (simp add: cons_ok_def)
  have S: "slots_ok ?q" using D(9) unfolding slots_ok_def fr b by simp
  show ?thesis
    by (rule queue_invI [OF inv _ _ _ _ _ _ P U C S], unfold fr) (use D(1-5) in simp_all)
qed

lemma inv_release:
  assumes inv: "queue_inv q" and c: "cons q = CRelease t i got" and i: "i < length got" and r: "r = t - length got + i"
  shows "queue_inv (q\<lparr>seqs := (seqs q)(r AND qmask q := r + qmask q + 1), cons := CRelease t (i + 1) got\<rparr>)"
proof -
  let ?q = "q\<lparr>seqs := (seqs q)(r AND qmask q := r + qmask q + 1), cons := CRelease t (i + 1) got\<rparr>"
  note D = queue_invD [OF inv]
  have t: "t = taken q" "t = tail q" "length got \<le> t" using D(8) c by (auto simp: cons_ok_def)
  have fq: "freed q = r" using c r by (simp add: freed_def)
  have fr: "freed ?q = r + 1" using r by (simp add: freed_def)
  have b: "busy ?q = busy q" by (simp add: busy_def fun_eq_iff)
  have P: "prod_ok ?q (prods ?q j)" for j
    using D(6) [of j] unfolding prod_ok_def fr fq by (auto split: producer.splits)
  have U: "owns (prods ?q j) h \<Longrightarrow> owns (prods ?q l) h \<Longrightarrow> j = l" for j l h using D(7) by simp
  have C: "cons_ok ?q" using t i by (simp add: cons_ok_def)
  obtain k where k: "qmask q = 2 ^ Suc k - 1" using inv by (auto simp: queue_inv_def)
  have wrap: "(r + Queue_Cap q) AND qmask q = r AND qmask q"
    unfolding idx_mod [OF k] by simp
  have cap: "Queue_Cap q = qmask q + 1" by (simp add: Queue_Cap_def)
  have ne: "p AND qmask q \<noteq> r AND qmask q" if "r + 1 \<le> p" "p < r + Queue_Cap q" for p
    using same_slot [OF inv, of p r] that fq D(10) by auto
  have rt: "r < taken q" using t i r by simp
  have hr: "head q \<le> r + Queue_Cap q" using D(3) fq by simp
  have last: "p = r + Queue_Cap q" if "\<not> p < r + Queue_Cap q" "p < r + 1 + Queue_Cap q" for p
    using that by simp
  have S: "slots_ok ?q"
  proof (rule slots_okI, unfold fr b, goal_cases)
    case (1 p)
    then have "p < r + Queue_Cap q" using D(2) hr by simp
    then show ?case using 1 slots_okD(1) [OF D(9), of p] ne [of p] by (simp add: fq)
  next
    case (2 p)
    then have "p < r + Queue_Cap q" using hr by simp
    then show ?case using 2 slots_okD(2) [OF D(9), of p] ne [of p] by (simp add: fq)
  next
    case (3 p)
    then have "p < r + Queue_Cap q" using hr by simp
    then show ?case using 3 slots_okD(3) [OF D(9), of p] ne [of p] by (simp add: fq)
  next
    case (4 p)
    show ?case
    proof (cases "p < r + Queue_Cap q")
      case True
      then show ?thesis using 4 slots_okD(4) [OF D(9), of p] ne [of p] by (simp add: fq)
    next
      case False
      then have "p = r + Queue_Cap q" using last 4 by simp
      then show ?thesis using wrap cap by simp
    qed
  qed
  show ?thesis
    by (rule queue_invI [OF inv _ _ _ _ _ _ P U C S], unfold fr) (use D(2,4,5) rt hr in simp_all)
qed

lemma slot_seq:
  assumes "slots_ok q" "freed q \<le> p" "p < freed q + Queue_Cap q"
  shows "seqs q (p AND qmask q) = p \<or> seqs q (p AND qmask q) = p + 1"
  using slots_okD [OF assms] by (meson linorder_not_less)

text \<open>Seeing its own position as the sequence number, a producer has room: here the capacity is at least two.\<close>

lemma room_seen:
  assumes inv: "queue_inv q" and "h \<le> head q" "seqs q (h AND qmask q) = h"
  shows "h < freed q + Queue_Cap q"
proof (rule ccontr)
  note D = queue_invD [OF inv]
  assume "\<not> h < freed q + Queue_Cap q"
  then have h: "h = freed q + Queue_Cap q" "head q = h" using assms(2) D(3) by linarith+
  obtain k where k: "qmask q = 2 ^ Suc k - 1" using inv by (auto simp: queue_inv_def)
  have "h AND qmask q = freed q AND qmask q" unfolding idx_mod [OF k] h(1) by simp
  then have "seqs q (freed q AND qmask q) = freed q + Queue_Cap q" using assms(3) h(1) by simp
  moreover have "seqs q (freed q AND qmask q) \<in> {freed q, freed q + 1}"
    using slot_seq [OF D(9), of "freed q"] D(10) by simp
  ultimately show False using D(10) by auto
qed

text \<open>Seeing a smaller one, the queue is full at that moment.\<close>

lemma full_seen:
  assumes inv: "queue_inv q" and "h \<le> head q" "seqs q (h AND qmask q) < h"
  shows "head q = h \<and> h = freed q + Queue_Cap q"
proof -
  note D = queue_invD [OF inv]
  obtain k where k: "qmask q = 2 ^ Suc k - 1" using inv by (auto simp: queue_inv_def)
  have "\<not> h < freed q + Queue_Cap q"
  proof
    assume lt: "h < freed q + Queue_Cap q"
    have "h < freed q"
    proof (rule ccontr)
      assume "\<not> h < freed q"
      then have "seqs q (h AND qmask q) \<in> {h, h + 1}"
        using slot_seq [OF D(9), of h] lt by simp
      then show False using assms(3) by auto
    qed
    define p where "p = h + ((freed q - h + Queue_Cap q - 1) div Queue_Cap q) * Queue_Cap q"
    have "freed q \<le> p \<and> p < freed q + Queue_Cap q"
    proof -
      have c: "0 < Queue_Cap q" using D(10) by simp
      let ?m = "(freed q - h + Queue_Cap q - 1) div Queue_Cap q * Queue_Cap q"
      have "?m \<le> freed q - h + Queue_Cap q - 1" by simp
      moreover have "freed q - h + Queue_Cap q - 1 < ?m + Queue_Cap q"
        using c by (metis dividend_less_div_times add.commute)
      ultimately show ?thesis using \<open>h < freed q\<close> c unfolding p_def by linarith
    qed
    moreover have "p AND qmask q = h AND qmask q" unfolding idx_mod [OF k] p_def by simp
    ultimately have "seqs q (h AND qmask q) \<in> {p, p + 1}"
      using slot_seq [OF D(9), of p] by simp
    moreover have "h \<le> p" by (simp add: p_def)
    ultimately show False using assms(3) by auto
  qed
  then show ?thesis using assms(2) D(3) by linarith
qed

lemma inv_enq: "enq_step q i q' \<Longrightarrow> queue_inv q \<Longrightarrow> queue_inv q'"
proof (induction rule: enq_step.induct)
  case (e_free q i x h)
  then have "h \<le> head q" using queue_invD(6) [of q i] by (simp add: prod_ok_def)
  then show ?case using e_free room_seen by (intro inv_move) (auto simp: prod_ok_def)
next
  case (e_cas q i x h)
  then show ?case using inv_cas [of q i x] by simp
next
  case (e_data q i x h)
  then show ?case by (intro inv_data)
next
  case (e_publish q i x h)
  then show ?case by (intro inv_publish)
next
  case (e_notify q i)
  then have "queue_inv (q\<lparr>noticer := True\<rparr>)" by (intro inv_notice)
  from inv_move [OF this, of PIdle i] show ?case using e_notify by (simp add: prod_ok_def)
qed (intro inv_move; simp add: prod_ok_def; fail)+

text \<open>\<^verbatim>\<open>TryEnqueue\<close> makes steps of \<^verbatim>\<open>Enqueue\<close> or abandons its attempt.\<close>

lemma try_step_enq:
  "try_step q i q' \<Longrightarrow> enq_step q i q' \<or> prods q i \<noteq> PNotify \<and> q' = q\<lparr>prods := (prods q)(i := PIdle)\<rparr> \<and> (\<forall>h. \<not> owns (prods q i) h)"
proof (induction rule: try_step.induct)
  case (t_not_free q i x h)
  then show ?case by (intro disjI2 conjI refl) simp_all
next
  case (t_cas_lost q i x h)
  then show ?case by (intro disjI2 conjI refl) simp_all
qed (rule disjI1, rule enq_step.intros; assumption)+

lemma inv_idle: "prod_ok q PIdle" "\<not> owns PIdle h"
  by (simp_all add: prod_ok_def)

lemma inv_try: "try_step q i q' \<Longrightarrow> queue_inv q \<Longrightarrow> queue_inv q'"
  using try_step_enq [of q i q'] inv_enq [of q i q'] by (metis inv_move inv_idle)

lemma ready_lt:
  assumes inv: "queue_inv q" and s: "seqs q (taken q AND qmask q) = taken q + 1"
  shows "taken q < head q"
proof (rule ccontr)
  note D = queue_invD [OF inv]
  assume "\<not> taken q < head q"
  then have h: "taken q = head q" using D(2) by simp
  show False
  proof (cases "taken q < freed q + Queue_Cap q")
    case True
    then show False using slots_okD(4) [OF D(9), of "taken q"] D(1) h s by simp
  next
    case False
    then have t: "taken q = freed q + Queue_Cap q" using D(2,3) by linarith
    obtain k where k: "qmask q = 2 ^ Suc k - 1" using inv by (auto simp: queue_inv_def)
    have "taken q AND qmask q = freed q AND qmask q" unfolding idx_mod [OF k] t by simp
    then show False using slots_okD(1) [OF D(9), of "freed q"] D(10) t s by simp
  qed
qed

lemma inv_deq: "deq_step q q' \<Longrightarrow> queue_inv q \<Longrightarrow> queue_inv q'"
proof (induction rule: deq_step.induct)
  case (d_ready q n k t got)
  note D = queue_invD [OF d_ready(4)]
  have t: "t = taken q" using D(8) d_ready(1) by (simp add: cons_ok_def)
  have "t < head q" using ready_lt [OF d_ready(4)] d_ready(3) t by simp
  then show ?case using d_ready D(8) by (intro inv_cons) (auto simp: cons_ok_def freed_def)
next
  case (d_take q n k t got x)
  then show ?case by (intro inv_take)
next
  case (d_wake q n k)
  then have "queue_inv (q\<lparr>noticer := False\<rparr>)" by (intro inv_notice)
  from inv_cons [OF this] show ?case
    using d_wake queue_invD(8) [of q] by (simp add: cons_ok_def freed_def)
next
  case (d_store q t got)
  then show ?case by (intro inv_store)
next
  case (d_release q t i got r)
  then show ?case by (intro inv_release)
qed (frule queue_invD(8); intro inv_cons; auto simp: cons_ok_def freed_def; fail)+

lemma inv_close_step: "close_step q q' \<Longrightarrow> queue_inv q \<Longrightarrow> queue_inv q'"
proof (induction rule: close_step.induct)
  case (c_cas q)
  then show ?case using inv_closing [OF inv_close [of q True], of "closing q + 1"] by simp
next
  case (c_notify q)
  then show ?case using inv_closing [OF inv_notice [of q True], of "closing q - 1"] by simp
qed

lemma inv_New: "queue_inv (New capacity)"
proof -
  obtain k where "New_capacity capacity = 2 ^ Suc k" by (rule New_capacity_pow)
  then have k: "qmask (New capacity :: 'a queue) = 2 ^ Suc k - 1" by (simp add: New_def)
  have idx: "p AND qmask (New capacity :: 'a queue) = p" if "p < Queue_Cap (New capacity :: 'a queue)" for p
    using that unfolding idx_mod [OF k] by simp
  have fr: "freed (New capacity :: 'a queue) = 0" by (simp add: New_def freed_def)
  have "slots_ok (New capacity :: 'a queue)"
    by (rule slots_okI, unfold fr) (use idx in \<open>simp_all add: New_def\<close>)
  then show ?thesis
    using k fr by (auto simp: queue_inv_def) (auto simp: New_def prod_ok_def cons_ok_def)
qed

lemma reachable_inv: "reachable capacity q \<Longrightarrow> queue_inv q"
  by (induction rule: reachable.induct) (auto simp: inv_New elim!: step.cases intro: inv_enq inv_try inv_deq inv_close_step)

lemma reachable_mask: "reachable capacity q \<Longrightarrow> Queue_Cap q = New_capacity capacity"
proof (induction rule: reachable.induct)
  case r_new
  obtain k where "New_capacity capacity = 2 ^ Suc k" by (rule New_capacity_pow)
  then show ?case by (simp add: New_def Queue_Cap_def)
next
  case (r_step q q')
  have "qmask q' = qmask q"
    using r_step(2) by (auto elim!: step.cases enq_step.cases try_step.cases deq_step.cases close_step.cases)
  then show ?case using r_step by (simp add: Queue_Cap_def)
qed

section \<open>No lost wake-up\<close>

text \<open>
  A consumer that has found its slot not ready and is about to block, or blocks, will be woken if the
  slot becomes ready or the queue is closed: the notification is pending or still to be sent.
\<close>

definition ready :: "'a queue \<Rightarrow> bool" where
  "ready q \<longleftrightarrow> seqs q (taken q AND qmask q) = taken q + 1"

definition wake_inv :: "'a queue \<Rightarrow> bool" where
  "wake_inv q \<longleftrightarrow>
     (\<forall>n k. cons q = CEmpty n k \<or> cons q = CWait n k \<longrightarrow> ready q \<longrightarrow> noticer q \<or> (\<exists>i. prods q i = PNotify)) \<and>
     (\<forall>n k. cons q = CWait n k \<longrightarrow> qclosed q \<longrightarrow> noticer q \<or> closing q > 0)"


lemma wake_move:
  assumes "wake_inv q" "prods q i \<noteq> PNotify" "prods q' = (prods q)(i := p)" "cons q' = cons q"
    "seqs q' = seqs q" "out q' = out q" "qmask q' = qmask q" "noticer q' = noticer q" "qclosed q' = qclosed q"
    "closing q' = closing q"
  shows "wake_inv q'"
proof -
  have "\<exists>j. prods q' j = PNotify" if "prods q j = PNotify" for j
    using that assms(2,3) by (metis fun_upd_other)
  moreover have "ready q' = ready q" using assms by (simp add: ready_def)
  ultimately show ?thesis using assms unfolding wake_inv_def by (metis (lifting))
qed

lemma wake_enq:
  assumes "enq_step q i q'" "queue_inv q" "wake_inv q"
  shows "wake_inv q'"
  using assms
proof (induction rule: enq_step.induct)
  case (e_publish q i x h)
  then show ?case by (auto simp: wake_inv_def intro: exI [of _ i])
next
  case (e_notify q i)
  then show ?case by (auto simp: wake_inv_def)
qed (rule wake_move; simp; fail)+

lemma wake_try:
  assumes "try_step q i q'" "queue_inv q" "wake_inv q"
  shows "wake_inv q'"
  using try_step_enq [OF assms(1)]
proof
  assume "prods q i \<noteq> PNotify \<and> q' = q\<lparr>prods := (prods q)(i := PIdle)\<rparr> \<and> (\<forall>h. \<not> owns (prods q i) h)"
  then show ?thesis by (intro wake_move [OF assms(3), of i]) auto
qed (use wake_enq assms(2,3) in blast)

lemma wake_deq:
  assumes "deq_step q q'" "queue_inv q" "wake_inv q"
  shows "wake_inv q'"
  using assms
proof (induction rule: deq_step.induct)
  case (d_break q n k t got)
  then have "t = taken q" using queue_invD(8) [of q] by (simp add: cons_ok_def)
  then show ?case using d_break by (auto simp: wake_inv_def ready_def)
qed (auto simp: wake_inv_def ready_def)

lemma wake_close: "close_step q q' \<Longrightarrow> wake_inv q \<Longrightarrow> wake_inv q'"
  by (induction rule: close_step.induct) (auto simp: wake_inv_def ready_def)

lemma reachable_wake: "reachable capacity q \<Longrightarrow> wake_inv q"
proof (induction rule: reachable.induct)
  case r_new
  then show ?case by (simp add: New_def wake_inv_def)
next
  case (r_step q q')
  from r_step(2) show ?case
    by cases (use r_step(3) reachable_inv [OF r_step(1)] wake_enq wake_try wake_deq wake_close in blast)+
qed

section \<open>The queue as a bounded FIFO\<close>

text \<open>The abstract queue: the accepted items that have not been delivered.\<close>

definition aq :: "'a queue \<Rightarrow> 'a list" where
  "aq q = drop (taken q) (log q)"

inductive fifo_step :: "nat \<Rightarrow> 'a list \<times> 'a list \<Rightarrow> 'a list \<times> 'a list \<Rightarrow> bool" where
  fifo_stutter: "fifo_step c (xs, ys) (xs, ys)"
| fifo_enqueue: "length xs < c \<Longrightarrow> fifo_step c (xs, ys) (xs @ [x], ys)"
| fifo_dequeue: "fifo_step c (x # xs, ys) (xs, ys @ [x])"

lemma fifo_same: "log q' = log q \<Longrightarrow> out q' = out q \<Longrightarrow> fifo_step c (aq q, out q) (aq q', out q')"
  by (simp add: aq_def fifo_stutter)

lemma fifo_enq:
  assumes "enq_step q i q'" "queue_inv q"
  shows "fifo_step (Queue_Cap q) (aq q, out q) (aq q', out q')"
  using assms
proof (induction rule: enq_step.induct)
  case (e_cas q i x h)
  note D = queue_invD [OF e_cas(3)]
  have "head q < freed q + Queue_Cap q" using D(6) [of i] e_cas by (simp add: prod_ok_def)
  then have "length (aq q) < Queue_Cap q" using D(1,2,4) by (simp add: aq_def)
  then have "fifo_step (Queue_Cap q) (aq q, out q) (aq q @ [x], out q)" by (rule fifo_enqueue)
  then show ?case using D(2,4) by (simp add: aq_def)
qed (rule fifo_same; simp; fail)+

lemma fifo_try: "try_step q i q' \<Longrightarrow> queue_inv q \<Longrightarrow> fifo_step (Queue_Cap q) (aq q, out q) (aq q', out q')"
  using try_step_enq [of q i q'] fifo_enq [of q i q'] by (auto intro: fifo_same)

lemma fifo_deq:
  assumes "deq_step q q'" "queue_inv q"
  shows "fifo_step (Queue_Cap q) (aq q, out q) (aq q', out q')"
  using assms
proof (induction rule: deq_step.induct)
  case (d_take q n k t got x)
  note D = queue_invD [OF d_take(3)]
  have t: "t = taken q" "seqs q (t AND qmask q) = t + 1" "t < head q"
    using D(8) d_take(1) by (auto simp: cons_ok_def)
  have w: "freed q \<le> t" "t < freed q + Queue_Cap q" using t D(1,3) by linarith+
  have "\<not> busy q t" using slots_okD(2) [OF D(9) w] t by auto
  then have "log q ! t = x" using slots_okD(3) [OF D(9) w] t d_take(2) by auto
  then have "aq q = x # drop (Suc (taken q)) (log q)"
    using t D(4) by (metis aq_def Cons_nth_drop_Suc)
  then show ?case using fifo_dequeue [of "Queue_Cap q" x "drop (Suc (taken q)) (log q)" "out q"]
    by (simp add: aq_def)
qed (rule fifo_same; simp; fail)+

section \<open>Properties\<close>

text \<open>
  C2. The ring queue refines a bounded FIFO queue: in every reachable state of any number of
  concurrent producers in \<^verbatim>\<open>Enqueue\<close> and \<^verbatim>\<open>TryEnqueue\<close>, the consumer and closers, an atomic step of the code either does not change
  the abstract queue, or appends one item to a queue that is not full, or hands its oldest item to
  the consumer. The capacity is the one that \<^verbatim>\<open>New\<close> computed.
\<close>

theorem ring_refines_fifo:
  assumes "reachable capacity q" "step q q'"
  shows "fifo_step (New_capacity capacity) (aq q, out q) (aq q', out q')"
proof -
  have inv: "queue_inv q" using assms(1) by (rule reachable_inv)
  have cap: "New_capacity capacity = Queue_Cap q" using reachable_mask [OF assms(1)] by simp
  from assms(2) show ?thesis
  proof cases
    case (step_enq i)
    then show ?thesis using fifo_enq inv cap by metis
  next
    case (step_try i)
    then show ?thesis using fifo_try inv cap by metis
  next
    case step_deq
    then show ?thesis using fifo_deq inv cap by metis
  next
    case step_close
    then have "log q' = log q" "out q' = out q" by (cases rule: close_step.cases; simp)+
    then show ?thesis by (rule fifo_same)
  qed
qed

text \<open>The next step of a producer and of the consumer as functions, to run the queue on examples.\<close>

definition enq_next :: "'a \<Rightarrow> nat \<Rightarrow> 'a queue \<Rightarrow> 'a queue" where
  "enq_next y i q = (let goto = (\<lambda>p. q\<lparr>prods := (prods q)(i := p)\<rparr>) in
     case prods q i of
       PIdle \<Rightarrow> goto (PClosed y)
     | PClosed x \<Rightarrow> if qclosed q then goto PIdle else goto (PHead x)
     | PHead x \<Rightarrow> goto (PSeq x (head q))
     | PSeq x h \<Rightarrow> if seqs q (h AND qmask q) = h then goto (PCas x h)
                  else if seqs q (h AND qmask q) < h then goto (PFull x h) else goto (PClosed x)
     | PCas x h \<Rightarrow> if head q = h
         then q\<lparr>head := h + 1, prods := (prods q)(i := PData x h), log := log q @ [x]\<rparr> else goto (PClosed x)
     | PData x h \<Rightarrow> q\<lparr>dat := (dat q)(h AND qmask q := Some x), prods := (prods q)(i := PPublish x h)\<rparr>
     | PPublish x h \<Rightarrow> q\<lparr>seqs := (seqs q)(h AND qmask q := h + 1), prods := (prods q)(i := PNotify)\<rparr>
     | PNotify \<Rightarrow> q\<lparr>noticer := True, prods := (prods q)(i := PIdle)\<rparr>
     | PFull x h \<Rightarrow> if head q = h then goto PIdle else goto (PClosed x))"

definition deq_next :: "nat \<Rightarrow> 'a queue \<Rightarrow> 'a queue option" where
  "deq_next m q = (case cons q of
       CIdle \<Rightarrow> if 0 < m then Some (q\<lparr>cons := CTail m 0\<rparr>) else None
     | CTail n k \<Rightarrow> Some (q\<lparr>cons := CScan n k (tail q) []\<rparr>)
     | CScan n k t got \<Rightarrow>
         if length got < n
         then if seqs q (t AND qmask q) = t + 1 then Some (q\<lparr>cons := CTake n k t got\<rparr>)
              else Some (q\<lparr>cons := (if got = [] then CEmpty n k else CStore t got)\<rparr>)
         else if length got = n then Some (q\<lparr>cons := CStore t got\<rparr>) else None
     | CTake n k t got \<Rightarrow> (case dat q (t AND qmask q) of
           Some x \<Rightarrow> Some (q\<lparr>dat := (dat q)(t AND qmask q := None), cons := CScan n k (t + 1) (got @ [x]), out := out q @ [x]\<rparr>)
         | None \<Rightarrow> None)
     | CEmpty n k \<Rightarrow> if qclosed q then Some (q\<lparr>cons := CWoken n k\<rparr>)
         else if k < 3 then Some (q\<lparr>cons := CTail n (k + 1)\<rparr>) else Some (q\<lparr>cons := CWait n k\<rparr>)
     | CWait n k \<Rightarrow> if noticer q then Some (q\<lparr>noticer := False, cons := CWoken n k\<rparr>) else None
     | CWoken n k \<Rightarrow> if qclosed q then Some (q\<lparr>cons := CLen n k\<rparr>) else Some (q\<lparr>cons := CTail n k\<rparr>)
     | CLen n k \<Rightarrow> if Queue_Len q > 0 then Some (q\<lparr>cons := CTail n k\<rparr>) else Some (q\<lparr>cons := CIdle\<rparr>)
     | CStore t got \<Rightarrow> Some (q\<lparr>tail := t, cons := CRelease t 0 got\<rparr>)
     | CRelease t i got \<Rightarrow>
         if i < length got
         then let r = t - length got + i
              in Some (q\<lparr>seqs := (seqs q)(r AND qmask q := r + qmask q + 1), cons := CRelease t (i + 1) got\<rparr>)
         else if i = length got then Some (q\<lparr>cons := CIdle\<rparr>) else None)"

lemma enq_next_step: "enq_step q i (enq_next y i q)"
  by (cases "prods q i") (auto simp: enq_next_def Let_def intro: enq_step.intros [simplified])

lemma d_break_cases:
  "cons q = CScan n k t [] \<Longrightarrow> 0 < n \<Longrightarrow> seqs q (t AND qmask q) \<noteq> Suc t \<Longrightarrow> deq_step q (q\<lparr>cons := CEmpty n k\<rparr>)"
  "cons q = CScan n k t got \<Longrightarrow> length got < n \<Longrightarrow> got \<noteq> [] \<Longrightarrow> seqs q (t AND qmask q) \<noteq> Suc t \<Longrightarrow>
   deq_step q (q\<lparr>cons := CStore t got\<rparr>)"
  using d_break [of q n k t "[]"] d_break [of q n k t got] by simp_all

lemma deq_next_step: "deq_next m q = Some q' \<Longrightarrow> deq_step q q'"
  by (auto simp: deq_next_def Let_def split: consumer.splits if_splits option.splits
      intro: deq_step.intros [simplified] d_break_cases)

text \<open>A schedule: a producer with an item for its next call, or the consumer with its slice length.\<close>

datatype 'a turn = Enq 'a nat | Deq nat

fun run :: "'a turn list \<Rightarrow> 'a queue \<Rightarrow> 'a queue option" where
  "run [] q = Some q"
| "run (Enq y i # ts) q = run ts (enq_next y i q)"
| "run (Deq m # ts) q = Option.bind (deq_next m q) (run ts)"

lemma run_reachable: "reachable capacity q \<Longrightarrow> run ts q = Some q' \<Longrightarrow> reachable capacity q'"
  by (induction ts q rule: run.induct)
    (auto split: bind_splits intro: reachable.r_step step_enq step_deq enq_next_step deq_next_step)

text \<open>
  Examples: a producer before its first CAS; a blocked consumer for which a producer has published an
  item but not yet sent the notification; a full queue of two slots seen by a third producer.
\<close>

definition sample_cas :: "nat queue" where
  "sample_cas = the (run (replicate 4 (Enq 7 0)) (New 4))"

definition sample_wait :: "nat queue" where
  "sample_wait = the (run (replicate 13 (Deq 1) @ replicate 7 (Enq 7 0)) (New 4))"

definition sample_full :: "nat queue" where
  "sample_full = the (run (replicate 5 (Enq 7 0) @ replicate 5 (Enq 8 1) @ replicate 3 (Enq 9 2)) (New 2))"

lemma New_capacity_examples: "New_capacity 4 = 4" "New_capacity 2 = 2"
  by (simp_all add: New_capacity_def smear_def Let_def)

lemma enq_next_simps:
  "prods q i = PIdle \<Longrightarrow> enq_next y i q = q\<lparr>prods := (prods q)(i := PClosed y)\<rparr>"
  "prods q i = PClosed x \<Longrightarrow> \<not> qclosed q \<Longrightarrow> enq_next y i q = q\<lparr>prods := (prods q)(i := PHead x)\<rparr>"
  "prods q i = PHead x \<Longrightarrow> enq_next y i q = q\<lparr>prods := (prods q)(i := PSeq x (head q))\<rparr>"
  "prods q i = PSeq x h \<Longrightarrow> seqs q (h AND qmask q) = h \<Longrightarrow> enq_next y i q = q\<lparr>prods := (prods q)(i := PCas x h)\<rparr>"
  "prods q i = PCas x h \<Longrightarrow> head q = h \<Longrightarrow>
     enq_next y i q = q\<lparr>head := h + 1, prods := (prods q)(i := PData x h), log := log q @ [x]\<rparr>"
  "prods q i = PData x h \<Longrightarrow>
     enq_next y i q = q\<lparr>dat := (dat q)(h AND qmask q := Some x), prods := (prods q)(i := PPublish x h)\<rparr>"
  "prods q i = PPublish x h \<Longrightarrow>
     enq_next y i q = q\<lparr>seqs := (seqs q)(h AND qmask q := h + 1), prods := (prods q)(i := PNotify)\<rparr>"
  by (simp_all add: enq_next_def Let_def)

lemma deq_next_simps:
  "cons q = CIdle \<Longrightarrow> 0 < m \<Longrightarrow> deq_next m q = Some (q\<lparr>cons := CTail m 0\<rparr>)"
  "cons q = CTail n k \<Longrightarrow> deq_next m q = Some (q\<lparr>cons := CScan n k (tail q) []\<rparr>)"
  "cons q = CScan n k t [] \<Longrightarrow> 0 < n \<Longrightarrow> seqs q (t AND qmask q) \<noteq> t + 1 \<Longrightarrow> deq_next m q = Some (q\<lparr>cons := CEmpty n k\<rparr>)"
  "cons q = CEmpty n k \<Longrightarrow> \<not> qclosed q \<Longrightarrow>
     deq_next m q = Some (q\<lparr>cons := (if k < 3 then CTail n (k + 1) else CWait n k)\<rparr>)"
  by (simp_all add: deq_next_def)

lemma replicate_numeral: "replicate (numeral v) x = x # replicate (pred_numeral v) x"
  by (simp add: numeral_eq_Suc)

lemmas run_eval = enq_next_simps deq_next_simps New_def New_capacity_examples replicate_numeral

lemma sample_runs:
  "run (replicate 4 (Enq 7 0)) (New 4) = Some sample_cas"
  "run (replicate 13 (Deq 1) @ replicate 7 (Enq 7 0)) (New 4) = Some sample_wait"
  "run (replicate 5 (Enq 7 0) @ replicate 5 (Enq 8 1) @ replicate 3 (Enq 9 2)) (New 2) = Some sample_full"
proof -
  have "run (replicate 4 (Enq (7 :: nat) 0)) (New 4) \<noteq> None" by (simp add: run_eval)
  then show "run (replicate 4 (Enq 7 0)) (New 4) = Some sample_cas" by (auto simp: sample_cas_def)
  have "run (replicate 13 (Deq 1) @ replicate 7 (Enq (7 :: nat) 0)) (New 4) \<noteq> None" by (simp add: run_eval)
  then show "run (replicate 13 (Deq 1) @ replicate 7 (Enq 7 0)) (New 4) = Some sample_wait"
    by (auto simp: sample_wait_def)
  have "run (replicate 5 (Enq (7 :: nat) 0) @ replicate 5 (Enq 8 1) @ replicate 3 (Enq 9 2)) (New 2) \<noteq> None" by (simp add: run_eval)
  then show "run (replicate 5 (Enq 7 0) @ replicate 5 (Enq 8 1) @ replicate 3 (Enq 9 2)) (New 2) = Some sample_full"
    by (auto simp: sample_full_def)
qed

lemmas sample_reach = sample_runs [THEN run_reachable [OF r_new]]

lemma sample_facts:
  "prods sample_cas 0 = PCas 7 0" "head sample_cas = 0" "log sample_cas = []" "out sample_cas = []"
  "cons sample_wait = CWait 1 3" "seqs sample_wait (length (out sample_wait) AND qmask sample_wait) = length (out sample_wait) + 1"
  "prods sample_full 2 = PSeq 9 2" "seqs sample_full (2 AND qmask sample_full) < 2"
  by (simp_all add: sample_cas_def sample_wait_def sample_full_def run_eval)

theorem ring_refines_fifo_witness:
  "fifo_step (New_capacity 4) (aq sample_cas, out sample_cas) (aq (enq_next 0 0 sample_cas), out (enq_next 0 0 sample_cas)) \<and>
   aq sample_cas = [] \<and> aq (enq_next 0 0 sample_cas) = [7]"
  using ring_refines_fifo [OF sample_reach(1) step_enq [OF enq_next_step], of 0 0]
  by (simp add: aq_def sample_facts) (simp add: enq_next_def sample_facts Let_def)

text \<open>
  Nothing is lost, duplicated or reordered: at every moment the delivered items are exactly the
  first accepted ones, in the order in which the producers' CAS operations succeeded, and at most
  the capacity of items is waiting.
\<close>

theorem ring_delivers_in_order:
  assumes "reachable capacity q"
  shows "out q = take (length (out q)) (log q) \<and> length (log q) \<le> length (out q) + New_capacity capacity"
  using queue_invD(1-5) [OF reachable_inv [OF assms]] reachable_mask [OF assms] by simp

theorem ring_delivers_in_order_witness:
  "out sample_wait = take (length (out sample_wait)) (log sample_wait) \<and>
   length (log sample_wait) \<le> length (out sample_wait) + New_capacity 4"
  using ring_delivers_in_order [OF sample_reach(2)] by blast

text \<open>
  C34. No wake-up is lost: while the consumer blocks on the channel although its next slot is ready or
  the queue is closed, the notification that wakes it is in the channel or a producer or closer is
  about to send it.
\<close>

theorem ring_no_lost_wakeup:
  assumes "reachable capacity q" "cons q = CWait n k" "ready q \<or> qclosed q"
  shows "noticer q \<or> (\<exists>i. prods q i = PNotify) \<or> closing q > 0"
  using reachable_wake [OF assms(1)] assms(2,3) unfolding wake_inv_def by auto

theorem ring_no_lost_wakeup_witness:
  "cons sample_wait = CWait 1 3 \<and> ready sample_wait \<and>
   (noticer sample_wait \<or> (\<exists>i. prods sample_wait i = PNotify) \<or> closing sample_wait > 0)"
  using ring_no_lost_wakeup [OF sample_reach(2) sample_facts(5)] sample_facts(5,6) by (simp add: ready_def)

text \<open>
  \<^verbatim>\<open>Enqueue\<close> does not report a full queue that is not full: at the moment a producer reads a
  sequence number below its position, every slot is taken by an item not yet released.
\<close>

theorem ring_full_is_full:
  assumes "reachable capacity q" "prods q i = PSeq x h" "seqs q (h AND qmask q) < h"
  shows "head q = h \<and> h = freed q + New_capacity capacity"
proof -
  note inv = reachable_inv [OF assms(1)]
  have "h \<le> head q" using queue_invD(6) [OF inv, of i] assms(2) by (simp add: prod_ok_def)
  then show ?thesis using full_seen [OF inv _ assms(3)] reachable_mask [OF assms(1)] by simp
qed

theorem ring_full_is_full_witness: "head sample_full = 2 \<and> 2 = freed sample_full + New_capacity 2"
  by (rule ring_full_is_full [OF sample_reach(3) sample_facts(7,8)])

text \<open>
  \<^verbatim>\<open>New\<close> rounds the requested capacity, clamped to 2 .. 65536, up to the next power of two.
\<close>

theorem New_capacity_power:
  "\<exists>k. New_capacity capacity = 2 ^ Suc k \<and> nat (max 2 (min capacity 65536)) \<le> New_capacity capacity \<and>
       New_capacity capacity < 2 * nat (max 2 (min capacity 65536))"
  by (rule New_capacity_pow [of capacity]) metis

end
