(* ===== verification/Packet.thy ===== *)
theory Packet
  imports Prelude
begin

text \<open>
  The packet format between the gateway and the business processes, in both directions: four bytes of
  length (of everything after them), four bytes of command, the protobuf body, big-endian. The
  readers of \<^verbatim>\<open>src/internal/task/process/process.go\<close> (\<^verbatim>\<open>Process\<close>) and \<^verbatim>\<open>src/internal/worker/process.go\<close>
  (\<^verbatim>\<open>process\<close>) cut the stream with the same code; the writers \<^verbatim>\<open>packet.set\<close> (worker), \<^verbatim>\<open>send\<close> (task) and
  \<^verbatim>\<open>Packet.Set\<close> (queues) fill the same header. Serialization (\<^verbatim>\<open>proto.Marshal\<close>) is a parameter that
  returns \<open>None\<close> on error.
\<close>

type_synonym cmd = u32

record packet =
  pheader :: bytes
  pbody :: bytes

text \<open>\<^verbatim>\<open>packet.set\<close> of the worker package.\<close>

definition packet_set :: "('m \<Rightarrow> bytes option) \<Rightarrow> 'm \<Rightarrow> cmd \<Rightarrow> packet option" where
  "packet_set marshal message command = (case marshal message of
      None \<Rightarrow> None
    | Some body \<Rightarrow> Some \<lparr>pheader = PutUint32 (of_nat (length body + 4)) @ PutUint32 command, pbody = body\<rparr>)"

definition wire :: "packet \<Rightarrow> bytes" where "wire p = pheader p @ pbody p"

section \<open>Reading the stream\<close>

text \<open>
  One turn of the read loop on the bytes that the peer has sent so far: \<open>Starved\<close> when the reader
  still waits (or fails at the end of the stream), \<open>Oversize\<close> when the announced length exceeds the
  limit, otherwise the data of the packet and the rest of the stream.
\<close>

datatype read_res = Starved | Oversize | Data bytes bytes

definition read_packet :: "u32 \<Rightarrow> bytes \<Rightarrow> read_res" where
  "read_packet limit buf =
     (if length buf < 4 then Starved
      else let dataLen = Uint32 buf
           in if dataLen > limit then Oversize
              else if length (drop 4 buf) < unat dataLen then Starved
              else Data (take (unat dataLen) (drop 4 buf)) (drop (unat dataLen) (drop 4 buf)))"

lemma read_packet_shorter: "read_packet limit buf = Data d rest \<Longrightarrow> length rest < length buf"
  by (auto simp: read_packet_def Let_def split: if_splits)

text \<open>What a packet's data is for the dispatcher: a heartbeat, too short, or a command with its body.\<close>

datatype data_kind = Heartbeat | NoCmd | Command cmd bytes

definition classify :: "bytes \<Rightarrow> bytes \<Rightarrow> data_kind" where
  "classify heartbeat d =
     (if heartbeat = d then Heartbeat else if length d < 4 then NoCmd else Command (Uint32 d) (drop 4 d))"

lemma read_packet_set:
  assumes "packet_set marshal msg c = Some p" "length (pbody p) + 4 < 2 ^ 32" "length (pbody p) + 4 \<le> unat limit"
  shows "read_packet limit (wire p @ rest) = Data (PutUint32 c @ pbody p) rest"
proof -
  let ?n = "length (pbody p) + 4"
  have p: "pheader p = PutUint32 (of_nat ?n) @ PutUint32 c"
    using assms(1) by (auto simp: packet_set_def split: option.splits)
  have n: "unat (of_nat ?n :: u32) = ?n" using assms(2) by (intro unat_of_nat_small) simp
  have h: "Uint32 (wire p @ rest) = of_nat ?n" by (simp only: wire_def p append_assoc Uint32_Put)
  have le: "\<not> (of_nat ?n :: u32) > limit" using assms(3) by (simp only: word_less_nat_alt n not_less)
  have d: "drop 4 (wire p @ rest) = PutUint32 c @ pbody p @ rest" by (simp add: wire_def p)
  show ?thesis
    unfolding read_packet_def Let_def h d n using le by (simp add: wire_def p)
qed

lemma classify_set:
  "heartbeat \<noteq> PutUint32 c @ body \<Longrightarrow> classify heartbeat (PutUint32 c @ body) = Command c body"
  by (simp add: classify_def)

text \<open>All the packets at the front of a stream.\<close>

function read_all :: "u32 \<Rightarrow> bytes \<Rightarrow> bytes list" where
  "read_all limit buf = (case read_packet limit buf of Data d rest \<Rightarrow> d # read_all limit rest | _ \<Rightarrow> [])"
  by pat_completeness auto
termination
  by (relation "measure (\<lambda>(_, buf). length buf)") (auto dest: read_packet_shorter)

declare read_all.simps [simp del]

lemma read_all_set:
  assumes "\<forall>(m, c, p) \<in> set ps. packet_set marshal m c = Some p \<and> length (pbody p) + 4 < 2 ^ 32 \<and>
      length (pbody p) + 4 \<le> unat limit"
  shows "read_all limit (concat (map (\<lambda>(m, c, p). wire p) ps)) = map (\<lambda>(m, c, p). PutUint32 c @ pbody p) ps"
  using assms
proof (induction ps)
  case Nil
  then show ?case by (simp add: read_all.simps read_packet_def)
next
  case (Cons x ps)
  obtain m c p where x: "x = (m, c, p)" by (cases x)
  then have "packet_set marshal m c = Some p" "length (pbody p) + 4 < 2 ^ 32" "length (pbody p) + 4 \<le> unat limit"
    using Cons.prems by auto
  from read_packet_set [OF this] Cons x show ?case by (subst read_all.simps) simp
qed

text \<open>
  C37. Round trip of the packet stream: what the readers cut out of the concatenation of written packets is, packet by packet,
  the command and the body of the message, provided no packet exceeds the reader's limit.
\<close>

theorem packet_stream_roundtrip:
  assumes "\<forall>(m, c, p) \<in> set ps. packet_set marshal m c = Some p \<and> length (pbody p) + 4 < 2 ^ 32 \<and>
      length (pbody p) + 4 \<le> unat limit"
  shows "map (classify heartbeat) (read_all limit (concat (map (\<lambda>(m, c, p). wire p) ps)))
     = map (\<lambda>(m, c, p). if heartbeat = PutUint32 c @ pbody p then Heartbeat else Command c (pbody p)) ps"
  unfolding read_all_set [OF assms] by (simp add: comp_def case_prod_unfold classify_def)

theorem packet_stream_roundtrip_witness:
  "map (classify [112]) (read_all 100 (concat (map (\<lambda>(m, c, p). wire p)
     [((), 7, \<lparr>pheader = PutUint32 5 @ PutUint32 7, pbody = [9]\<rparr>)]))) = [Command 7 [9]]"
proof -
  have "length [112 :: u8] \<noteq> length (PutUint32 7 @ [9 :: u8])" by simp
  then have "[112] \<noteq> PutUint32 7 @ [9 :: u8]" by metis
  then show ?thesis
    using packet_stream_roundtrip [of "[((), 7, \<lparr>pheader = PutUint32 5 @ PutUint32 7, pbody = [9]\<rparr>)]" "\<lambda>_. Some [9]" 100 "[112]"]
    by (simp add: packet_set_def)
qed

end
