(* ===== verification/ShardMap.thy ===== *)
theory ShardMap
  imports Prelude
begin

text \<open>
  The storage scheme that \<^verbatim>\<open>src/internal/customer/\<close>\<^verbatim>\<open>{topic,binder,manager}\<close> repeat: an array of 256
  map shards, a key living in the shard its FNV hash selects, and bulk operations that first group
  their keys by shard. The scheme is stated once, in the locale \<open>sharded\<close>, over an arbitrary hash
  into the 256 shards; each registry interprets it on its own hash function. The locale
  \<open>rel_index\<close> is the contract of an index from names to sets of connections, which the topic and
  the customer-id registries provide to the gateway.
\<close>

section \<open>Shards and loops over them\<close>

text \<open>\<^verbatim>\<open>const shardCount = 256\<close> and \<^verbatim>\<open>const shardMask = shardCount - 1\<close> of the three packages.\<close>

definition shardCount :: nat where "shardCount = 256"

definition shardMask :: u32 where "shardMask = 255"

type_synonym 'd shards = "nat \<Rightarrow> 'd"

text \<open>
  The 32-bit FNV-1 hash with which all three packages choose a shard: multiply, then xor the next
  byte of the string.
\<close>

definition fnv :: "string \<Rightarrow> u32" where
  "fnv s = foldl (\<lambda>hash c. (hash * 16777619) XOR of_char c) 2166136261 s"

definition shard_of :: "string \<Rightarrow> nat" where
  "shard_of s = unat (fnv s AND shardMask)"

lemma shard_of_lt: "shard_of s < shardCount"
proof -
  have "fnv s AND shardMask \<le> shardMask" by (rule word_and_le1)
  then have "unat (fnv s AND shardMask) \<le> unat shardMask" by (simp only: word_le_nat_alt)
  then show ?thesis by (simp add: shard_of_def shardCount_def shardMask_def)
qed

text \<open>
  \<^verbatim>\<open>for _, k := range ks { if k == "" {continue}; idx := hash(k); groups[idx] = append(groups[idx], k) }\<close>.
\<close>

definition group_by_shard :: "(string \<Rightarrow> nat) \<Rightarrow> string list \<Rightarrow> string list shards" where
  "group_by_shard h ks =
     fold (\<lambda>k g. if k = '''' then g else g(h k := g (h k) @ [k])) ks (\<lambda>_. [])"

text \<open>
  \<^verbatim>\<open>for idx, l := range groups { if len(l) == 0 {continue}; sd := &r.shards[idx]; body }\<close>, where the body
  may also update a result that the loop accumulates.
\<close>

definition for_groups ::
  "string list shards \<Rightarrow> (string list \<Rightarrow> 'd \<times> 'r \<Rightarrow> 'd \<times> 'r) \<Rightarrow> 'd shards \<times> 'r \<Rightarrow> 'd shards \<times> 'r"
where
  "for_groups g body =
     fold (\<lambda>idx (S, r). if g idx = [] then (S, r)
                        else let (d, r') = body (g idx) (S idx, r) in (S(idx := d), r'))
       [0..<shardCount]"

text \<open>\<^verbatim>\<open>for i := range r.shards { sd := &r.shards[i]; body }\<close> for a body that only reads the shard.\<close>

definition for_shards :: "('d \<Rightarrow> 'r \<Rightarrow> 'r) \<Rightarrow> 'd shards \<Rightarrow> 'r \<Rightarrow> 'r" where
  "for_shards body S r = fold (\<lambda>i r. body (S i) r) [0..<shardCount] r"

lemma group_by_shard_eq:
  "group_by_shard h ks i = filter (\<lambda>k. k \<noteq> '''' \<and> h k = i) ks"
proof -
  have "fold (\<lambda>k g. if k = '''' then g else g(h k := g (h k) @ [k])) ks g i
        = g i @ filter (\<lambda>k. k \<noteq> '''' \<and> h k = i) ks" for g
    by (induction ks arbitrary: g) auto
  then show ?thesis by (simp add: group_by_shard_def)
qed

lemma for_groups_upto_fst:
  assumes "\<And>ks d r. fst (body ks (d, r)) = f ks d"
  shows "fst (fold (\<lambda>idx (S, r). if g idx = [] then (S, r)
            else let (d, r') = body (g idx) (S idx, r) in (S(idx := d), r')) [0..<n] (S, r)) i
         = (if i < n \<and> g i \<noteq> [] then f (g i) (S i) else S i)"
  by (induction n) (use assms in \<open>auto simp: case_prod_unfold Let_def less_Suc_eq\<close>)

lemma for_groups_fst:
  assumes "\<And>ks d r. fst (body ks (d, r)) = f ks d"
  shows "fst (for_groups g body (S, r)) i
         = (if i < shardCount \<and> g i \<noteq> [] then f (g i) (S i) else S i)"
  unfolding for_groups_def by (rule for_groups_upto_fst) (rule assms)

lemma for_groups_snd:
  assumes "\<And>ks d r. snd (body ks (d, r)) = u ks d r"
  shows "snd (for_groups g body (S, r))
         = fold (\<lambda>idx r. if g idx = [] then r else u (g idx) (S idx) r) [0..<shardCount] r"
proof -
  let ?step = "\<lambda>idx (S, r). if g idx = [] then (S, r)
      else let (d, r') = body (g idx) (S idx, r) in (S(idx := d), r')"
  have "snd (fold ?step [0..<n] (S, r))
        = fold (\<lambda>idx r. if g idx = [] then r else u (g idx) (S idx) r) [0..<n] r \<and>
        (\<forall>i\<ge>n. fst (fold ?step [0..<n] (S, r)) i = S i)" for n
    by (induction n) (use assms in \<open>auto simp: case_prod_unfold Let_def\<close>)
  then show ?thesis by (simp add: for_groups_def)
qed

text \<open>Loops that append what they visit, and loops that add up sizes.\<close>

lemma fold_snoc_fst: "fold (\<lambda>(k, _) ks. ks @ [k]) = (\<lambda>d ks. ks @ map fst d)"
proof (intro ext)
  show "fold (\<lambda>(k, _) ks. ks @ [k]) d ks = ks @ map fst d" for d :: "('a \<times> 'b) list" and ks
    by (induction d arbitrary: ks) auto
qed

lemma fold_snoc_snd: "fold (\<lambda>(_, v) vs. vs @ [v]) = (\<lambda>d vs. vs @ map snd d)"
proof (intro ext)
  show "fold (\<lambda>(_, v) vs. vs @ [v]) d vs = vs @ map snd d" for d :: "('a \<times> 'b) list" and vs
    by (induction d arbitrary: vs) auto
qed

lemma for_shards_append: "for_shards (\<lambda>d acc. acc @ g d) S [] = concat (map (\<lambda>i. g (S i)) [0..<shardCount])"
proof -
  have "fold (\<lambda>i acc. acc @ g (S i)) is a = a @ concat (map (\<lambda>i. g (S i)) is)" for "is" a
    by (induction "is" arbitrary: a) auto
  then show ?thesis by (simp add: for_shards_def)
qed

lemma for_shards_sum: "for_shards (\<lambda>d total. total + length d) S 0 = length (concat (map S [0..<shardCount]))"
proof -
  have "fold (\<lambda>i total. total + length (S i)) is a = a + length (concat (map S is))" for "is" a
    by (induction "is" arbitrary: a) auto
  then show ?thesis by (simp add: for_shards_def)
qed

text \<open>
  \<^verbatim>\<open>for _, k := range ks { if v, ok := sd.data[k]; ok { ret[k] = f(v) } }\<close>: the body of the bulk
  look-ups.
\<close>

definition collect_found ::
  "('v \<Rightarrow> 'w) \<Rightarrow> string list \<Rightarrow> (string, 'v) gomap \<Rightarrow> (string, 'w) gomap \<Rightarrow> (string, 'w) gomap" where
  "collect_found f ks d r =
     fold (\<lambda>k r. case map_of d k of None \<Rightarrow> r | Some v \<Rightarrow> AList.update k (f v) r) ks r"

lemma map_of_collect_found:
  "map_of (collect_found f ks d r) k =
     (if k \<in> set ks \<and> map_of d k \<noteq> None then map_option f (map_of d k) else map_of r k)"
  unfolding collect_found_def
  by (induction ks arbitrary: r) (auto split: option.splits)

lemma gm_ok_collect_found [simp, intro]: "gm_ok r \<Longrightarrow> gm_ok (collect_found f ks d r)"
  unfolding collect_found_def
  by (induction ks arbitrary: r) (auto split: option.splits)

section \<open>The sharded store\<close>

text \<open>
  \<open>sh_get h S\<close> is the map that the shards represent; \<open>sh_wf\<close> is the shape every registry keeps:
  each shard is a map, and a key lives only in the shard its hash selects.
\<close>

definition sh_get :: "('k \<Rightarrow> nat) \<Rightarrow> ('k, 'v) gomap shards \<Rightarrow> 'k \<Rightarrow> 'v option" where
  "sh_get h S k = map_of (S (h k)) k"

definition sh_wf :: "('k \<Rightarrow> nat) \<Rightarrow> ('k, 'v) gomap shards \<Rightarrow> bool" where
  "sh_wf h S \<longleftrightarrow> (\<forall>i. gm_ok (S i)) \<and> (\<forall>i k. k \<in> set (keys (S i)) \<longrightarrow> h k = i)"

definition sh_entries :: "('k, 'v) gomap shards \<Rightarrow> ('k, 'v) gomap" where
  "sh_entries S = concat (map S [0..<shardCount])"

lemma sh_get_empty [simp]: "sh_get h (\<lambda>_. []) = Map.empty"
  by (simp add: sh_get_def fun_eq_iff)

lemma sh_wf_empty [simp]: "sh_wf h (\<lambda>_. [])"
  by (simp add: sh_wf_def)

lemma sh_wf_upd:
  "sh_wf h S \<Longrightarrow> gm_ok d \<Longrightarrow> (\<And>k. k \<in> set (keys d) \<Longrightarrow> h k = i) \<Longrightarrow> sh_wf h (S(i := d))"
  by (simp add: sh_wf_def)

locale sharded =
  fixes h :: "'k \<Rightarrow> nat"
  assumes h_lt: "h k < shardCount"
begin

lemma in_entries: "sh_wf h S \<Longrightarrow> (k, v) \<in> set (sh_entries S) \<longleftrightarrow> sh_get h S k = Some v"
proof -
  assume wf: "sh_wf h S"
  have "(k, v) \<in> set (sh_entries S) \<longleftrightarrow> (\<exists>i < shardCount. (k, v) \<in> set (S i))"
    by (auto simp: sh_entries_def)
  also have "\<dots> \<longleftrightarrow> (k, v) \<in> set (S (h k))"
    using wf h_lt by (auto simp: sh_wf_def) (metis fst_conv image_eqI)
  finally show ?thesis using wf by (simp add: sh_get_def sh_wf_def)
qed

lemma distinct_entries: "sh_wf h S \<Longrightarrow> gm_ok (sh_entries S)"
proof -
  assume wf: "sh_wf h S"
  have "distinct (map fst (concat (map S xs)))" if "distinct xs" for xs
    using that
  proof (induction xs)
    case (Cons i xs)
    have "set (keys (S i)) \<inter> set (keys (concat (map S xs))) = {}"
    proof (rule ccontr)
      assume "set (keys (S i)) \<inter> set (keys (concat (map S xs))) \<noteq> {}"
      then obtain k j where "k \<in> set (keys (S i))" "j \<in> set xs" "k \<in> set (keys (S j))" by auto
      with wf have "i = j" by (metis sh_wf_def)
      with \<open>j \<in> set xs\<close> Cons.prems show False by simp
    qed
    moreover have "gm_ok (S i)" using wf by (simp add: sh_wf_def)
    ultimately show ?case using Cons by simp
  qed simp
  then show ?thesis by (simp add: sh_entries_def)
qed

lemma map_of_entries: "sh_wf h S \<Longrightarrow> map_of (sh_entries S) = sh_get h S"
proof
  fix k assume wf: "sh_wf h S"
  show "map_of (sh_entries S) k = sh_get h S k"
  proof (cases "sh_get h S k")
    case None
    then have "k \<notin> fst ` set (sh_entries S)"
      using in_entries [OF wf] by force
    then show ?thesis using None by (simp add: map_of_eq_None_iff)
  next
    case (Some v)
    then show ?thesis
      using in_entries [OF wf] distinct_entries [OF wf] by (simp add: map_of_Some_in_set)
  qed
qed

lemma length_entries: "sh_wf h S \<Longrightarrow> length (sh_entries S) = card (dom (sh_get h S))"
  using gm_length_card [OF distinct_entries] map_of_entries by metis

lemma finite_sh_get: "sh_wf h S \<Longrightarrow> finite (dom (sh_get h S))"
  by (metis map_of_entries finite_dom_map_of)

end

end
