(* ===== verification/RelIndex.thy ===== *)
theory RelIndex
  imports ShardMap
begin

text \<open>
  Interfaces over the sharded store. \<open>point_op\<close>: an idempotent change of one key, run over a list
  of keys grouped by shard, changes exactly those keys. \<open>rel_index\<close>: an index from names to sets
  of connections keyed by connection id, as the topic and customer-id registries offer it; inside
  it, the lemmas the gateway uses to keep an index exact for a relation between connections and
  names.
\<close>

section \<open>Bulk point updates\<close>

locale point_op = sharded h for h :: "string \<Rightarrow> nat" +
  fixes op1 :: "string \<Rightarrow> (string, 'v) gomap \<Rightarrow> (string, 'v) gomap"
    and F :: "'v option \<Rightarrow> 'v option"
  assumes op1_get: "map_of (op1 k d) = (map_of d)(k := F (map_of d k))"
    and op1_ok: "gm_ok d \<Longrightarrow> gm_ok (op1 k d)"
    and F_idem: "F (F x) = F x"
begin

lemma op1_keys: "set (keys (op1 k d)) \<subseteq> insert k (set (keys d))"
proof -
  have "dom (map_of (op1 k d)) \<subseteq> insert k (dom (map_of d))"
    by (auto simp: op1_get dom_def)
  then show ?thesis by (simp add: dom_map_of_conv_image_fst)
qed

lemma fold_get: "map_of (fold op1 ks d) k = (if k \<in> set ks then F (map_of d k) else map_of d k)"
  by (induction ks arbitrary: d) (auto simp: op1_get F_idem)

lemma fold_ok: "gm_ok d \<Longrightarrow> gm_ok (fold op1 ks d)"
  by (induction ks arbitrary: d) (auto simp: op1_ok)

lemma fold_keys: "set (keys (fold op1 ks d)) \<subseteq> set ks \<union> set (keys d)"
proof (induction ks arbitrary: d)
  case (Cons k ks)
  show ?case using Cons.IH [of "op1 k d"] op1_keys [of k d] by auto
qed simp

lemma loop_fst:
  "fst (for_groups (group_by_shard h ks) (\<lambda>l (d, r). (fold op1 l d, u l d r)) (S, r)) i
   = fold op1 (filter (\<lambda>k. k \<noteq> '''' \<and> h k = i) ks) (S i)"
proof -
  have "i < shardCount \<or> filter (\<lambda>k. k \<noteq> '''' \<and> h k = i) ks = []"
    using h_lt by (auto simp: filter_empty_conv)
  then show ?thesis
    by (auto simp: for_groups_fst [where f = "fold op1"] group_by_shard_eq)
qed

lemma loop_get:
  "sh_get h (fst (for_groups (group_by_shard h ks) (\<lambda>l (d, r). (fold op1 l d, u l d r)) (S, r))) k
   = (if k \<in> set ks \<and> k \<noteq> '''' then F (sh_get h S k) else sh_get h S k)"
  by (simp add: sh_get_def loop_fst fold_get)

lemma loop_wf:
  assumes "sh_wf h S"
  shows "sh_wf h (fst (for_groups (group_by_shard h ks) (\<lambda>l (d, r). (fold op1 l d, u l d r)) (S, r)))"
  unfolding sh_wf_def loop_fst
proof (intro conjI allI impI)
  fix i
  show "gm_ok (fold op1 (filter (\<lambda>k. k \<noteq> '''' \<and> h k = i) ks) (S i))"
    using assms by (simp add: fold_ok sh_wf_def)
  fix k assume "k \<in> set (keys (fold op1 (filter (\<lambda>k. k \<noteq> '''' \<and> h k = i) ks) (S i)))"
  then have "k \<in> set (filter (\<lambda>k. k \<noteq> '''' \<and> h k = i) ks) \<union> set (keys (S i))"
    using fold_keys by blast
  then show "h k = i" using assms by (auto simp: sh_wf_def)
qed

end

section \<open>Bulk look-ups\<close>

text \<open>The loops that look up a list of keys group by group, and those that visit every shard.\<close>

locale sharded_str = sharded h for h :: "string \<Rightarrow> nat"
begin

lemma lookup_loop:
  assumes "\<And>ks d r k. map_of (snd (body ks (d, r))) k =
     (if k \<in> set ks \<and> map_of d k \<noteq> None then map_option f (map_of d k) else map_of r k)"
  shows "map_of (snd (for_groups (group_by_shard h ks) body (S, []))) k
         = (if k \<in> set ks \<and> k \<noteq> '''' then map_option f (sh_get h S k) else None)"
proof -
  let ?g = "group_by_shard h ks"
  have "map_of (fold (\<lambda>i r. if ?g i = [] then r else snd (body (?g i) (S i, r))) [0..<n] []) k
        = (if k \<in> set ks \<and> k \<noteq> '''' \<and> h k < n then map_option f (map_of (S (h k)) k) else None)" for n
    by (induction n) (auto simp: assms group_by_shard_eq less_Suc_eq filter_empty_conv)
  then show ?thesis
    using h_lt by (simp add: for_groups_snd [where u = "\<lambda>ks d r. snd (body ks (d, r))"] sh_get_def)
qed

lemma lookup_loop_ok:
  assumes "\<And>ks d r. gm_ok r \<Longrightarrow> gm_ok (snd (body ks (d, r)))"
  shows "gm_ok (snd (for_groups (group_by_shard h ks) body (S, [])))"
proof -
  let ?g = "group_by_shard h ks"
  have "gm_ok (fold (\<lambda>i r. if ?g i = [] then r else snd (body (?g i) (S i, r))) [0..<n] [])" for n
    by (induction n) (auto simp: assms)
  then show ?thesis by (simp add: for_groups_snd [where u = "\<lambda>ks d r. snd (body ks (d, r))"])
qed

lemma visit_loop:
  assumes "sh_wf h S"
  shows "map_of (for_shards (fold (\<lambda>(k, v) r. AList.update k (f v) r)) S []) k
         = map_option f (sh_get h S k)"
proof -
  have one: "map_of (fold (\<lambda>(k, v) r. AList.update k (f v) r) d r) k
        = (if k \<in> set (keys d) then map_option f (map_of d k) else map_of r k)"
    if "gm_ok d" for d r
    using that by (induction d arbitrary: r) (auto simp: map_of_eq_None_iff [symmetric])
  have "map_of (fold (\<lambda>i. fold (\<lambda>(k, v) r. AList.update k (f v) r) (S i)) [0..<n] []) k
        = (if h k < n then map_option f (map_of (S (h k)) k) else None)" for n
  proof (induction n)
    case (Suc n)
    have "gm_ok (S n)" "k \<in> set (keys (S n)) \<Longrightarrow> h k = n"
      using assms by (auto simp: sh_wf_def)
    with Suc show ?case
      by (auto simp: one less_Suc_eq map_of_eq_None_iff)
  qed simp
  then show ?thesis using h_lt by (simp add: for_shards_def sh_get_def)
qed

end

section \<open>Indexes of connections\<close>

definition idx_get :: "('k \<Rightarrow> nat) \<Rightarrow> ('k, (u64, cref) gomap) gomap shards \<Rightarrow> 'k \<Rightarrow> u64 \<Rightarrow> cref option"
where
  "idx_get h S k i = Option.bind (sh_get h S k) (\<lambda>m. map_of m i)"

text \<open>Well-formed index: no name is kept with an empty set of connections.\<close>

definition idx_wf :: "('k \<Rightarrow> nat) \<Rightarrow> ('k, (u64, cref) gomap) gomap shards \<Rightarrow> bool" where
  "idx_wf h S \<longleftrightarrow> sh_wf h S \<and> (\<forall>k m. sh_get h S k = Some m \<longrightarrow> gm_ok m \<and> m \<noteq> [])"

text \<open>An index is exact for a relation between connections and names.\<close>

definition exact :: "('k \<Rightarrow> u64 \<Rightarrow> cref option) \<Rightarrow> (cref \<Rightarrow> u64) \<Rightarrow> (cref \<Rightarrow> 'k \<Rightarrow> bool) \<Rightarrow> bool" where
  "exact lk ids R \<longleftrightarrow> (\<forall>k i c. lk k i = Some c \<longleftrightarrow> R c k \<and> ids c = i)"

lemma exactD: "exact lk ids R \<Longrightarrow> lk k i = Some c \<longleftrightarrow> R c k \<and> ids c = i"
  by (simp add: exact_def)

locale rel_index =
  fixes wf :: "'r \<Rightarrow> bool"
    and lk :: "'r \<Rightarrow> string \<Rightarrow> u64 \<Rightarrow> cref option"
    and add :: "string list \<Rightarrow> u64 \<Rightarrow> cref \<Rightarrow> 'r \<Rightarrow> 'r"
    and del :: "string list \<Rightarrow> u64 \<Rightarrow> 'r \<Rightarrow> 'r"
    and valid :: "string \<Rightarrow> bool"
  assumes wf_add: "wf r \<Longrightarrow> wf (add ks i c r)"
    and wf_del: "wf r \<Longrightarrow> wf (del ks i r)"
    and lk_add: "wf r \<Longrightarrow>
      lk (add ks i c r) k j = (if k \<in> set ks \<and> valid k \<and> j = i then Some c else lk r k j)"
    and lk_del: "wf r \<Longrightarrow>
      lk (del ks i r) k j = (if k \<in> set ks \<and> valid k \<and> j = i then None else lk r k j)"
begin

lemma exact_add:
  assumes "wf r" and ex: "exact (lk r) ids R"
    and fresh: "\<And>c' k. R c' k \<Longrightarrow> ids c' = ids c \<Longrightarrow> c' = c"
  shows "exact (lk (add ks (ids c) c r)) ids (\<lambda>c' k. R c' k \<or> c' = c \<and> k \<in> set ks \<and> valid k)"
proof -
  have "lk (add ks (ids c) c r) k i = Some c' \<longleftrightarrow>
        (R c' k \<or> c' = c \<and> k \<in> set ks \<and> valid k) \<and> ids c' = i" for k i c'
    using fresh [of c' k] by (auto simp: lk_add [OF \<open>wf r\<close>] exactD [OF ex])
  then show ?thesis by (simp add: exact_def)
qed

lemma exact_del:
  assumes "wf r" and ex: "exact (lk r) ids R"
    and fresh: "\<And>c' k. R c' k \<Longrightarrow> ids c' = ids c \<Longrightarrow> c' = c"
  shows "exact (lk (del ks (ids c) r)) ids (\<lambda>c' k. R c' k \<and> \<not> (c' = c \<and> k \<in> set ks \<and> valid k))"
proof -
  have "lk (del ks (ids c) r) k i = Some c' \<longleftrightarrow>
        (R c' k \<and> \<not> (c' = c \<and> k \<in> set ks \<and> valid k)) \<and> ids c' = i" for k i c'
    using fresh [of c' k] by (auto simp: lk_del [OF \<open>wf r\<close>] exactD [OF ex])
  then show ?thesis by (simp add: exact_def)
qed

lemma lk_add_del_id:
  "wf r \<Longrightarrow> (\<And>k. k \<in> set ks \<Longrightarrow> lk r k i = None) \<Longrightarrow> lk (del ks i (add ks i c r)) = lk r"
  by (intro ext) (auto simp: lk_del lk_add wf_add)

end

end
