(* ===== verification/Topic.thy ===== *)
theory Topic
  imports RelIndex
begin

text \<open>
  The subscription registry, \<^verbatim>\<open>src/internal/customer/topic/topic.go\<close>: topic \<open>\<rightarrow>\<close> set of connections,
  sharded by topic name. A connection is passed as its id (\<^verbatim>\<open>conn.GetIdOnSafe()\<close>, the key of the inner
  map) and its pointer. The capacity estimates of \<^verbatim>\<open>make\<close> and the shard locks do not change what an
  operation returns and are not modelled; each operation is one atomic step of the gateway.
\<close>

section \<open>Operations\<close>

type_synonym topicCollect = "(string, (u64, cref) gomap) gomap shards"

definition hashTopic :: "string \<Rightarrow> nat" where
  "hashTopic topic = unat (fnv topic AND shardMask)"

definition Topic_init :: topicCollect where
  "Topic_init = (\<lambda>_. [])"

text \<open>The inner loop body of \<^verbatim>\<open>SetRelation\<close>, on the map of one shard.\<close>

definition topic_set1 :: "u64 \<Rightarrow> cref \<Rightarrow> string \<Rightarrow> (string, (u64, cref) gomap) gomap \<Rightarrow>
    (string, (u64, cref) gomap) gomap" where
  "topic_set1 i c topic d =
     (case map_of d topic of
        Some m \<Rightarrow> AList.update topic (AList.update i c m) d
      | None \<Rightarrow> AList.update topic (AList.update i c []) d)"

text \<open>A nil connection is \<open>None\<close>.\<close>

definition Topic_SetRelation :: "string list \<Rightarrow> (u64 \<times> cref) option \<Rightarrow> topicCollect \<Rightarrow> topicCollect" where
  "Topic_SetRelation topics conn r =
     (if topics = [] then r
      else case conn of
        None \<Rightarrow> r
      | Some (i, c) \<Rightarrow>
          fst (for_groups (group_by_shard hashTopic topics)
                 (\<lambda>tList (d, u). (fold (topic_set1 i c) tList d, u)) (r, ())))"

text \<open>The inner loop body of the two \<^verbatim>\<open>DelRelation\<close> methods.\<close>

definition topic_del1 :: "u64 \<Rightarrow> string \<Rightarrow> (string, (u64, cref) gomap) gomap \<Rightarrow>
    (string, (u64, cref) gomap) gomap" where
  "topic_del1 i topic d =
     (case map_of d topic of
        None \<Rightarrow> d
      | Some m \<Rightarrow>
          let m' = AList.delete i m
          in if length m' = 0 then AList.delete topic (AList.update topic m' d)
             else AList.update topic m' d)"

text \<open>The keys of the map argument, in the order \<^verbatim>\<open>range\<close> visits them; nil is \<open>[]\<close>.\<close>

definition Topic_DelRelationByMap :: "string list \<Rightarrow> u64 \<Rightarrow> topicCollect \<Rightarrow> topicCollect" where
  "Topic_DelRelationByMap topics i r =
     (if topics = [] then r
      else fst (for_groups (group_by_shard hashTopic topics)
                  (\<lambda>tList (d, u). (fold (topic_del1 i) tList d, u)) (r, ())))"

definition Topic_DelRelationBySlice :: "string list \<Rightarrow> u64 \<Rightarrow> topicCollect \<Rightarrow> topicCollect" where
  "Topic_DelRelationBySlice topics i r =
     (if topics = [] then r
      else fst (for_groups (group_by_shard hashTopic topics)
                  (\<lambda>tList (d, u). (fold (topic_del1 i) tList d, u)) (r, ())))"

text \<open>\<^verbatim>\<open>Del\<close> returns nil (here \<open>None\<close>) for an empty list, otherwise the removed inner maps.\<close>

definition topic_take1 :: "string \<Rightarrow> (string, 'm) gomap \<times> (string, 'm) gomap \<Rightarrow>
    (string, 'm) gomap \<times> (string, 'm) gomap" where
  "topic_take1 topic = (\<lambda>(d, ret).
     case map_of d topic of
       Some c \<Rightarrow> (AList.delete topic d, AList.update topic c ret)
     | None \<Rightarrow> (d, ret))"

definition Topic_Del :: "string list \<Rightarrow> topicCollect \<Rightarrow>
    (string, (u64, cref) gomap) gomap option \<times> topicCollect" where
  "Topic_Del topics r =
     (if topics = [] then (None, r)
      else let (r', ret) = for_groups (group_by_shard hashTopic topics) (fold topic_take1) (r, [])
           in (Some ret, r'))"

definition Topic_Len :: "topicCollect \<Rightarrow> nat" where
  "Topic_Len r = for_shards (\<lambda>d total. total + length d) r 0"

definition Topic_Get :: "topicCollect \<Rightarrow> string list" where
  "Topic_Get r = for_shards (\<lambda>d topics. fold (\<lambda>(topic, _) ts. ts @ [topic]) d topics) r []"

definition Topic_CountConn :: "topicCollect \<Rightarrow> (string, i32) gomap" where
  "Topic_CountConn r =
     for_shards (fold (\<lambda>(topic, c) ret. AList.update topic (of_nat (length c)) ret)) r []"

definition Topic_CountConnByTopic :: "string list \<Rightarrow> topicCollect \<Rightarrow> (string, i32) gomap option" where
  "Topic_CountConnByTopic topics r =
     (if topics = [] then None
      else Some (snd (for_groups (group_by_shard hashTopic topics)
        (\<lambda>tList (d, ret). (d, collect_found (\<lambda>c. of_nat (length c)) tList d ret)) (r, []))))"

text \<open>\<^verbatim>\<open>for _, conn := range c { connList = append(connList, conn) }\<close>.\<close>

definition conn_list :: "(u64, cref) gomap \<Rightarrow> cref list" where
  "conn_list c = fold (\<lambda>(_, conn) connList. connList @ [conn]) c []"

definition Topic_GetConnListByTopic :: "string \<Rightarrow> topicCollect \<Rightarrow> cref list option" where
  "Topic_GetConnListByTopic topic r =
     (if topic = '''' then None
      else case map_of (r (hashTopic topic)) topic of
             None \<Rightarrow> None
           | Some c \<Rightarrow> Some (conn_list c))"

definition Topic_GetConnListByTopics :: "string list \<Rightarrow> topicCollect \<Rightarrow> (string, cref list) gomap option" where
  "Topic_GetConnListByTopics topics r =
     (if topics = [] then None
      else Some (snd (for_groups (group_by_shard hashTopic topics)
        (\<lambda>tList (d, ret). (d, collect_found conn_list tList d ret)) (r, []))))"

definition Topic_GetConnList :: "topicCollect \<Rightarrow> (string, cref list) gomap" where
  "Topic_GetConnList r =
     for_shards (fold (\<lambda>(topic, c) ret. AList.update topic (conn_list c) ret)) r []"

section \<open>The store behind the registry\<close>

lemma hashTopic_shard_of: "hashTopic = shard_of"
  by (simp add: fun_eq_iff hashTopic_def shard_of_def)

interpretation topic_sh: sharded_str hashTopic
  by unfold_locales (simp add: hashTopic_shard_of shard_of_lt)

abbreviation (input) topic_at :: "topicCollect \<Rightarrow> string \<Rightarrow> (u64, cref) gomap option" where
  "topic_at \<equiv> sh_get hashTopic"

definition topic_wf :: "topicCollect \<Rightarrow> bool" where
  "topic_wf r \<longleftrightarrow> idx_wf hashTopic r \<and> topic_at r '''' = None"

definition set_conn :: "u64 \<Rightarrow> cref \<Rightarrow> (u64, cref) gomap option \<Rightarrow> (u64, cref) gomap option" where
  "set_conn i c x = Some (AList.update i c (case x of None \<Rightarrow> [] | Some m \<Rightarrow> m))"

definition del_conn :: "u64 \<Rightarrow> (u64, cref) gomap option \<Rightarrow> (u64, cref) gomap option" where
  "del_conn i x = (case x of None \<Rightarrow> None
     | Some m \<Rightarrow> if AList.delete i m = [] then None else Some (AList.delete i m))"

lemma set_conn_idem: "set_conn i c (set_conn i c x) = set_conn i c x"
  by (simp add: set_conn_def update_last)

lemma del_conn_idem: "del_conn i (del_conn i x) = del_conn i x"
  by (simp add: del_conn_def delete_idem split: option.splits)

interpretation topic_set: point_op hashTopic "topic_set1 i c" "set_conn i c" for i c
  by unfold_locales
    (auto simp: topic_set1_def set_conn_idem fun_eq_iff set_conn_def split: option.splits)

interpretation topic_del: point_op hashTopic "topic_del1 i" "del_conn i" for i
  by unfold_locales
    (auto simp: topic_del1_def del_conn_idem fun_eq_iff del_conn_def Let_def split: option.splits)

lemma conn_list_eq [simp]: "conn_list = map snd"
  by (simp add: fun_eq_iff conn_list_def fold_snoc_snd)

section \<open>What the operations do to the represented index\<close>

lemma SetRelation_at:
  "topic_at (Topic_SetRelation topics (Some (i, c)) r) t
   = (if t \<in> set topics \<and> t \<noteq> '''' then set_conn i c (topic_at r t) else topic_at r t)"
  by (simp add: Topic_SetRelation_def topic_set.loop_get [where u = "\<lambda>_ _ u. u"])

lemma SetRelation_sh_wf: "sh_wf hashTopic r \<Longrightarrow> sh_wf hashTopic (Topic_SetRelation topics conn r)"
  by (auto simp: Topic_SetRelation_def topic_set.loop_wf [where u = "\<lambda>_ _ u. u"] split: option.splits)

lemma DelRelation_eq: "Topic_DelRelationByMap = Topic_DelRelationBySlice"
  by (simp add: fun_eq_iff Topic_DelRelationByMap_def Topic_DelRelationBySlice_def)

lemma DelRelation_at:
  "topic_at (Topic_DelRelationBySlice topics i r) t
   = (if t \<in> set topics \<and> t \<noteq> '''' then del_conn i (topic_at r t) else topic_at r t)"
  by (simp add: Topic_DelRelationBySlice_def topic_del.loop_get [where u = "\<lambda>_ _ u. u"])

lemma DelRelation_sh_wf: "sh_wf hashTopic r \<Longrightarrow> sh_wf hashTopic (Topic_DelRelationBySlice topics i r)"
  by (auto simp: Topic_DelRelationBySlice_def topic_del.loop_wf [where u = "\<lambda>_ _ u. u"])

lemma set_conn_ok: "(\<And>m. x = Some m \<Longrightarrow> gm_ok m) \<Longrightarrow> set_conn i c x = Some m' \<Longrightarrow> gm_ok m' \<and> m' \<noteq> []"
  by (auto simp: set_conn_def update_nonempty split: option.splits)

lemma del_conn_ok: "(\<And>m. x = Some m \<Longrightarrow> gm_ok m) \<Longrightarrow> del_conn i x = Some m' \<Longrightarrow> gm_ok m' \<and> m' \<noteq> []"
  by (auto simp: del_conn_def split: option.splits if_splits)

lemma set_conn_bind: "Option.bind (set_conn i c x) (\<lambda>m. map_of m j)
    = (if j = i then Some c else Option.bind x (\<lambda>m. map_of m j))"
  by (cases x) (auto simp: set_conn_def)

lemma del_conn_bind: "Option.bind (del_conn i x) (\<lambda>m. map_of m j)
    = (if j = i then None else Option.bind x (\<lambda>m. map_of m j))"
proof (cases x)
  case (Some m)
  have "(if AList.delete i m = [] then None else map_of (AList.delete i m) j)
        = map_of (AList.delete i m) j"
    by (metis map_of.simps(1))
  then show ?thesis using Some by (auto simp: del_conn_def)
qed (simp add: del_conn_def)

lemma topic_wf_SetRelation:
  "topic_wf r \<Longrightarrow> topic_wf (Topic_SetRelation topics (Some (i, c)) r)"
  unfolding topic_wf_def idx_wf_def
  using set_conn_ok [of "topic_at r _" i c] by (auto simp: SetRelation_at SetRelation_sh_wf split: if_splits)

lemma topic_wf_DelRelation:
  "topic_wf r \<Longrightarrow> topic_wf (Topic_DelRelationBySlice topics i r)"
  unfolding topic_wf_def idx_wf_def
  using del_conn_ok [of "topic_at r _" i] by (auto simp: DelRelation_at DelRelation_sh_wf split: if_splits)

interpretation topic_ix: rel_index topic_wf "idx_get hashTopic"
    "\<lambda>ks i c. Topic_SetRelation ks (Some (i, c))" Topic_DelRelationBySlice "\<lambda>t. t \<noteq> ''''"
proof unfold_locales
  show "topic_wf (Topic_SetRelation ks (Some (i, c)) r)" if "topic_wf r" for r ks i c
    using that by (rule topic_wf_SetRelation)
  show "topic_wf (Topic_DelRelationBySlice ks i r)" if "topic_wf r" for r ks i
    using that by (rule topic_wf_DelRelation)
qed (simp_all add: idx_get_def SetRelation_at DelRelation_at set_conn_bind del_conn_bind)

text \<open>\<^verbatim>\<open>Del\<close>: a removed topic is gone from the registry and its connections are in the result.\<close>

lemma take1_fst: "fst (fold topic_take1 ts (d, ret)) = fold AList.delete ts d"
proof (induction ts arbitrary: d ret)
  case (Cons t ts)
  have "t \<notin> set (keys d) \<Longrightarrow> AList.delete t d = d" by (simp add: delete_id)
  with Cons show ?case by (auto simp: topic_take1_def map_of_eq_None_iff split: option.splits)
qed simp

lemma take1_snd:
  "map_of (snd (fold topic_take1 ts (d, ret))) t
   = (if t \<in> set ts \<and> map_of d t \<noteq> None then map_of d t else map_of ret t)"
  by (induction ts arbitrary: d ret) (auto simp: topic_take1_def split: option.splits)

lemma take1_ok: "gm_ok ret \<Longrightarrow> gm_ok (snd (fold topic_take1 ts (d, ret)))"
  by (induction ts arbitrary: d ret) (auto simp: topic_take1_def split: option.splits)

interpretation topic_rm: point_op hashTopic AList.delete "\<lambda>_. None"
  by unfold_locales (auto simp: fun_eq_iff)

abbreviation (input) take_loop where
  "take_loop topics r \<equiv> for_groups (group_by_shard hashTopic topics)
     (\<lambda>l (d, r). (fold AList.delete l d, snd (fold topic_take1 l (d, r)))) (r, [])"

lemma take1_loop: "for_groups (group_by_shard hashTopic topics) (fold topic_take1) (r, []) = take_loop topics r"
proof -
  have "fold topic_take1 = (\<lambda>l (d, r). (fold AList.delete l d, snd (fold topic_take1 l (d, r))))"
    by (intro ext) (auto simp: take1_fst intro: prod_eqI)
  then show ?thesis
    by (rule arg_cong [where f = "\<lambda>b. for_groups (group_by_shard hashTopic topics) b (r, [])"])
qed

lemma Topic_Del_unfold:
  "Topic_Del topics r = (if topics = [] then (None, r)
     else (Some (snd (take_loop topics r)), fst (take_loop topics r)))"
  by (simp only: Topic_Del_def take1_loop case_prod_unfold Let_def)

lemma Topic_Del_at:
  "topic_at (snd (Topic_Del topics r)) t
   = (if t \<in> set topics \<and> t \<noteq> '''' then None else topic_at r t)"
  unfolding Topic_Del_unfold
  using topic_rm.loop_get [of topics "\<lambda>l d r. snd (fold topic_take1 l (d, r))" r "[]" t] by auto

lemma Topic_Del_ret:
  assumes "topics \<noteq> []"
  shows "\<exists>ret. fst (Topic_Del topics r) = Some ret \<and> gm_ok ret \<and>
     map_of ret = (\<lambda>t. if t \<in> set topics \<and> t \<noteq> '''' then topic_at r t else None)"
proof -
  have id: "map_option (\<lambda>x. x) y = y" for y :: "(u64, cref) gomap option" by (cases y) auto
  have "map_of (snd (take_loop topics r)) t
        = (if t \<in> set topics \<and> t \<noteq> '''' then topic_at r t else None)" for t
    by (subst topic_sh.lookup_loop [where f = "\<lambda>x. x"]) (auto simp: take1_snd id)
  moreover have "gm_ok (snd (take_loop topics r))"
    by (rule topic_sh.lookup_loop_ok) (simp add: take1_ok)
  ultimately show ?thesis using assms by (auto simp: Topic_Del_unfold fun_eq_iff)
qed

lemma topic_wf_Del: "topic_wf r \<Longrightarrow> topic_wf (snd (Topic_Del topics r))"
proof -
  assume wf: "topic_wf r"
  then have "sh_wf hashTopic (snd (Topic_Del topics r))"
    unfolding Topic_Del_unfold
    using topic_rm.loop_wf [of r topics "\<lambda>l d r. snd (fold topic_take1 l (d, r))" "[]"]
    by (simp add: topic_wf_def idx_wf_def)
  with wf show ?thesis by (auto simp: topic_wf_def idx_wf_def Topic_Del_at split: if_splits)
qed

section \<open>What the queries report\<close>

lemma Topic_Len_eq: "Topic_Len r = length (sh_entries r)"
  by (simp add: Topic_Len_def for_shards_sum sh_entries_def)

lemma Topic_Get_eq: "Topic_Get r = keys (sh_entries r)"
  by (simp add: Topic_Get_def fold_snoc_fst for_shards_append sh_entries_def map_concat comp_def)

lemma Topic_CountConn_at:
  "topic_wf r \<Longrightarrow> map_of (Topic_CountConn r) t = map_option (\<lambda>c. of_nat (length c)) (topic_at r t)"
  by (simp add: Topic_CountConn_def topic_sh.visit_loop topic_wf_def idx_wf_def)

lemma Topic_GetConnList_at:
  "topic_wf r \<Longrightarrow> map_of (Topic_GetConnList r) t = map_option conn_list (topic_at r t)"
  by (simp add: Topic_GetConnList_def topic_sh.visit_loop topic_wf_def idx_wf_def del: conn_list_eq)

lemma Topic_CountConnByTopic_at:
  "topics \<noteq> [] \<Longrightarrow> \<exists>ret. Topic_CountConnByTopic topics r = Some ret \<and> gm_ok ret \<and>
     (\<forall>t. map_of ret t = (if t \<in> set topics \<and> t \<noteq> '''' then map_option (\<lambda>c. of_nat (length c)) (topic_at r t) else None))"
  by (auto simp: Topic_CountConnByTopic_def topic_sh.lookup_loop [where f = "\<lambda>c. of_nat (length c)"]
      map_of_collect_found intro!: topic_sh.lookup_loop_ok)

lemma Topic_GetConnListByTopics_at:
  "topics \<noteq> [] \<Longrightarrow> \<exists>ret. Topic_GetConnListByTopics topics r = Some ret \<and> gm_ok ret \<and>
     (\<forall>t. map_of ret t = (if t \<in> set topics \<and> t \<noteq> '''' then map_option conn_list (topic_at r t) else None))"
  by (auto simp: Topic_GetConnListByTopics_def topic_sh.lookup_loop [where f = "map snd"]
      map_of_collect_found intro!: topic_sh.lookup_loop_ok)

lemma Topic_GetConnListByTopic_at:
  "topic_wf r \<Longrightarrow> Topic_GetConnListByTopic t r = map_option (map snd) (topic_at r t)"
  by (auto simp: Topic_GetConnListByTopic_def sh_get_def topic_wf_def split: option.splits)

text \<open>The connections of a topic are exactly those the index relates to it.\<close>

lemma GetConnListByTopic_set:
  assumes "topic_wf r"
  shows "c \<in> set (case Topic_GetConnListByTopic t r of None \<Rightarrow> [] | Some l \<Rightarrow> l)
         \<longleftrightarrow> (\<exists>i. idx_get hashTopic r t i = Some c)"
proof (cases "topic_at r t")
  case (Some m)
  with assms have "gm_ok m" by (auto simp: topic_wf_def idx_wf_def)
  with Some show ?thesis
    by (force simp: Topic_GetConnListByTopic_at [OF assms] idx_get_def map_of_Some_in_set)
qed (simp add: Topic_GetConnListByTopic_at [OF assms] idx_get_def)

end
