(* ===== verification/Binder.thy ===== *)
theory Binder
  imports Topic
begin

text \<open>
  The customer-id registry, \<^verbatim>\<open>src/internal/customer/binder/binder.go\<close>: customer id \<open>\<rightarrow>\<close> set of
  connections, sharded by customer id. It offers the gateway the same contract \<open>rel_index\<close> as the
  topic registry, one name at a time.
\<close>

section \<open>Operations\<close>

type_synonym binderCollect = "(string, (u64, cref) gomap) gomap shards"

definition hashCustomerId :: "string \<Rightarrow> nat" where
  "hashCustomerId customerId = unat (fnv customerId AND shardMask)"

definition Binder_init :: binderCollect where
  "Binder_init = (\<lambda>_. [])"

text \<open>A map created for a new customer id is stored first and filled afterwards, as in the code.\<close>

definition Binder_SetRelation :: "string \<Rightarrow> u64 \<Rightarrow> cref \<Rightarrow> binderCollect \<Rightarrow> binderCollect" where
  "Binder_SetRelation customerId i conn r =
     (let idx = hashCustomerId customerId;
          d = r idx;
          d' = (case map_of d customerId of None \<Rightarrow> AList.update customerId [] d | Some _ \<Rightarrow> d);
          c = (case map_of d' customerId of None \<Rightarrow> [] | Some c \<Rightarrow> c)
      in r(idx := AList.update customerId (AList.update i conn c) d'))"

definition Binder_DelRelation :: "string \<Rightarrow> u64 \<Rightarrow> binderCollect \<Rightarrow> binderCollect" where
  "Binder_DelRelation customerId i r =
     (let idx = hashCustomerId customerId; d = r idx
      in case map_of d customerId of
           None \<Rightarrow> r
         | Some c \<Rightarrow>
             let c' = AList.delete i c; d' = AList.update customerId c' d
             in r(idx := (if length c' = 0 then AList.delete customerId d' else d')))"

definition Binder_Len :: "binderCollect \<Rightarrow> nat" where
  "Binder_Len r = for_shards (\<lambda>d total. total + length d) r 0"

text \<open>\<^verbatim>\<open>GetCustomerIds\<close> answers nil, here \<open>[]\<close>, when no customer id is bound.\<close>

definition Binder_GetCustomerIds :: "binderCollect \<Rightarrow> string list" where
  "Binder_GetCustomerIds r =
     (if Binder_Len r = 0 then []
      else for_shards (\<lambda>d ids. fold (\<lambda>(customerId, _) ids. ids @ [customerId]) d ids) r [])"

definition Binder_GetConnListByCustomerId :: "string \<Rightarrow> binderCollect \<Rightarrow> cref list option" where
  "Binder_GetConnListByCustomerId customerId r =
     (if customerId = '''' then None
      else case map_of (r (hashCustomerId customerId)) customerId of
             Some c \<Rightarrow> Some (conn_list c)
           | None \<Rightarrow> None)"

definition Binder_GetConnListByCustomerIds :: "string list \<Rightarrow> binderCollect \<Rightarrow> (string, cref list) gomap" where
  "Binder_GetConnListByCustomerIds customerIds r =
     snd (for_groups (group_by_shard hashCustomerId customerIds)
            (\<lambda>cList (d, ret). (d, collect_found conn_list cList d ret)) (r, []))"

section \<open>The registry as an index\<close>

interpretation binder_sh: sharded_str hashCustomerId
  by unfold_locales (simp add: hashCustomerId_def shard_of_lt [unfolded shard_of_def])

abbreviation (input) binder_at :: "binderCollect \<Rightarrow> string \<Rightarrow> (u64, cref) gomap option" where
  "binder_at \<equiv> sh_get hashCustomerId"

definition binder_wf :: "binderCollect \<Rightarrow> bool" where
  "binder_wf r \<longleftrightarrow> idx_wf hashCustomerId r"

lemma Binder_SetRelation_at:
  "binder_at (Binder_SetRelation x i c r) k = (if k = x then set_conn i c (binder_at r x) else binder_at r k)"
  by (auto simp: Binder_SetRelation_def Let_def sh_get_def set_conn_def split: option.splits)

lemma Binder_DelRelation_at:
  "binder_at (Binder_DelRelation x i r) k = (if k = x then del_conn i (binder_at r x) else binder_at r k)"
  by (auto simp: Binder_DelRelation_def Let_def sh_get_def del_conn_def split: option.splits)

lemma Binder_SetRelation_sh_wf: "sh_wf hashCustomerId r \<Longrightarrow> sh_wf hashCustomerId (Binder_SetRelation x i c r)"
  unfolding Binder_SetRelation_def Let_def
  by (rule sh_wf_upd) (auto simp: sh_wf_def split: option.splits)

lemma Binder_DelRelation_sh_wf: "sh_wf hashCustomerId r \<Longrightarrow> sh_wf hashCustomerId (Binder_DelRelation x i r)"
  unfolding Binder_DelRelation_def Let_def
  by (auto simp: sh_wf_def split: option.splits)

lemma binder_wf_SetRelation: "binder_wf r \<Longrightarrow> binder_wf (Binder_SetRelation x i c r)"
  unfolding binder_wf_def idx_wf_def
  using set_conn_ok [of "binder_at r _" i c]
  by (auto simp: Binder_SetRelation_at Binder_SetRelation_sh_wf split: if_splits)

lemma binder_wf_DelRelation: "binder_wf r \<Longrightarrow> binder_wf (Binder_DelRelation x i r)"
  unfolding binder_wf_def idx_wf_def
  using del_conn_ok [of "binder_at r _" i]
  by (auto simp: Binder_DelRelation_at Binder_DelRelation_sh_wf split: if_splits)

text \<open>
  Several names at a time: the contract \<open>rel_index\<close> is stated for lists of names, so that one set of
  lemmas serves both registries.
\<close>

definition binder_add :: "string list \<Rightarrow> u64 \<Rightarrow> cref \<Rightarrow> binderCollect \<Rightarrow> binderCollect" where
  "binder_add ks i c r = fold (\<lambda>k. Binder_SetRelation k i c) ks r"

definition binder_del :: "string list \<Rightarrow> u64 \<Rightarrow> binderCollect \<Rightarrow> binderCollect" where
  "binder_del ks i r = fold (\<lambda>k. Binder_DelRelation k i) ks r"

lemma binder_add_lk:
  "idx_get hashCustomerId (binder_add ks i c r) k j
   = (if k \<in> set ks \<and> j = i then Some c else idx_get hashCustomerId r k j)"
  unfolding binder_add_def
  by (induction ks arbitrary: r) (auto simp: idx_get_def Binder_SetRelation_at set_conn_bind)

lemma binder_del_lk:
  "idx_get hashCustomerId (binder_del ks i r) k j
   = (if k \<in> set ks \<and> j = i then None else idx_get hashCustomerId r k j)"
  unfolding binder_del_def
  by (induction ks arbitrary: r) (auto simp: idx_get_def Binder_DelRelation_at del_conn_bind)

interpretation binder_ix: rel_index binder_wf "idx_get hashCustomerId" binder_add binder_del "\<lambda>_. True"
proof unfold_locales
  show "binder_wf (binder_add ks i c r)" if "binder_wf r" for r ks i c
    using that unfolding binder_add_def by (induction ks arbitrary: r) (auto simp: binder_wf_SetRelation)
  show "binder_wf (binder_del ks i r)" if "binder_wf r" for r ks i
    using that unfolding binder_del_def by (induction ks arbitrary: r) (auto simp: binder_wf_DelRelation)
qed (simp_all add: binder_add_lk binder_del_lk)

lemma binder_add_one: "binder_add [k] i c = Binder_SetRelation k i c"
  by (simp add: fun_eq_iff binder_add_def)

lemma binder_del_one: "binder_del [k] i = Binder_DelRelation k i"
  by (simp add: fun_eq_iff binder_del_def)

lemmas binder_exact_set = binder_ix.exact_add [where ks = "[_]", unfolded binder_add_one]
lemmas binder_exact_del = binder_ix.exact_del [where ks = "[_]", unfolded binder_del_one]

section \<open>What the queries report\<close>

lemma Binder_Len_eq: "Binder_Len r = length (sh_entries r)"
  by (simp add: Binder_Len_def for_shards_sum sh_entries_def)

lemma Binder_GetCustomerIds_eq: "Binder_GetCustomerIds r = keys (sh_entries r)"
  by (simp add: Binder_GetCustomerIds_def Binder_Len_eq fold_snoc_fst for_shards_append sh_entries_def
      map_concat comp_def)

lemma Binder_GetConnListByCustomerIds_at:
  "map_of (Binder_GetConnListByCustomerIds xs r) x
   = (if x \<in> set xs \<and> x \<noteq> '''' then map_option (map snd) (binder_at r x) else None)"
  "gm_ok (Binder_GetConnListByCustomerIds xs r)"
  unfolding Binder_GetConnListByCustomerIds_def
  by (simp add: binder_sh.lookup_loop [where f = "map snd"] map_of_collect_found)
    (rule binder_sh.lookup_loop_ok, simp)

lemma Binder_GetConnListByCustomerId_at:
  "Binder_GetConnListByCustomerId x r = (if x = '''' then None else map_option (map snd) (binder_at r x))"
  by (simp add: Binder_GetConnListByCustomerId_def sh_get_def split: option.splits)

end
