(* ===== verification/ConnManager.thy ===== *)
theory ConnManager
  imports RelIndex
begin

text \<open>
  The connection registry, \<^verbatim>\<open>src/internal/customer/manager/manager.go\<close>: uniqId \<open>\<rightarrow>\<close> connection, with
  the number of connections in an atomic \<^verbatim>\<open>uint32\<close> beside the shards. The counter is kept at its width:
  \<^verbatim>\<open>Del\<close> adds \<^verbatim>\<open>^uint32(0)\<close>, which wraps around to a decrement.
\<close>

section \<open>Operations\<close>

record managerCollect =
  mshards :: "(string, cref) gomap shards"
  mlen :: u32

definition hashUniqId :: "string \<Rightarrow> nat" where
  "hashUniqId uniqId = unat (fnv uniqId AND shardMask)"

definition Manager_init :: managerCollect where
  "Manager_init = \<lparr>mshards = (\<lambda>_. []), mlen = 0\<rparr>"

definition Manager_Has :: "string \<Rightarrow> managerCollect \<Rightarrow> bool" where
  "Manager_Has uniqId r =
     (if uniqId = '''' then False else map_of (mshards r (hashUniqId uniqId)) uniqId \<noteq> None)"

definition Manager_Get :: "string \<Rightarrow> managerCollect \<Rightarrow> cref option" where
  "Manager_Get uniqId r =
     (if uniqId = '''' then None else map_of (mshards r (hashUniqId uniqId)) uniqId)"

definition Manager_Set :: "string \<Rightarrow> cref \<Rightarrow> managerCollect \<Rightarrow> managerCollect" where
  "Manager_Set uniqId conn r =
     (if uniqId = '''' then r
      else let idx = hashUniqId uniqId;
               exists = (map_of (mshards r idx) uniqId \<noteq> None);
               r' = r\<lparr>mshards := (mshards r)(idx := AList.update uniqId conn (mshards r idx))\<rparr>
           in if \<not> exists then r'\<lparr>mlen := mlen r' + 1\<rparr> else r')"

definition Manager_Del :: "string \<Rightarrow> managerCollect \<Rightarrow> managerCollect" where
  "Manager_Del uniqId r =
     (if uniqId = '''' then r
      else let idx = hashUniqId uniqId
           in if map_of (mshards r idx) uniqId \<noteq> None
              then r\<lparr>mshards := (mshards r)(idx := AList.delete uniqId (mshards r idx)),
                     mlen := mlen r + NOT 0\<rparr>
              else r)"

definition Manager_Len :: "managerCollect \<Rightarrow> nat" where
  "Manager_Len r = unat (mlen r)"

text \<open>\<^verbatim>\<open>GetConnections\<close> and \<^verbatim>\<open>GetUniqIds\<close> return nil when the counter is zero, without looking at the shards.\<close>

definition Manager_GetConnections :: "managerCollect \<Rightarrow> cref list option" where
  "Manager_GetConnections r =
     (if Manager_Len r = 0 then None
      else Some (for_shards (\<lambda>d acc. fold (\<lambda>(_, conn) acc. acc @ [conn]) d acc) (mshards r) []))"

definition Manager_GetUniqIds :: "managerCollect \<Rightarrow> string list option" where
  "Manager_GetUniqIds r =
     (if Manager_Len r = 0 then None
      else Some (for_shards (\<lambda>d acc. fold (\<lambda>(uniqId, _) acc. acc @ [uniqId]) d acc) (mshards r) []))"

section \<open>The registry as a map, and its counter\<close>

interpretation manager_sh: sharded_str hashUniqId
  by unfold_locales (simp add: hashUniqId_def shard_of_lt [unfolded shard_of_def])

definition manager_wf :: "managerCollect \<Rightarrow> bool" where
  "manager_wf r \<longleftrightarrow> sh_wf hashUniqId (mshards r) \<and> sh_get hashUniqId (mshards r) '''' = None \<and>
     mlen r = of_nat (card (dom (sh_get hashUniqId (mshards r))))"

lemma Manager_Get_at: "manager_wf r \<Longrightarrow> Manager_Get u r = sh_get hashUniqId (mshards r) u"
  by (auto simp: Manager_Get_def manager_wf_def sh_get_def)

lemma Manager_Has_Get: "Manager_Has u r \<longleftrightarrow> Manager_Get u r \<noteq> None"
  by (simp add: Manager_Has_def Manager_Get_def)

lemma Manager_Set_shards:
  "u \<noteq> '''' \<Longrightarrow> sh_get hashUniqId (mshards (Manager_Set u c r)) = (sh_get hashUniqId (mshards r))(u \<mapsto> c)"
  by (auto simp: Manager_Set_def Let_def sh_get_def fun_eq_iff)

lemma Manager_Del_shards:
  "u \<noteq> '''' \<Longrightarrow> sh_get hashUniqId (mshards (Manager_Del u r)) = (sh_get hashUniqId (mshards r))(u := None)"
  by (auto simp: Manager_Del_def Let_def sh_get_def fun_eq_iff)

lemma Manager_Set_sh_wf: "sh_wf hashUniqId (mshards r) \<Longrightarrow> sh_wf hashUniqId (mshards (Manager_Set u c r))"
  by (auto simp: Manager_Set_def Let_def sh_wf_def)

lemma Manager_Del_sh_wf: "sh_wf hashUniqId (mshards r) \<Longrightarrow> sh_wf hashUniqId (mshards (Manager_Del u r))"
  by (auto simp: Manager_Del_def Let_def sh_wf_def)

lemma Manager_Set_len:
  "mlen (Manager_Set u c r) = mlen r + (if u \<noteq> '''' \<and> sh_get hashUniqId (mshards r) u = None then 1 else 0)"
  by (simp add: Manager_Set_def Let_def sh_get_def)

lemma Manager_Del_len:
  "mlen (Manager_Del u r) = mlen r - (if u \<noteq> '''' \<and> sh_get hashUniqId (mshards r) u \<noteq> None then 1 else 0)"
  by (simp add: Manager_Del_def Let_def sh_get_def)

lemma manager_wf_init: "manager_wf Manager_init"
  by (simp add: manager_wf_def Manager_init_def)

lemma manager_wf_Set: "manager_wf r \<Longrightarrow> manager_wf (Manager_Set u c r)"
proof (cases "u = ''''")
  case False
  assume wf: "manager_wf r"
  let ?m = "sh_get hashUniqId (mshards r)"
  have fin: "finite (dom ?m)" using wf by (simp add: manager_sh.finite_sh_get manager_wf_def)
  have "of_nat (card (dom (?m(u \<mapsto> c)))) = (of_nat (card (dom ?m)) + (if ?m u = None then 1 else 0) :: u32)"
    using fin by (simp add: card_insert_if domIff insert_absorb)
  with wf False show ?thesis
    by (simp add: manager_wf_def Manager_Set_shards Manager_Set_sh_wf Manager_Set_len)
qed (simp add: Manager_Set_def)

lemma manager_wf_Del: "manager_wf r \<Longrightarrow> manager_wf (Manager_Del u r)"
proof (cases "u = '''' \<or> sh_get hashUniqId (mshards r) u = None")
  case False
  assume wf: "manager_wf r"
  let ?m = "sh_get hashUniqId (mshards r)"
  have fin: "finite (dom ?m)" using wf by (simp add: manager_sh.finite_sh_get manager_wf_def)
  have "u \<in> dom ?m" using False by auto
  then have "card (dom ?m) = Suc (card (dom (?m(u := None))))"
    using card.remove [OF fin, of u] by simp
  with wf False show ?thesis
    by (simp add: manager_wf_def Manager_Del_shards Manager_Del_sh_wf Manager_Del_len)
qed (auto simp: Manager_Del_def sh_get_def Let_def)

lemma Manager_Get_Set:
  "manager_wf r \<Longrightarrow> Manager_Get v (Manager_Set u c r)
     = (if v = u \<and> u \<noteq> '''' then Some c else Manager_Get v r)"
  by (cases "u = ''''") (auto simp: Manager_Get_at manager_wf_Set Manager_Set_shards, simp add: Manager_Set_def)

lemma Manager_Get_Del:
  "manager_wf r \<Longrightarrow> Manager_Get v (Manager_Del u r) = (if v = u then None else Manager_Get v r)"
  by (cases "u = ''''")
    (auto simp: Manager_Get_at manager_wf_Del Manager_Del_shards, simp_all add: Manager_Del_def manager_wf_def)

lemma manager_entries: "manager_wf r \<Longrightarrow> (u, c) \<in> set (sh_entries (mshards r)) \<longleftrightarrow> Manager_Get u r = Some c"
  by (simp add: manager_sh.in_entries manager_wf_def Manager_Get_at)

lemma Manager_GetConnections_eq:
  "Manager_GetConnections r = (if mlen r = 0 then None else Some (map snd (sh_entries (mshards r))))"
  by (simp add: Manager_GetConnections_def Manager_Len_def fold_snoc_snd for_shards_append
      sh_entries_def map_concat comp_def unat_eq_zero)

lemma Manager_GetUniqIds_eq:
  "Manager_GetUniqIds r = (if mlen r = 0 then None else Some (keys (sh_entries (mshards r))))"
  by (simp add: Manager_GetUniqIds_def Manager_Len_def fold_snoc_fst for_shards_append
      sh_entries_def map_concat comp_def unat_eq_zero)

end
