(* ===== verification/ConnInfo.thy ===== *)
theory ConnInfo
  imports Prelude
begin

text \<open>
  The per-connection data of \<^verbatim>\<open>src/internal/wsServer/info.go\<close>: identity, session, customer id,
  subscribed topics, the fixed-window rate limiter and the time of last activity. The lock methods
  are not modelled: an operation of the model is the critical section the code runs under the lock.
  The clock (\<^verbatim>\<open>time.Now().Unix()\<close>) is an argument. Times and the limiter's counters stay far
  from the bounds of their types and are \<open>int\<close>; the 32-bit time of last activity is kept at its width.
\<close>

section \<open>Configuration used by connections\<close>

record limit_cfg =
  LimitWindowSizeSeconds :: int
  LimitWindowMaxRequests :: int
  LimitZeroWindowMaxRequests :: int

section \<open>State\<close>

text \<open>\<open>topics = None\<close> is Go's nil map.\<close>

record info =
  iid :: u64
  limitWindowStart :: int
  uniqId :: string
  customerId :: string
  session :: string
  topics :: "string list option"
  limitWindowRequests :: int
  lastActiveTime :: u32

text \<open>\<^verbatim>\<open>newInfo\<close>, with the identifiers \<^verbatim>\<open>uniqIdGen.New()\<close> returned.\<close>

definition newInfo :: "limit_cfg \<Rightarrow> string \<Rightarrow> u64 \<Rightarrow> int \<Rightarrow> info" where
  "newInfo cfg uid i now =
     \<lparr>iid = i, limitWindowStart = 0, uniqId = uid, customerId = '''', session = '''', topics = None,
      limitWindowRequests = 0 - LimitZeroWindowMaxRequests cfg, lastActiveTime = of_int now\<rparr>"

section \<open>Operations\<close>

definition UpdateLastActiveTimeOnSafe :: "int \<Rightarrow> info \<Rightarrow> info" where
  "UpdateLastActiveTimeOnSafe now r = r\<lparr>lastActiveTime := of_int now\<rparr>"

definition Allow :: "limit_cfg \<Rightarrow> int \<Rightarrow> info \<Rightarrow> bool \<times> info" where
  "Allow cfg now r =
     (if limitWindowRequests r < 0
      then (True, r\<lparr>limitWindowRequests := limitWindowRequests r + 1\<rparr>)
      else let r = (if now - limitWindowStart r > LimitWindowSizeSeconds cfg
                    then r\<lparr>limitWindowStart := now, limitWindowRequests := 0\<rparr> else r)
           in if limitWindowRequests r < LimitWindowMaxRequests cfg
              then (True, r\<lparr>limitWindowRequests := limitWindowRequests r + 1\<rparr>)
              else (False, r))"

definition getTopics :: "info \<Rightarrow> string list" where
  "getTopics r = (case topics r of None \<Rightarrow> [] | Some ts \<Rightarrow> ts)"

definition SnapshotOnSafe :: "info \<Rightarrow> string \<times> string \<times> string \<times> string list" where
  "SnapshotOnSafe r = (uniqId r, customerId r, session r, getTopics r)"

definition IsLoginOnSafe :: "info \<Rightarrow> bool" where
  "IsLoginOnSafe r \<longleftrightarrow> session r \<noteq> '''' \<or> customerId r \<noteq> ''''"

text \<open>The request flags and the answer of the two \<^verbatim>\<open>GetConnInfo\<close> methods.\<close>

record ConnInfoReq =
  ReqSession :: bool
  ReqCustomerId :: bool
  ReqUniqId :: bool
  ReqTopic :: bool

record ConnInfoRespItem =
  respSession :: string
  respCustomerId :: string
  respUniqId :: string
  respTopics :: "string list"

definition emptyItem :: ConnInfoRespItem where
  "emptyItem = \<lparr>respSession = '''', respCustomerId = '''', respUniqId = '''', respTopics = []\<rparr>"

definition GetConnInfoOnSafe :: "ConnInfoReq \<Rightarrow> info \<Rightarrow> ConnInfoRespItem \<Rightarrow> ConnInfoRespItem" where
  "GetConnInfoOnSafe req r item =
     (let item = (if ReqSession req then item\<lparr>respSession := session r\<rparr> else item);
          item = (if ReqCustomerId req then item\<lparr>respCustomerId := customerId r\<rparr> else item)
      in if ReqTopic req \<and> length (getTopics r) > 0 then item\<lparr>respTopics := getTopics r\<rparr> else item)"

definition GetConnInfoByCustomerIdOnSafe :: "ConnInfoReq \<Rightarrow> info \<Rightarrow> ConnInfoRespItem \<Rightarrow> ConnInfoRespItem" where
  "GetConnInfoByCustomerIdOnSafe req r item =
     (let item = (if ReqSession req then item\<lparr>respSession := session r\<rparr> else item);
          item = (if ReqUniqId req then item\<lparr>respUniqId := uniqId r\<rparr> else item)
      in if ReqTopic req \<and> length (getTopics r) > 0 then item\<lparr>respTopics := getTopics r\<rparr> else item)"

definition SetCustomerId :: "string \<Rightarrow> info \<Rightarrow> info" where
  "SetCustomerId x r = r\<lparr>customerId := x\<rparr>"

definition SetSession :: "string \<Rightarrow> info \<Rightarrow> info" where
  "SetSession x r = r\<lparr>session := x\<rparr>"

definition PullTopics :: "info \<Rightarrow> string list option \<times> info" where
  "PullTopics r = (topics r, r\<lparr>topics := None\<rparr>)"

definition SubscribeTopics :: "string list \<Rightarrow> info \<Rightarrow> info" where
  "SubscribeTopics ts r =
     (let m = (case topics r of None \<Rightarrow> [] | Some m \<Rightarrow> m)
      in r\<lparr>topics := Some (fold (\<lambda>t m. if t = '''' then m
                                       else if t \<in> set m then m else m @ [t]) ts m)\<rparr>)"

text \<open>Deleting from a nil map does nothing.\<close>

definition UnsubscribeTopics :: "string list \<Rightarrow> info \<Rightarrow> info" where
  "UnsubscribeTopics ts r = r\<lparr>topics := map_option (\<lambda>m. fold removeAll ts m) (topics r)\<rparr>"

definition UnsubscribeTopicOnSafe :: "string \<Rightarrow> info \<Rightarrow> bool \<times> info" where
  "UnsubscribeTopicOnSafe t r =
     (if t \<in> set (getTopics r) then (True, r\<lparr>topics := map_option (removeAll t) (topics r)\<rparr>)
      else (False, r))"

section \<open>Topics as a set\<close>

abbreviation topicSet :: "info \<Rightarrow> string set" where
  "topicSet r \<equiv> set (getTopics r)"

text \<open>Shape of the topic map: no duplicate and no empty topic.\<close>

definition info_wf :: "info \<Rightarrow> bool" where
  "info_wf r \<longleftrightarrow> distinct (getTopics r) \<and> '''' \<notin> topicSet r"

lemma getTopics_simps [simp]:
  "getTopics (r\<lparr>topics := None\<rparr>) = []"
  "getTopics (r\<lparr>topics := Some ts\<rparr>) = ts"
  "getTopics (SetCustomerId x r) = getTopics r"
  "getTopics (SetSession x r) = getTopics r"
  "getTopics (UpdateLastActiveTimeOnSafe now r) = getTopics r"
  by (simp_all add: getTopics_def SetCustomerId_def SetSession_def UpdateLastActiveTimeOnSafe_def)

lemma subscribe_fold:
  "set (fold (\<lambda>t m. if t = '''' then m else if t \<in> set m then m else m @ [t]) ts m)
   = set m \<union> {t \<in> set ts. t \<noteq> ''''}"
  by (induction ts arbitrary: m) auto

lemma subscribe_fold_distinct:
  "distinct m \<Longrightarrow> distinct (fold (\<lambda>t m. if t = '''' then m else if t \<in> set m then m else m @ [t]) ts m)"
  by (induction ts arbitrary: m) auto

lemma topicSet_Subscribe [simp]: "topicSet (SubscribeTopics ts r) = topicSet r \<union> {t \<in> set ts. t \<noteq> ''''}"
  by (simp add: SubscribeTopics_def Let_def subscribe_fold) (simp add: getTopics_def split: option.splits)

lemma info_wf_Subscribe: "info_wf r \<Longrightarrow> info_wf (SubscribeTopics ts r)"
  unfolding info_wf_def topicSet_Subscribe
  by (auto simp: SubscribeTopics_def Let_def getTopics_def subscribe_fold_distinct split: option.splits)

lemma set_fold_removeAll: "set (fold removeAll ts m) = set m - set ts"
  by (induction ts arbitrary: m) auto

lemma distinct_fold_removeAll: "distinct m \<Longrightarrow> distinct (fold removeAll ts m)"
  by (induction ts arbitrary: m) (auto simp: distinct_removeAll)

lemma topicSet_Unsubscribe [simp]: "topicSet (UnsubscribeTopics ts r) = topicSet r - set ts"
  by (auto simp: UnsubscribeTopics_def getTopics_def set_fold_removeAll split: option.splits)

lemma info_wf_Unsubscribe: "info_wf r \<Longrightarrow> info_wf (UnsubscribeTopics ts r)"
  unfolding info_wf_def topicSet_Unsubscribe
  by (auto simp: UnsubscribeTopics_def getTopics_def distinct_fold_removeAll split: option.splits)

lemma topicSet_UnsubscribeTopic [simp]: "topicSet (snd (UnsubscribeTopicOnSafe t r)) = topicSet r - {t}"
  by (cases "topics r") (auto simp: UnsubscribeTopicOnSafe_def getTopics_def)

lemma info_wf_UnsubscribeTopic: "info_wf r \<Longrightarrow> info_wf (snd (UnsubscribeTopicOnSafe t r))"
  unfolding info_wf_def topicSet_UnsubscribeTopic
  by (auto simp: UnsubscribeTopicOnSafe_def getTopics_def distinct_removeAll split: option.splits)

lemma topicSet_PullTopics [simp]: "topicSet (snd (PullTopics r)) = {}"
  by (simp add: PullTopics_def)

lemma info_wf_simple:
  "info_wf (SetCustomerId x r) = info_wf r" "info_wf (SetSession x r) = info_wf r"
  "info_wf (UpdateLastActiveTimeOnSafe now r) = info_wf r" "info_wf (snd (PullTopics r))"
  by (simp_all add: info_wf_def PullTopics_def)

text \<open>What the operations leave alone.\<close>

lemma info_frames [simp]:
  "iid (SubscribeTopics ts r) = iid r" "uniqId (SubscribeTopics ts r) = uniqId r"
  "customerId (SubscribeTopics ts r) = customerId r" "session (SubscribeTopics ts r) = session r"
  "iid (UnsubscribeTopics ts r) = iid r" "uniqId (UnsubscribeTopics ts r) = uniqId r"
  "customerId (UnsubscribeTopics ts r) = customerId r" "session (UnsubscribeTopics ts r) = session r"
  "iid (snd (UnsubscribeTopicOnSafe t r)) = iid r" "uniqId (snd (UnsubscribeTopicOnSafe t r)) = uniqId r"
  "customerId (snd (UnsubscribeTopicOnSafe t r)) = customerId r"
  "iid (snd (PullTopics r)) = iid r" "uniqId (snd (PullTopics r)) = uniqId r"
  "customerId (snd (PullTopics r)) = customerId r" "session (snd (PullTopics r)) = session r"
  "iid (SetCustomerId x r) = iid r" "uniqId (SetCustomerId x r) = uniqId r"
  "customerId (SetCustomerId x r) = x" "session (SetCustomerId x r) = session r"
  "iid (SetSession x r) = iid r" "uniqId (SetSession x r) = uniqId r"
  "customerId (SetSession x r) = customerId r" "session (SetSession x r) = x"
  "iid (UpdateLastActiveTimeOnSafe n r) = iid r" "uniqId (UpdateLastActiveTimeOnSafe n r) = uniqId r"
  "customerId (UpdateLastActiveTimeOnSafe n r) = customerId r"
  by (simp_all add: SubscribeTopics_def UnsubscribeTopics_def UnsubscribeTopicOnSafe_def PullTopics_def
      SetCustomerId_def SetSession_def UpdateLastActiveTimeOnSafe_def Let_def)

lemma Allow_frames [simp]:
  "iid (snd (Allow cfg now r)) = iid r" "uniqId (snd (Allow cfg now r)) = uniqId r"
  "customerId (snd (Allow cfg now r)) = customerId r" "session (snd (Allow cfg now r)) = session r"
  "getTopics (snd (Allow cfg now r)) = getTopics r"
  by (simp_all add: Allow_def Let_def getTopics_def)

section \<open>The fixed-window rate limiter\<close>

text \<open>A connection's sequence of \<^verbatim>\<open>Allow\<close> calls at the given times, counting the accepted ones.\<close>

fun allowed :: "limit_cfg \<Rightarrow> int list \<Rightarrow> info \<Rightarrow> nat" where
  "allowed cfg [] r = 0"
| "allowed cfg (now # ts) r =
     (if fst (Allow cfg now r) then Suc (allowed cfg ts (snd (Allow cfg now r)))
      else allowed cfg ts (snd (Allow cfg now r)))"

text \<open>
  The time of the window in force and the number of requests it has used bound what can still be
  accepted up to time \<open>b\<close>: what the window has left, and \<open>M\<close> more for every further window, which
  starts at least \<open>size + 1\<close> seconds later. The clock need not be monotone.
\<close>

lemma window_bound:
  fixes b s size now :: int
  assumes "0 \<le> size" "0 \<le> M" "s + (size + 1) \<le> now"
  shows "M + M * ((b - now) div (size + 1)) \<le> M * ((b - s) div (size + 1))"
proof -
  have "(b - now) div (size + 1) \<le> (b - s - (size + 1)) div (size + 1)"
    using assms by (intro zdiv_mono1) auto
  also have "\<dots> = (b - s) div (size + 1) - 1"
    using assms(1) div_add_self2 [of "size + 1" "b - s - (size + 1)"] by simp
  finally have "1 + (b - now) div (size + 1) \<le> (b - s) div (size + 1)" by simp
  then have "M * (1 + (b - now) div (size + 1)) \<le> M * ((b - s) div (size + 1))"
    using assms(2) by (rule mult_left_mono)
  then show ?thesis by (simp add: distrib_left)
qed

lemma Allow_cases:
  assumes "0 \<le> limitWindowRequests r"
  obtains (Open) "now - limitWindowStart r > LimitWindowSizeSeconds cfg" "0 < LimitWindowMaxRequests cfg"
      "Allow cfg now r = (True, r\<lparr>limitWindowStart := now, limitWindowRequests := 1\<rparr>)"
    | (Shut) "now - limitWindowStart r > LimitWindowSizeSeconds cfg" "LimitWindowMaxRequests cfg \<le> 0"
      "Allow cfg now r = (False, r\<lparr>limitWindowStart := now, limitWindowRequests := 0\<rparr>)"
    | (Count) "now - limitWindowStart r \<le> LimitWindowSizeSeconds cfg" "limitWindowRequests r < LimitWindowMaxRequests cfg"
      "Allow cfg now r = (True, r\<lparr>limitWindowRequests := limitWindowRequests r + 1\<rparr>)"
    | (Deny) "now - limitWindowStart r \<le> LimitWindowSizeSeconds cfg"
      "LimitWindowMaxRequests cfg \<le> limitWindowRequests r" "Allow cfg now r = (False, r)"
proof -
  consider "now - limitWindowStart r > LimitWindowSizeSeconds cfg" "0 < LimitWindowMaxRequests cfg"
    | "now - limitWindowStart r > LimitWindowSizeSeconds cfg" "LimitWindowMaxRequests cfg \<le> 0"
    | "now - limitWindowStart r \<le> LimitWindowSizeSeconds cfg" "limitWindowRequests r < LimitWindowMaxRequests cfg"
    | "now - limitWindowStart r \<le> LimitWindowSizeSeconds cfg" "LimitWindowMaxRequests cfg \<le> limitWindowRequests r"
    by linarith
  then show thesis
    using assms by cases (rule Open Shut Count Deny; simp add: Allow_def)+
qed

lemma allowed_window:
  fixes b :: int
  assumes "0 \<le> LimitWindowSizeSeconds cfg" "0 \<le> LimitWindowMaxRequests cfg"
    and "0 \<le> limitWindowRequests r" "limitWindowStart r \<le> b" "\<forall>t \<in> set ts. t \<le> b"
  shows "int (allowed cfg ts r) \<le> max 0 (LimitWindowMaxRequests cfg - limitWindowRequests r)
     + LimitWindowMaxRequests cfg * ((b - limitWindowStart r) div (LimitWindowSizeSeconds cfg + 1))"
  using assms(3-)
proof (induction ts arbitrary: r)
  case Nil
  have "0 \<le> (b - limitWindowStart r) div (LimitWindowSizeSeconds cfg + 1)"
    using Nil assms(1) by (simp add: pos_imp_zdiv_nonneg_iff)
  then show ?case using assms(2) by simp
next
  case (Cons now ts)
  note wb = window_bound [OF assms(1,2), of "limitWindowStart r" now b]
  from Cons.prems(1) show ?case
  proof (cases rule: Allow_cases [where cfg = cfg and now = now])
    case Open
    then show ?thesis
      using Cons.IH [of "r\<lparr>limitWindowStart := now, limitWindowRequests := 1\<rparr>"] Cons.prems wb by auto
  next
    case Shut
    then have "LimitWindowMaxRequests cfg = 0" using assms(2) by simp
    then show ?thesis
      using Shut Cons.IH [of "r\<lparr>limitWindowStart := now, limitWindowRequests := 0\<rparr>"] Cons.prems by auto
  next
    case Count
    then show ?thesis
      using Cons.IH [of "r\<lparr>limitWindowRequests := limitWindowRequests r + 1\<rparr>"] Cons.prems by auto
  next
    case Deny
    then show ?thesis using Cons.IH [of r] Cons.prems by auto
  qed
qed

text \<open>The first window that a fresh counter opens starts no earlier than the first request.\<close>

lemma allowed_from_zero:
  fixes a b :: int
  assumes "0 \<le> LimitWindowSizeSeconds cfg" "0 \<le> LimitWindowMaxRequests cfg"
    and "limitWindowStart r = 0" "limitWindowRequests r = 0" "LimitWindowSizeSeconds cfg < a"
    and "\<forall>t \<in> set ts. a \<le> t \<and> t \<le> b"
  shows "int (allowed cfg ts r) \<le> LimitWindowMaxRequests cfg
     * (1 + (b - a) div (LimitWindowSizeSeconds cfg + 1)) \<or> ts = []"
proof (cases ts)
  case (Cons now ts')
  let ?M = "LimitWindowMaxRequests cfg" and ?w = "LimitWindowSizeSeconds cfg + 1"
  have now: "a \<le> now" "now \<le> b" using assms(6) Cons by auto
  have le: "?M * ((b - now) div ?w) \<le> ?M * ((b - a) div ?w)"
    using assms(1,2) now by (intro mult_left_mono zdiv_mono1) auto
  have "0 \<le> limitWindowRequests r" using assms(4) by simp
  then have "int (allowed cfg ts r) \<le> ?M + ?M * ((b - now) div ?w)"
  proof (cases rule: Allow_cases [where cfg = cfg and now = now])
    case Open
    then show ?thesis
      using Cons assms allowed_window [of cfg "r\<lparr>limitWindowStart := now, limitWindowRequests := 1\<rparr>" b ts'] now
      by auto
  next
    case Shut
    then show ?thesis
      using Cons assms allowed_window [of cfg "r\<lparr>limitWindowStart := now, limitWindowRequests := 0\<rparr>" b ts'] now
      by auto
  qed (use assms now in auto)
  with le show ?thesis by (simp add: distrib_left)
qed simp

lemma Allow_free:
  "limitWindowRequests r < 0 \<Longrightarrow>
   Allow cfg now r = (True, r\<lparr>limitWindowRequests := limitWindowRequests r + 1\<rparr>)"
  by (simp add: Allow_def)

lemma allowed_free:
  fixes a b :: int
  assumes "0 \<le> LimitWindowSizeSeconds cfg" "0 \<le> LimitWindowMaxRequests cfg"
    and "limitWindowStart r = 0" "limitWindowRequests r \<le> 0" "LimitWindowSizeSeconds cfg < a" "a \<le> b"
    and "\<forall>t \<in> set ts. a \<le> t \<and> t \<le> b"
  shows "int (allowed cfg ts r) \<le> - limitWindowRequests r + LimitWindowMaxRequests cfg
     * (1 + (b - a) div (LimitWindowSizeSeconds cfg + 1))"
  using assms(3,4,7)
proof (induction ts arbitrary: r)
  case Nil
  have "0 \<le> (b - a) div (LimitWindowSizeSeconds cfg + 1)"
    using assms by (simp add: pos_imp_zdiv_nonneg_iff)
  then have "0 \<le> LimitWindowMaxRequests cfg * (1 + (b - a) div (LimitWindowSizeSeconds cfg + 1))"
    using assms(2) by simp
  then show ?case using Nil by simp
next
  case (Cons now ts)
  show ?case
  proof (cases "limitWindowRequests r = 0")
    case True
    then show ?thesis using allowed_from_zero [OF assms(1,2) Cons.prems(1) True assms(5) Cons.prems(3)] by simp
  next
    case False
    then show ?thesis
      using Cons.IH [of "r\<lparr>limitWindowRequests := limitWindowRequests r + 1\<rparr>"] Cons.prems
      by (simp add: Allow_free)
  qed
qed

text \<open>
  C36. Rate limit of a connection: however the requests are spread between times \<open>a\<close> and \<open>b\<close> and whatever the order in which the
  clock shows them, a new connection gets at most its free requests and \<open>LimitWindowMaxRequests\<close> more
  for every window that fits in between.
\<close>

theorem rate_limit_bound:
  assumes "0 \<le> LimitWindowSizeSeconds cfg" "0 \<le> LimitWindowMaxRequests cfg" "0 \<le> LimitZeroWindowMaxRequests cfg"
    and "LimitWindowSizeSeconds cfg < a" "a \<le> b" "\<forall>t \<in> set ts. a \<le> t \<and> t \<le> b"
  shows "int (allowed cfg ts (newInfo cfg uid i now)) \<le> LimitZeroWindowMaxRequests cfg +
     LimitWindowMaxRequests cfg * (1 + (b - a) div (LimitWindowSizeSeconds cfg + 1))"
  using allowed_free [OF assms(1,2) _ _ assms(4-6), of "newInfo cfg uid i now"] assms(3) by (simp add: newInfo_def)

theorem rate_limit_bound_witness:
  "int (allowed \<lparr>LimitWindowSizeSeconds = 1, LimitWindowMaxRequests = 2, LimitZeroWindowMaxRequests = 1\<rparr> [10, 10, 10, 10, 11]
     (newInfo \<lparr>LimitWindowSizeSeconds = 1, LimitWindowMaxRequests = 2, LimitZeroWindowMaxRequests = 1\<rparr> ''c'' 1 10)) \<le> 3"
  using rate_limit_bound [of "\<lparr>LimitWindowSizeSeconds = 1, LimitWindowMaxRequests = 2, LimitZeroWindowMaxRequests = 1\<rparr>" 10 11
      "[10, 10, 10, 10, 11]" "''c''" 1 10] by simp

end
