(* ===== verification/Codec.thy ===== *)
theory Codec
  imports Prelude
begin

text \<open>
  The websocket frame decoder, \<^verbatim>\<open>src/internal/wsServer/codec.go\<close> and \<^verbatim>\<open>messagePayload.go\<close>. The inbound
  buffer of the connection (\<^verbatim>\<open>c.Peek(-1)\<close>, \<^verbatim>\<open>c.Discard\<close>) is a byte list passed in and returned; the
  permessage-deflate decompressor of \<^verbatim>\<open>gobwas/ws/wsflate\<close> is a parameter. Frame lengths keep their 64
  bits, because the bounds check of the decoder adds to them; a slice expression out of bounds is the
  result \<open>DPanic\<close>. The buffer pools behind fragments do not change the bytes and are not modelled.
\<close>

section \<open>Opcodes and status codes (gobwas/ws)\<close>

type_synonym opcode = u8
type_synonym status = u16

definition OpContinuation :: opcode where "OpContinuation = 0"
definition OpText :: opcode where "OpText = 1"
definition OpBinary :: opcode where "OpBinary = 2"
definition OpClose :: opcode where "OpClose = 8"
definition OpPing :: opcode where "OpPing = 9"
definition OpPong :: opcode where "OpPong = 10"

definition noOp :: opcode where "noOp = 255"

lemmas op_defs = OpContinuation_def OpText_def OpBinary_def OpClose_def OpPing_def OpPong_def noOp_def

definition IsControl :: "opcode \<Rightarrow> bool" where "IsControl c \<longleftrightarrow> c AND 8 \<noteq> 0"
definition IsData :: "opcode \<Rightarrow> bool" where "IsData c \<longleftrightarrow> c AND 8 = 0"
definition IsReserved :: "opcode \<Rightarrow> bool" where
  "IsReserved c \<longleftrightarrow> (3 \<le> c \<and> c \<le> 7) \<or> (11 \<le> c \<and> c \<le> 15)"

definition StatusProtocolError :: status where "StatusProtocolError = 1002"
definition StatusUnsupportedData :: status where "StatusUnsupportedData = 1003"
definition StatusInvalidFramePayloadData :: status where "StatusInvalidFramePayloadData = 1007"

section \<open>Message payloads\<close>

text \<open>\<^verbatim>\<open>ws.Cipher(payload, mask, 0)\<close>.\<close>

definition Cipher :: "bytes \<Rightarrow> bytes \<Rightarrow> bytes" where
  "Cipher maskKey bs = map (\<lambda>i. bs ! i XOR maskKey ! (i mod 4)) [0..<length bs]"

type_synonym messagePayload = "bytes list"

definition newMessagePayload :: messagePayload where "newMessagePayload = []"

definition mp_reset :: "messagePayload \<Rightarrow> messagePayload" where "mp_reset r = []"

definition mp_append :: "bytes \<Rightarrow> bytes \<Rightarrow> messagePayload \<Rightarrow> messagePayload" where
  "mp_append fragment maskKey r = r @ [Cipher maskKey fragment]"

definition mp_merge :: "messagePayload \<Rightarrow> bytes" where
  "mp_merge r = (case r of [] \<Rightarrow> [] | [f] \<Rightarrow> f | _ \<Rightarrow> fold (\<lambda>frag ret. ret @ frag) r [])"

section \<open>The codec\<close>

record codec =
  preMessagePayload :: "messagePayload option"
  currMessagePayload :: messagePayload
  closed :: bool
  cflags :: u8
  preMessageOpCode :: opcode
  currMessageOpCode :: opcode
  messageRsv :: u8

definition newCodec :: codec where
  "newCodec = \<lparr>preMessagePayload = None, currMessagePayload = newMessagePayload, closed = False,
     cflags = 0, preMessageOpCode = noOp, currMessageOpCode = noOp, messageRsv = 0\<rparr>"

definition SetClosedFlagOnSafe :: "codec \<Rightarrow> bool \<times> codec" where
  "SetClosedFlagOnSafe r = (if closed r then (False, r) else (True, r\<lparr>closed := True\<rparr>))"

definition IsClosedOnSafe :: "codec \<Rightarrow> bool" where "IsClosedOnSafe r = closed r"

definition setUpgraded :: "bool \<Rightarrow> codec \<Rightarrow> codec" where
  "setUpgraded upgraded r =
     (if upgraded then r\<lparr>cflags := cflags r OR 1\<rparr> else r\<lparr>cflags := cflags r AND NOT 1\<rparr>)"

definition isUpgraded :: "codec \<Rightarrow> bool" where "isUpgraded r \<longleftrightarrow> cflags r AND 1 \<noteq> 0"

definition setCompression :: "bool \<Rightarrow> codec \<Rightarrow> codec" where
  "setCompression compression r =
     (if compression then r\<lparr>cflags := cflags r OR 2\<rparr> else r\<lparr>cflags := cflags r AND NOT 2\<rparr>)"

definition IsCompressOnSafe :: "codec \<Rightarrow> bool" where "IsCompressOnSafe r \<longleftrightarrow> cflags r AND 2 \<noteq> 0"

definition resetCurrMessage :: "codec \<Rightarrow> codec" where
  "resetCurrMessage r =
     (let r = r\<lparr>currMessagePayload := mp_reset (currMessagePayload r)\<rparr>
      in if preMessageOpCode r = noOp then r\<lparr>currMessageOpCode := noOp, messageRsv := 0\<rparr>
         else r\<lparr>currMessageOpCode := preMessageOpCode r,
                currMessagePayload := (case preMessagePayload r of Some p \<Rightarrow> p | None \<Rightarrow> []),
                preMessageOpCode := noOp, preMessagePayload := None\<rparr>)"

section \<open>UTF-8 (\<^verbatim>\<open>unicode/utf8.Valid\<close>)\<close>

definition utf8_cont :: "u8 \<Rightarrow> bool" where "utf8_cont b \<longleftrightarrow> 128 \<le> b \<and> b \<le> 191"

fun utf8_valid :: "bytes \<Rightarrow> bool" where
  "utf8_valid [] = True"
| "utf8_valid (a # r) =
     (if a < 128 then utf8_valid r
      else case r of [] \<Rightarrow> False | b # r1 \<Rightarrow>
        if 194 \<le> a \<and> a \<le> 223 then utf8_cont b \<and> utf8_valid r1
        else case r1 of [] \<Rightarrow> False | c # r2 \<Rightarrow>
          if 224 \<le> a \<and> a \<le> 239
          then (if a = 224 then 160 \<le> b \<and> b \<le> 191
                else if a = 237 then 128 \<le> b \<and> b \<le> 159 else utf8_cont b)
               \<and> utf8_cont c \<and> utf8_valid r2
          else case r2 of [] \<Rightarrow> False | d # r3 \<Rightarrow>
            240 \<le> a \<and> a \<le> 244 \<and>
            (if a = 240 then 144 \<le> b \<and> b \<le> 191
             else if a = 244 then 128 \<le> b \<and> b \<le> 143 else utf8_cont b)
            \<and> utf8_cont c \<and> utf8_cont d \<and> utf8_valid r3)"

section \<open>Decoding one frame\<close>

datatype frame_res = FErr status string | FShort | FPanic | FFrame bool bytes

text \<open>\<^verbatim>\<open>decode\<close>, the checks against a message already begun and the saving of that message by a control frame.\<close>

definition enter_frame :: "u8 \<Rightarrow> opcode \<Rightarrow> codec \<Rightarrow> (status \<times> string) option \<times> codec" where
  "enter_frame rsv op r =
     (if currMessageOpCode r \<noteq> noOp
      then if IsControl (currMessageOpCode r)
           then (Some (StatusProtocolError, ''control message MUST NOT be fragmented''), r)
           else if IsControl op
           then (None, r\<lparr>preMessageOpCode := currMessageOpCode r,
                         preMessagePayload := Some (currMessagePayload r),
                         currMessageOpCode := noOp, currMessagePayload := newMessagePayload\<rparr>)
           else if op \<noteq> OpContinuation
           then (Some (StatusProtocolError, ''non-first fragment must be continuation''), r)
           else if IsCompressOnSafe r \<and> rsv \<noteq> 0
           then (Some (StatusProtocolError, ''RSV1 must be 0''), r)
           else (None, r)
      else (None, r))"

text \<open>\<^verbatim>\<open>decode\<close>, remembering opcode and RSV of a first frame.\<close>

definition first_frame :: "u8 \<Rightarrow> opcode \<Rightarrow> codec \<Rightarrow> (status \<times> string) option \<times> codec" where
  "first_frame rsv op r =
     (if currMessageOpCode r = noOp
      then if IsCompressOnSafe r \<and> rsv \<noteq> 4 \<and> rsv \<noteq> 0
           then (Some (StatusProtocolError, ''RSV1 must be 0 or 4''), r)
           else let r = r\<lparr>messageRsv := rsv\<rparr>
                in if op = OpContinuation
                   then (Some (StatusProtocolError, ''unexpected continuation frame: no message to continue''), r)
                   else (None, r\<lparr>currMessageOpCode := op\<rparr>)
      else (None, r))"

definition validOp :: "opcode \<Rightarrow> bool" where
  "validOp op \<longleftrightarrow> op = OpContinuation \<or> op = OpText \<or> op = OpBinary \<or> op = OpClose \<or> op = OpPing \<or> op = OpPong"

text \<open>The first two header bytes.\<close>

definition head_Fin :: "u8 \<Rightarrow> bool" where "head_Fin b \<longleftrightarrow> b AND 128 \<noteq> 0"
definition head_Rsv :: "u8 \<Rightarrow> u8" where "head_Rsv b = drop_bit 4 (b AND 112)"
definition head_OpCode :: "u8 \<Rightarrow> opcode" where "head_OpCode b = b AND 15"

text \<open>
  \<^verbatim>\<open>decode\<close> from the payload on: \<open>p\<close> is \<^verbatim>\<open>peek\<close> at the mask, \<open>Length\<close> the 64-bit \<^verbatim>\<open>head.Length\<close>. The sum
  \<^verbatim>\<open>(int)(head.Length)+4\<close> wraps around; a negative bound makes \<^verbatim>\<open>peek[4:4+(int)(head.Length)]\<close> panic.
\<close>

definition decode_payload :: "bool \<Rightarrow> u8 \<Rightarrow> opcode \<Rightarrow> u64 \<Rightarrow> bytes \<Rightarrow> codec \<Rightarrow> frame_res \<times> codec" where
  "decode_payload fin rsv op Length p r =
     (if IsControl op \<and> sint Length > 125
      then (FErr StatusProtocolError ''control frame too long'', r)
      else if int (length p) < sint (Length + 4) then (FShort, r)
      else case first_frame rsv op r of
             (Some (st, e), r) \<Rightarrow> (FErr st e, r)
           | (None, r) \<Rightarrow>
               if sint (Length + 4) < 4 then (FPanic, r)
               else let n = nat (sint Length)
                    in (FFrame fin (drop (4 + n) p),
                        r\<lparr>currMessagePayload := mp_append (take n (drop 4 p)) (take 4 p) (currMessagePayload r)\<rparr>))"

definition decode_length :: "bool \<Rightarrow> u8 \<Rightarrow> opcode \<Rightarrow> bytes \<Rightarrow> codec \<Rightarrow> frame_res \<times> codec" where
  "decode_length fin rsv op peek r =
     (if peek ! 1 AND 128 = 0 then (FErr StatusProtocolError ''client must mask data'', r)
      else let len = peek ! 1 AND 127;
               extra = (if len < 126 then 4 else if len = 126 then 6 else 12)
           in if length peek < 2 + extra then (FShort, r)
              else let p = drop 2 peek
                   in if len = 126 then decode_payload fin rsv op (ucast (Uint16 p)) (drop 2 p) r
                      else if len = 127
                      then if p ! 0 AND 128 \<noteq> 0
                           then (FErr StatusProtocolError ''the most significant bit must be 0'', r)
                           else decode_payload fin rsv op (Uint64 p) (drop 8 p) r
                      else decode_payload fin rsv op (ucast len) p r)"

definition decode_frame :: "codec \<Rightarrow> bytes \<Rightarrow> frame_res \<times> codec" where
  "decode_frame r peek =
     (if length peek < 2 then (FShort, r)
      else let fin = head_Fin (peek ! 0); rsv = head_Rsv (peek ! 0); op = head_OpCode (peek ! 0)
           in if \<not> validOp op then (FErr StatusProtocolError ''unsupported opcode'', r)
              else if rsv \<noteq> 0 \<and> \<not> IsCompressOnSafe r
              then (FErr StatusProtocolError ''RSV1 bits must be 0 without extensions'', r)
              else if rsv \<noteq> 0 \<and> IsControl op
              then (FErr StatusProtocolError ''RSV1 must be 0'', r)
              else case enter_frame rsv op r of
                     (Some (st, e), r) \<Rightarrow> (FErr st e, r)
                   | (None, r) \<Rightarrow> decode_length fin rsv op peek r)"

section \<open>Decoding a message\<close>

definition validCloseCode :: "status \<Rightarrow> bool" where
  "validCloseCode code \<longleftrightarrow>
     \<not> (code \<le> 999 \<or> code = 1004 \<or> code = 1005 \<or> code = 1006 \<or> code = 1016 \<or> code = 1100 \<or> code = 2000 \<or> code = 2999)"

text \<open>The checks on a complete message; \<open>inflate\<close> is \<^verbatim>\<open>wsflate.DefaultHelper.Decompress\<close>.\<close>

definition complete_message :: "(bytes \<Rightarrow> bytes option) \<Rightarrow> codec \<Rightarrow> (status \<times> string) + bytes" where
  "complete_message inflate r =
     (let payload = mp_merge (currMessagePayload r);
          op = currMessageOpCode r;
          inflated = (if IsCompressOnSafe r \<and> messageRsv r = 4 then inflate payload else Some payload)
      in if op = OpText
         then (case inflated of
                 None \<Rightarrow> Inl (StatusInvalidFramePayloadData, ''invalid deflate stream'')
               | Some m \<Rightarrow> if \<not> utf8_valid m
                           then Inl (StatusInvalidFramePayloadData, ''invalid utf8 in text message'')
                           else Inr m)
         else if op = OpBinary
         then (case inflated of
                 None \<Rightarrow> Inl (StatusInvalidFramePayloadData, ''invalid deflate stream'')
               | Some m \<Rightarrow> Inr m)
         else if op = OpClose \<and> length payload > 0
         then if length payload = 1 \<or> length payload > 125
              then Inl (StatusProtocolError, ''close frame payload length invalid'')
              else if \<not> validCloseCode (Uint16 payload)
              then Inl (StatusProtocolError, ''invalid close status code'')
              else if length payload > 2 \<and> \<not> utf8_valid (drop 2 payload)
              then Inl (StatusInvalidFramePayloadData, ''invalid utf8 in text message'')
              else Inr payload
         else Inr payload)"

datatype decode_res = DMsg bytes | DErr status string | DShort | DPanic

lemma decode_payload_shorter:
  "decode_payload fin rsv op L p r = (FFrame f rest, r') \<Longrightarrow> length rest < length p"
  by (auto simp: decode_payload_def Let_def split: if_splits prod.splits option.splits)

lemma decode_length_shorter:
  "decode_length fin rsv op p r = (FFrame f rest, r') \<Longrightarrow> length rest < length p"
  by (auto simp: decode_length_def Let_def split: if_splits dest!: decode_payload_shorter)

lemma decode_frame_shorter: "decode_frame r p = (FFrame f rest, r') \<Longrightarrow> length rest < length p"
  by (auto simp: decode_frame_def Let_def split: if_splits prod.splits option.splits
      dest!: decode_length_shorter)

function decode :: "(bytes \<Rightarrow> bytes option) \<Rightarrow> codec \<Rightarrow> bytes \<Rightarrow> decode_res \<times> codec \<times> bytes" where
  "decode inflate r buf =
     (case decode_frame r buf of
        (FErr st e, r) \<Rightarrow> (DErr st e, r, buf)
      | (FShort, r) \<Rightarrow> (DShort, r, buf)
      | (FPanic, r) \<Rightarrow> (DPanic, r, buf)
      | (FFrame fin rest, r) \<Rightarrow>
          if fin then (case complete_message inflate r of
                         Inl (st, e) \<Rightarrow> (DErr st e, r, rest)
                       | Inr m \<Rightarrow> (DMsg m, r, rest))
          else decode inflate r rest)"
  by pat_completeness auto
termination
  by (relation "measure (\<lambda>(_, _, buf). length buf)") (auto dest: decode_frame_shorter [OF sym])

declare decode.simps [simp del]

section \<open>Flags and payloads\<close>

lemma flag_bits [simp]:
  "isUpgraded (setUpgraded b r) = b" "IsCompressOnSafe (setUpgraded b r) = IsCompressOnSafe r"
  "IsCompressOnSafe (setCompression b r) = b" "isUpgraded (setCompression b r) = isUpgraded r"
proof -
  have 1: "w AND 1 \<noteq> 0 \<longleftrightarrow> bit w 0" for w :: u8
    by (simp add: and_one_eq odd_iff_mod_2_eq_one bit_0)
  have 2: "w AND 2 \<noteq> 0 \<longleftrightarrow> bit w 1" for w :: u8
    using bit_iff_and_push_bit_not_eq_0 [of w 1] by simp
  have c: "bit (1 :: u8) 0 = True" "bit (1 :: u8) 1 = False" "bit (2 :: u8) 0 = False" "bit (2 :: u8) 1 = True"
    "possible_bit TYPE(u8) 0 = True" "possible_bit TYPE(u8) 1 = True"
    by (simp_all add: possible_bit_def)
  show "isUpgraded (setUpgraded b r) = b" "IsCompressOnSafe (setUpgraded b r) = IsCompressOnSafe r"
    "IsCompressOnSafe (setCompression b r) = b" "isUpgraded (setCompression b r) = isUpgraded r"
    unfolding isUpgraded_def IsCompressOnSafe_def 1 2 setUpgraded_def setCompression_def
    by (cases r; cases b; simp only: if_True if_False codec.simps bit_or_iff bit_and_iff bit_not_iff c simp_thms; fail)+
qed

lemma mp_merge_concat: "mp_merge r = concat r"
proof -
  have "fold (\<lambda>frag ret. ret @ frag) r a = a @ concat r" for r :: "bytes list" and a
    by (induction r arbitrary: a) auto
  then show ?thesis by (auto simp: mp_merge_def split: list.splits)
qed

lemma length_Cipher [simp]: "length (Cipher m bs) = length bs"
  by (simp add: Cipher_def)

lemma Cipher_Cipher: "Cipher m (Cipher m bs) = bs"
  by (rule nth_equalityI) (simp_all add: Cipher_def xor.assoc)

section \<open>Frames as a client sends them\<close>

definition frame_len :: "nat \<Rightarrow> bytes" where
  "frame_len n = (if n \<le> 125 then [128 OR of_nat n]
     else if n \<le> 65535 then 254 # PutUint16 (of_nat n) else 255 # PutUint64 (of_nat n))"

definition client_frame :: "bool \<Rightarrow> u8 \<Rightarrow> opcode \<Rightarrow> bytes \<Rightarrow> bytes \<Rightarrow> bytes" where
  "client_frame fin rsv op m p =
     ((if fin then 128 else 0) OR push_bit 4 rsv OR op) # frame_len (length p) @ m @ Cipher m p"

lemma head_byte:
  assumes "rsv \<in> {0, 4}" "validOp op" "b = (if fin then 128 else 0) OR push_bit 4 rsv OR op"
  shows "head_Fin b = fin" "head_Rsv b = rsv" "head_OpCode b = op"
  using assms
  by (auto simp: validOp_def op_defs head_Fin_def head_Rsv_def head_OpCode_def push_bit_eq_mult drop_bit_eq_div)

lemma sint_of_nat_u64: "n < 2 ^ 63 \<Longrightarrow> sint (of_nat n :: u64) = int n"
proof -
  assume "n < 2 ^ 63"
  then have "int n < 2 ^ 63" using of_nat_less_iff [of n "2 ^ 63", where ?'a = int] by simp
  then have "signed_take_bit 63 (int n) = int n" by (intro signed_take_bit_int_eq_self) simp_all
  then show ?thesis by (simp add: signed_of_nat)
qed

lemma decode_payload_client:
  assumes "length m = 4" "length p + 4 < 2 ^ 63" "IsControl op \<longrightarrow> length p \<le> 125"
  shows "decode_payload fin rsv op (of_nat (length p)) (m @ Cipher m p @ rest) r =
     (case first_frame rsv op r of
        (Some (st, e), r) \<Rightarrow> (FErr st e, r)
      | (None, r) \<Rightarrow> (FFrame fin rest, r\<lparr>currMessagePayload := currMessagePayload r @ [p]\<rparr>))"
proof -
  have "(of_nat (length p) :: u64) + 4 = of_nat (length p + 4)" by simp
  then have s4: "sint ((of_nat (length p) :: u64) + 4) = int (length p) + 4"
    using sint_of_nat_u64 [OF assms(2)] by (simp only: of_nat_add of_nat_numeral)
  have s: "sint (of_nat (length p) :: u64) = int (length p)"
    using assms(2) by (intro sint_of_nat_u64) simp
  have n: "nat (sint (of_nat (length p) :: u64)) = length p" unfolding s by simp
  show ?thesis
    unfolding decode_payload_def Let_def s4 n
    using assms(1,3) by (auto simp: s mp_append_def Cipher_Cipher split: prod.splits option.splits)
qed

lemma len_byte_small:
  assumes "n \<le> 125"
  shows "(128 OR of_nat n :: u8) AND 127 = of_nat n" "(128 OR of_nat n :: u8) AND 128 = 128"
proof -
  have "\<forall>n \<in> set [0..<126]. (128 OR of_nat n :: u8) AND 127 = of_nat n \<and> (128 OR of_nat n :: u8) AND 128 = 128"
    by code_simp
  then show "(128 OR of_nat n :: u8) AND 127 = of_nat n" "(128 OR of_nat n :: u8) AND 128 = 128"
    using assms by auto
qed

lemma be_bytes_head: "be_bytes (Suc n) v ! 0 = of_nat (v div 256 ^ n mod 256)"
proof (induction n arbitrary: v)
  case (Suc n)
  show ?case unfolding be_bytes.simps(2) [of "Suc n"]
    using Suc [of "v div 256"] by (simp add: nth_append flip: div_mult2_eq del: be_bytes.simps)
qed simp

lemma PutUint64_msb:
  assumes "n < 2 ^ 63"
  shows "PutUint64 (of_nat n) ! 0 AND 128 = 0"
proof -
  have "\<forall>k \<in> set [0..<128]. (of_nat k :: u8) AND 128 = 0" by code_simp
  then have z: "(of_nat k :: u8) AND 128 = 0" if "k < 128" for k using that by simp
  have "unat (of_nat n :: u64) = n" using assms by (intro unat_of_nat_small) simp
  moreover have "n div 256 ^ 7 < 128" using assms by (simp add: div_less_iff_less_mult)
  ultimately have "PutUint64 (of_nat n) ! 0 = of_nat (n div 256 ^ 7)"
    using be_bytes_head [of 7 n] by (simp add: PutUint64_def)
  with z [OF \<open>n div 256 ^ 7 < 128\<close>] show ?thesis by simp
qed

definition frame_ok :: "u8 \<Rightarrow> opcode \<Rightarrow> bytes \<Rightarrow> bytes \<Rightarrow> bool" where
  "frame_ok rsv op m p \<longleftrightarrow> rsv \<in> {0, 4} \<and> validOp op \<and> length m = 4 \<and> length p + 4 < 2 ^ 63 \<and>
     (IsControl op \<longrightarrow> rsv = 0 \<and> length p \<le> 125)"

lemma decode_length_client:
  assumes "frame_ok rsv op m p"
  shows "decode_length fin rsv op (client_frame fin rsv op m p @ rest) r =
     (case first_frame rsv op r of
        (Some (st, e), r) \<Rightarrow> (FErr st e, r)
      | (None, r) \<Rightarrow> (FFrame fin rest, r\<lparr>currMessagePayload := currMessagePayload r @ [p]\<rparr>))"
proof -
  let ?n = "length p"
  have m: "length m = 4" "?n + 4 < 2 ^ 63" "IsControl op \<longrightarrow> ?n \<le> 125"
    using assms by (auto simp: frame_ok_def)
  note dp = decode_payload_client [OF m, of fin rsv rest r]
  consider "?n \<le> 125" | "125 < ?n" "?n \<le> 65535" | "65535 < ?n" by linarith
  then show ?thesis
  proof cases
    case 1
    have u: "unat (of_nat ?n :: u8) = ?n" using 1 by (intro unat_of_nat_small) simp
    have "(of_nat ?n :: u8) < 126" using 1 by (simp add: word_less_nat_alt u)
    moreover have "(ucast (of_nat ?n :: u8) :: u64) = of_nat ?n"
      using of_nat_unat [of "of_nat ?n :: u8", where ?'a = u64] by (simp only: u)
    moreover have "(of_nat ?n :: u8) \<noteq> 126" "(of_nat ?n :: u8) \<noteq> 127"
      using \<open>(of_nat ?n :: u8) < 126\<close> by (auto simp: word_less_nat_alt)
    ultimately show ?thesis
      unfolding decode_length_def client_frame_def frame_len_def
      by (simp add: 1 len_byte_small Let_def m dp)
  next
    case 2
    have "(ucast (of_nat ?n :: u16) :: u64) = of_nat ?n"
      using 2 of_nat_unat [of "of_nat ?n :: u16", where ?'a = u64] by (simp add: unat_of_nat_small del: of_nat_unat word_of_unat)
    with 2 show ?thesis
      unfolding decode_length_def client_frame_def frame_len_def
      by (simp add: Let_def m dp Uint16_Put)
  next
    case 3
    have "PutUint64 (of_nat ?n) ! 0 AND 128 = 0" using m(2) by (intro PutUint64_msb) simp
    with 3 show ?thesis
      unfolding decode_length_def client_frame_def frame_len_def
      by (simp add: Let_def m dp Uint64_Put nth_append)
  qed
qed

lemma decode_frame_client:
  assumes "frame_ok rsv op m p" "rsv \<noteq> 0 \<longrightarrow> IsCompressOnSafe r"
  shows "decode_frame r (client_frame fin rsv op m p @ rest) =
     (case enter_frame rsv op r of
        (Some (st, e), r) \<Rightarrow> (FErr st e, r)
      | (None, r) \<Rightarrow> (case first_frame rsv op r of
            (Some (st, e), r) \<Rightarrow> (FErr st e, r)
          | (None, r) \<Rightarrow> (FFrame fin rest, r\<lparr>currMessagePayload := currMessagePayload r @ [p]\<rparr>)))"
proof -
  let ?f = "client_frame fin rsv op m p @ rest"
  have len: "\<not> length ?f < 2"
    using assms by (auto simp: client_frame_def frame_ok_def)
  have hd: "head_Fin (?f ! 0) = fin" "head_Rsv (?f ! 0) = rsv" "head_OpCode (?f ! 0) = op"
    using head_byte [of rsv op _ fin] assms by (auto simp: client_frame_def frame_ok_def)
  have ok: "validOp op" "\<not> (rsv \<noteq> 0 \<and> \<not> IsCompressOnSafe r)" "\<not> (rsv \<noteq> 0 \<and> IsControl op)"
    using assms by (auto simp: frame_ok_def)
  show ?thesis
    unfolding decode_frame_def hd Let_def decode_length_client [OF assms(1)] by (simp only: len ok if_False if_True not_True_eq_False simp_thms)
qed

section \<open>Fragmented messages\<close>

text \<open>
  A message as a client sends it: a first frame with the opcode and the RSV bits, then continuation
  frames; each frame is given by its masking key and its payload.
\<close>

fun cont_frames :: "(bytes \<times> bytes) list \<Rightarrow> bytes" where
  "cont_frames [] = []"
| "cont_frames ((m, p) # fs) = client_frame (fs = []) 0 OpContinuation m p @ cont_frames fs"

definition client_message :: "u8 \<Rightarrow> opcode \<Rightarrow> bytes \<Rightarrow> bytes \<Rightarrow> (bytes \<times> bytes) list \<Rightarrow> bytes" where
  "client_message rsv op m p fs = client_frame (fs = []) rsv op m p @ cont_frames fs"

definition finish :: "(bytes \<Rightarrow> bytes option) \<Rightarrow> codec \<Rightarrow> bytes \<Rightarrow> decode_res \<times> codec \<times> bytes" where
  "finish inflate r rest = (case complete_message inflate r of
      Inl (st, e) \<Rightarrow> (DErr st e, r, rest) | Inr m \<Rightarrow> (DMsg m, r, rest))"

lemma decode_unfold:
  "decode inflate r buf =
     (case decode_frame r buf of
        (FErr st e, r) \<Rightarrow> (DErr st e, r, buf)
      | (FShort, r) \<Rightarrow> (DShort, r, buf)
      | (FPanic, r) \<Rightarrow> (DPanic, r, buf)
      | (FFrame fin rest, r) \<Rightarrow> if fin then finish inflate r rest else decode inflate r rest)"
  unfolding finish_def by (rule decode.simps)

lemma frame_ok_cont: "frame_ok 0 OpContinuation m p \<longleftrightarrow> length m = 4 \<and> length p + 4 < 2 ^ 63"
  by (auto simp: frame_ok_def validOp_def OpContinuation_def IsControl_def)

text \<open>A continuation frame of a message in progress.\<close>

lemma decode_cont:
  assumes "currMessageOpCode r \<in> {OpText, OpBinary}" "length m = 4" "length p + 4 < 2 ^ 63"
  shows "decode_frame r (client_frame fin 0 OpContinuation m p @ rest)
         = (FFrame fin rest, r\<lparr>currMessagePayload := currMessagePayload r @ [p]\<rparr>)"
proof -
  have "enter_frame 0 OpContinuation r = (None, r)" "first_frame 0 OpContinuation r = (None, r)"
    using assms(1) by (auto simp: enter_frame_def first_frame_def op_defs IsControl_def)
  then show ?thesis
    using decode_frame_client [of 0 OpContinuation m p r fin rest] assms by (simp add: frame_ok_cont)
qed

definition frags_ok :: "(bytes \<times> bytes) list \<Rightarrow> bool" where
  "frags_ok fs \<longleftrightarrow> (\<forall>(m, p) \<in> set fs. length m = 4 \<and> length p + 4 < 2 ^ 63)"

lemma decode_conts:
  assumes "currMessageOpCode r \<in> {OpText, OpBinary}" "frags_ok fs" "fs \<noteq> []"
  shows "decode inflate r (cont_frames fs @ rest)
         = finish inflate (r\<lparr>currMessagePayload := currMessagePayload r @ map snd fs\<rparr>) rest"
  using assms
proof (induction fs arbitrary: r)
  case (Cons f fs)
  obtain m p where f: "f = (m, p)" by (cases f)
  have ok: "length m = 4" "length p + 4 < 2 ^ 63" "frags_ok fs"
    using Cons.prems f by (auto simp: frags_ok_def)
  note step = decode_cont [OF Cons.prems(1) ok(1,2), of "fs = []" "cont_frames fs @ rest"]
  show ?case
  proof (cases "fs = []")
    case True
    then show ?thesis using step f by (simp add: decode_unfold)
  next
    case False
    then show ?thesis
      using step f Cons.IH [of "r\<lparr>currMessagePayload := currMessagePayload r @ [p]\<rparr>"] Cons.prems(1) ok(3)
      by (simp add: decode_unfold [where buf = "client_frame _ _ _ _ _ @ _"])
  qed
qed simp

text \<open>A codec between two messages.\<close>

definition idle :: "codec \<Rightarrow> bool" where
  "idle r \<longleftrightarrow> currMessageOpCode r = noOp \<and> currMessagePayload r = [] \<and> preMessageOpCode r = noOp"

lemma first_frame_idle:
  "currMessageOpCode r = noOp \<Longrightarrow> op \<noteq> OpContinuation \<Longrightarrow> rsv \<in> {0, 4} \<Longrightarrow>
   first_frame rsv op r = (None, r\<lparr>messageRsv := rsv, currMessageOpCode := op\<rparr>)"
  by (auto simp: first_frame_def Let_def)

lemma decode_first:
  assumes "currMessageOpCode r = noOp" "frame_ok rsv op m p" "op \<noteq> OpContinuation" "rsv \<noteq> 0 \<longrightarrow> IsCompressOnSafe r"
  shows "decode_frame r (client_frame fin rsv op m p @ rest) =
     (FFrame fin rest, r\<lparr>messageRsv := rsv, currMessageOpCode := op,
                         currMessagePayload := currMessagePayload r @ [p]\<rparr>)"
proof -
  have "enter_frame rsv op r = (None, r)" "rsv \<in> {0, 4}"
    using assms by (auto simp: enter_frame_def frame_ok_def)
  then show ?thesis
    using decode_frame_client [OF assms(2,4)] first_frame_idle [OF assms(1,3)] by simp
qed

lemma decode_message:
  assumes "idle r" "op \<in> {OpText, OpBinary}" "rsv \<in> {0, 4}" "rsv \<noteq> 0 \<longrightarrow> IsCompressOnSafe r"
    and "frags_ok ((m, p) # fs)"
  shows "decode inflate r (client_message rsv op m p fs @ rest) =
     finish inflate (r\<lparr>messageRsv := rsv, currMessageOpCode := op, currMessagePayload := p # map snd fs\<rparr>) rest"
proof -
  have fo: "frame_ok rsv op m p" and nc: "op \<noteq> OpContinuation" and fr: "frags_ok fs"
    using assms(2,3,5) by (auto simp: frame_ok_def frags_ok_def validOp_def op_defs IsControl_def)
  let ?r = "r\<lparr>messageRsv := rsv, currMessageOpCode := op, currMessagePayload := currMessagePayload r @ [p]\<rparr>"
  have step: "decode_frame r (client_frame (fs = []) rsv op m p @ cont_frames fs @ rest)
        = (FFrame (fs = []) (cont_frames fs @ rest), ?r)"
    using assms(1) decode_first [OF _ fo nc assms(4)] by (simp add: idle_def)
  show ?thesis
  proof (cases "fs = []")
    case True
    then show ?thesis using step assms(1) by (simp add: client_message_def decode_unfold idle_def)
  next
    case False
    then show ?thesis
      using step decode_conts [of ?r fs inflate rest] assms(1,2) fr
      by (simp add: client_message_def decode_unfold [where buf = "client_frame _ _ _ _ _ @ _"] idle_def)
  qed
qed

section \<open>Decoding does not depend on how the stream is cut\<close>

lemma sint_plus4: "4 \<le> sint (L + 4) \<Longrightarrow> sint (L :: u64) = sint (L + 4) - 4"
proof -
  assume a: "4 \<le> sint (L + 4)"
  have "sint (L + 4) < 2 ^ 63" using sint_less [of "L + 4"] by simp
  then have "signed_take_bit 63 (sint (L + 4) - 4) = sint (L + 4) - 4"
    using a by (intro signed_take_bit_int_eq_self) simp_all
  moreover have "L = of_int (sint (L + 4) - 4)" by simp
  ultimately show ?thesis
    using signed_of_int [of "sint (L + 4) - 4", where ?'b = 64 and ?'a = int] by simp
qed

lemma decode_payload_more:
  "decode_payload fin rsv op L p r = (FFrame f rest, r') \<Longrightarrow>
   decode_payload fin rsv op L (p @ new) r = (FFrame f (rest @ new), r')"
proof -
  assume a: "decode_payload fin rsv op L p r = (FFrame f rest, r')"
  have n: "nat (sint L) + 4 \<le> length p" if "\<not> int (length p) < sint (L + 4)" "\<not> sint (L + 4) < 4"
    using that sint_plus4 [of L] by simp
  show ?thesis using a n
    by (auto simp: decode_payload_def Let_def split: if_splits prod.splits option.splits)
qed

lemma Uint_more:
  "2 \<le> length p \<Longrightarrow> Uint16 (p @ new) = Uint16 p" "8 \<le> length p \<Longrightarrow> Uint64 (p @ new) = Uint64 p"
  by (simp_all add: Uint16_def Uint64_def)

lemma decode_length_more:
  assumes "decode_length fin rsv op p r = (FFrame f rest, r')" "2 \<le> length p"
  shows "decode_length fin rsv op (p @ new) r = (FFrame f (rest @ new), r')"
  using assms
  by (auto simp: decode_length_def Let_def nth_append Uint_more split: if_splits intro!: decode_payload_more)

lemma decode_frame_more:
  assumes "decode_frame r p = (FFrame f rest, r')"
  shows "decode_frame r (p @ new) = (FFrame f (rest @ new), r')"
proof -
  let ?rsv = "head_Rsv (p ! 0)" and ?op = "head_OpCode (p ! 0)" and ?fin = "head_Fin (p ! 0)"
  have len: "2 \<le> length p" using assms by (auto simp: decode_frame_def split: if_splits)
  then have hd: "(p @ new) ! 0 = p ! 0" "\<not> length (p @ new) < 2" "\<not> length p < 2" by (auto simp: nth_append)
  have pass: "validOp ?op" "\<not> (?rsv \<noteq> 0 \<and> \<not> IsCompressOnSafe r)" "\<not> (?rsv \<noteq> 0 \<and> IsControl ?op)"
    using assms len by (auto simp: decode_frame_def Let_def split: if_splits)
  have eq: "decode_frame r q = (case enter_frame ?rsv ?op r of
      (Some (st, e), r) \<Rightarrow> (FErr st e, r) | (None, r) \<Rightarrow> decode_length ?fin ?rsv ?op q r)"
    if "q ! 0 = p ! 0" "\<not> length q < 2" for q
    unfolding decode_frame_def that(1) Let_def by (simp only: pass that(2) if_False not_True_eq_False simp_thms)
  from assms show ?thesis
    unfolding eq [OF hd(1,2)] eq [OF refl hd(3)]
    using decode_length_more len by (auto split: prod.splits option.splits)
qed

lemma decode_length_short: "decode_length fin rsv op p r = (FShort, r') \<Longrightarrow> r' = r"
  by (auto simp: decode_length_def decode_payload_def Let_def split: if_splits prod.splits option.splits)

lemma enter_frame_again:
  "enter_frame rsv op r = (None, r') \<Longrightarrow>
   enter_frame rsv op r' = (None, r') \<and> IsCompressOnSafe r' = IsCompressOnSafe r"
  by (auto simp: enter_frame_def IsCompressOnSafe_def split: if_splits)

text \<open>
  After a short read the codec may already have set a message in progress aside for an interleaved
  control frame; reading the header again from there leads to the same place.
\<close>

lemma decode_frame_short:
  assumes "decode_frame r p = (FShort, r')"
  shows "decode_frame r' (p @ new) = decode_frame r (p @ new)"
proof (cases "length p < 2")
  case True
  then show ?thesis using assms by (simp add: decode_frame_def)
next
  case False
  let ?rsv = "head_Rsv (p ! 0)" and ?op = "head_OpCode (p ! 0)"
  have pass: "validOp ?op" "\<not> (?rsv \<noteq> 0 \<and> \<not> IsCompressOnSafe r)" "\<not> (?rsv \<noteq> 0 \<and> IsControl ?op)"
    using assms False by (auto simp: decode_frame_def Let_def split: if_splits)
  have "enter_frame ?rsv ?op r = (None, r')"
    using assms False pass
    by (auto simp: decode_frame_def Let_def split: if_splits prod.splits option.splits
        dest: decode_length_short)
  with enter_frame_again [OF this] False pass show ?thesis
    by (auto simp: decode_frame_def Let_def nth_append)
qed

lemma decode_resume_short:
  "decode inflate r buf = (DShort, r', buf') \<Longrightarrow> decode inflate r' (buf' @ new) = decode inflate r (buf @ new)"
proof (induction inflate r buf rule: decode.induct)
  case (1 inflate r buf)
  obtain fr r1 where df: "decode_frame r buf = (fr, r1)" by fastforce
  show ?case
  proof (cases fr)
    case FShort
    then have "r' = r1" "buf' = buf" using 1(2) df by (simp_all add: decode_unfold [of inflate r buf])
    then show ?thesis
      using decode_frame_short [of r buf r1 new] df FShort
      by (simp add: decode_unfold [of inflate r1] decode_unfold [of inflate r "buf @ new"])
  next
    case (FFrame fin rest)
    then have "\<not> fin" "decode inflate r1 rest = (DShort, r', buf')"
      using 1(2) df
      by (auto simp: decode_unfold [of inflate r buf] finish_def split: if_splits sum.splits prod.splits)
    then have "decode inflate r' (buf' @ new) = decode inflate r1 (rest @ new)"
      using 1(1) [OF df [symmetric] FFrame] by blast
    then show ?thesis
      using decode_frame_more [of r buf fin rest r1 new] df FFrame \<open>\<not> fin\<close>
      by (simp add: decode_unfold [of inflate r "buf @ new"])
  qed (use 1(2) df in \<open>simp_all add: decode_unfold [of inflate r buf]\<close>)
qed

section \<open>Complete messages and interleaved control frames\<close>

lemma finish_data:
  assumes "currMessageOpCode r = op" "op \<in> {OpText, OpBinary}"
    and "(if IsCompressOnSafe r \<and> messageRsv r = 4 then inflate (concat (currMessagePayload r))
          else Some (concat (currMessagePayload r))) = Some msg"
    and "op = OpText \<longrightarrow> utf8_valid msg"
  shows "finish inflate r rest = (DMsg msg, r, rest)"
proof -
  have "OpText \<noteq> OpBinary" "OpText \<noteq> OpClose" "OpBinary \<noteq> OpClose" by (simp_all add: op_defs)
  then have "complete_message inflate r = Inr msg"
    using assms unfolding complete_message_def Let_def mp_merge_concat by auto
  then show ?thesis by (simp add: finish_def)
qed

text \<open>A codec in the middle of a fragmented data message.\<close>

definition mid_message :: "codec \<Rightarrow> bool" where
  "mid_message r \<longleftrightarrow> currMessageOpCode r \<in> {OpText, OpBinary} \<and> preMessageOpCode r = noOp \<and> preMessagePayload r = None"

lemma decode_control:
  assumes "mid_message r" "op \<in> {OpPing, OpPong}" "length m = 4" "length p \<le> 125"
  shows "decode inflate r (client_frame True 0 op m p @ rest) =
     (DMsg p, r\<lparr>preMessageOpCode := currMessageOpCode r, preMessagePayload := Some (currMessagePayload r),
                messageRsv := 0, currMessageOpCode := op, currMessagePayload := [p]\<rparr>, rest)"
proof -
  let ?r = "r\<lparr>preMessageOpCode := currMessageOpCode r, preMessagePayload := Some (currMessagePayload r),
      currMessageOpCode := noOp, currMessagePayload := []\<rparr>"
  have op: "IsControl op" "op \<noteq> OpContinuation" "op \<noteq> OpText" "op \<noteq> OpBinary" "op \<noteq> OpClose" "validOp op"
    using assms(2) by (auto simp: op_defs IsControl_def validOp_def)
  have fo: "frame_ok 0 op m p" using assms(3,4) op by (simp add: frame_ok_def)
  have en: "enter_frame 0 op r = (None, ?r)"
    using assms(1) op(1) by (auto simp: enter_frame_def mid_message_def newMessagePayload_def op_defs IsControl_def)
  have ff: "first_frame 0 op ?r = (None, ?r\<lparr>messageRsv := 0, currMessageOpCode := op\<rparr>)"
    using op(2) by (intro first_frame_idle) simp_all
  have "decode_frame r (client_frame True 0 op m p @ rest) =
      (FFrame True rest, ?r\<lparr>messageRsv := 0, currMessageOpCode := op, currMessagePayload := [p]\<rparr>)"
    using decode_frame_client [OF fo, of r True rest] by (simp add: en ff)
  then show ?thesis
    using op by (simp add: decode_unfold finish_def complete_message_def mp_merge_concat Let_def newMessagePayload_def)
qed

lemma resetCurrMessage_saved:
  assumes "currMessageOpCode r \<noteq> noOp" "preMessageOpCode r = noOp" "preMessagePayload r = None"
  shows "resetCurrMessage (r\<lparr>preMessageOpCode := currMessageOpCode r, preMessagePayload := Some (currMessagePayload r),
           messageRsv := 0, currMessageOpCode := op, currMessagePayload := [p]\<rparr>) = r\<lparr>messageRsv := 0\<rparr>"
  using assms by (simp add: resetCurrMessage_def Let_def mp_reset_def)

lemma mid_message_noOp: "mid_message r \<Longrightarrow> currMessageOpCode r \<noteq> noOp"
  by (auto simp: mid_message_def op_defs)

section \<open>Panics\<close>

lemma decode_payload_panic:
  "decode_payload fin rsv op L p r = (FPanic, r') \<Longrightarrow> sint (L + 4) < 4"
  by (auto simp: decode_payload_def Let_def split: if_splits prod.splits option.splits)

lemma sint_ucast_plus4: "\<not> sint (ucast (w :: u16) + 4 :: u64) < 4" "\<not> sint (ucast (v :: u8) + 4 :: u64) < 4"
proof -
  have "ucast w + 4 = (of_nat (unat w + 4) :: u64)" by simp
  moreover have "unat w + 4 < 2 ^ 63" using unat_u16_lt [of w] by simp
  ultimately show "\<not> sint (ucast w + 4 :: u64) < 4" by (simp only: sint_of_nat_u64)
  have "ucast v + 4 = (of_nat (unat v + 4) :: u64)" by simp
  moreover have "unat v + 4 < 2 ^ 63" using unat_u8_lt [of v] by simp
  ultimately show "\<not> sint (ucast v + 4 :: u64) < 4" by (simp only: sint_of_nat_u64)
qed

lemma decode_frame_panic:
  assumes "decode_frame r p = (FPanic, r')"
  shows "p ! 1 AND 127 = 127" "sint (Uint64 (drop 2 p) + 4) < 4"
proof -
  have "p ! 1 AND 127 = 127 \<and> sint (Uint64 (drop 2 p) + 4) < 4"
    if "decode_length fin rsv op p r = (FPanic, r')" for fin rsv op r
    using that unfolding decode_length_def Let_def
    by (auto dest!: decode_payload_panic simp: sint_ucast_plus4 split: if_splits)
  with assms show "p ! 1 AND 127 = 127" "sint (Uint64 (drop 2 p) + 4) < 4"
    by (auto simp: decode_frame_def Let_def split: if_splits prod.splits option.splits)
qed

text \<open>A header that announces 2^63-1 bytes: fourteen bytes in all.\<close>

definition huge_frame :: bytes where
  "huge_frame = [130, 255, 127, 255, 255, 255, 255, 255, 255, 255, 0, 0, 0, 0]"

lemma decode_huge_frame: "fst (decode_frame (setUpgraded True newCodec) huge_frame) = FPanic"
proof -
  have "Uint64 (drop 2 huge_frame) = 9223372036854775807"
    by (simp add: huge_frame_def Uint64_def be_val_def)
  then show ?thesis
    by (simp add: huge_frame_def decode_frame_def enter_frame_def first_frame_def decode_length_def
        decode_payload_def newCodec_def setUpgraded_def head_Fin_def head_Rsv_def head_OpCode_def
        IsCompressOnSafe_def validOp_def op_defs IsControl_def Let_def drop_bit_eq_div)
qed

lemma decode_huge: "fst (decode inflate (setUpgraded True newCodec) huge_frame) = DPanic"
  using decode_huge_frame by (subst decode_unfold) (auto split: prod.splits)

section \<open>Properties\<close>

text \<open>
  C15. Decoding does not depend on how the byte stream is cut into reads: when \<^verbatim>\<open>decode\<close> has reported a
  short buffer, calling it again once more bytes have arrived gives the result, the codec state and
  the remaining buffer that one call on the whole buffer would have given, also when the short read
  had already set a fragmented message aside for an interleaved control frame.
\<close>

theorem decode_resume:
  assumes "decode inflate r buf = (DShort, r', buf')"
  shows "decode inflate r' (buf' @ new) = decode inflate r (buf @ new)"
  using assms by (rule decode_resume_short)

text \<open>A codec that has received the first fragment \<^verbatim>\<open>"hi"\<close> of a text message.\<close>

definition sample_mid :: codec where
  "sample_mid = newCodec\<lparr>currMessageOpCode := OpText, currMessagePayload := [[104, 105]]\<rparr>"

definition sample_saved :: codec where
  "sample_saved = newCodec\<lparr>preMessageOpCode := OpText, preMessagePayload := Some [[104, 105]]\<rparr>"

lemma sample_short: "decode Some sample_mid [137, 128] = (DShort, sample_saved, [137, 128])"
  by (simp add: decode_unfold decode_frame_def enter_frame_def decode_length_def sample_mid_def sample_saved_def
      newCodec_def head_Fin_def head_Rsv_def head_OpCode_def IsCompressOnSafe_def validOp_def op_defs
      IsControl_def Let_def drop_bit_eq_div newMessagePayload_def)

theorem decode_resume_witness:
  "sample_saved \<noteq> sample_mid \<and>
   decode Some sample_saved ([137, 128] @ [0, 0, 0, 0]) = decode Some sample_mid ([137, 128] @ [0, 0, 0, 0])"
  using decode_resume [OF sample_short, of "[0, 0, 0, 0]"]
  by (simp add: sample_mid_def sample_saved_def newCodec_def op_defs)

text \<open>
  Round trip of the frame format: a data message that a client sends in any number of masked
  fragments, of any lengths that fit the format, is returned by one call of \<^verbatim>\<open>decode\<close> as the
  concatenation of the payloads (inflated when the first frame carries RSV1 and compression was
  negotiated, and checked to be UTF-8 when it is text), and exactly its bytes are consumed.
\<close>

theorem decode_client_message:
  assumes "idle r" "op \<in> {OpText, OpBinary}" "rsv = 0 \<or> rsv = 4 \<and> IsCompressOnSafe r"
    and "frags_ok ((m, p) # fs)"
    and "(if rsv = 4 then inflate (concat (p # map snd fs)) else Some (concat (p # map snd fs))) = Some msg"
    and "op = OpText \<longrightarrow> utf8_valid msg"
  shows "decode inflate r (client_message rsv op m p fs @ rest) =
     (DMsg msg, r\<lparr>messageRsv := rsv, currMessageOpCode := op, currMessagePayload := p # map snd fs\<rparr>, rest)"
proof -
  let ?r = "r\<lparr>messageRsv := rsv, currMessageOpCode := op, currMessagePayload := p # map snd fs\<rparr>"
  have rsv: "rsv \<in> {0, 4}" "rsv \<noteq> 0 \<longrightarrow> IsCompressOnSafe r" using assms(3) by auto
  have "(if IsCompressOnSafe ?r \<and> messageRsv ?r = 4 then inflate (concat (currMessagePayload ?r))
         else Some (concat (currMessagePayload ?r))) = Some msg"
    using assms(3,5) by (auto simp: IsCompressOnSafe_def)
  then have "finish inflate ?r rest = (DMsg msg, ?r, rest)"
    using assms(2,6) by (intro finish_data [where op = op]) auto
  then show ?thesis using decode_message [OF assms(1,2) rsv assms(4)] by simp
qed

theorem decode_client_message_witness:
  "decode Some newCodec (client_message 0 OpText [1, 2, 3, 4] [104] [([5, 6, 7, 8], [105])] @ [9]) =
   (DMsg [104, 105], newCodec\<lparr>currMessageOpCode := OpText, currMessagePayload := [[104], [105]]\<rparr>, [9])"
  using decode_client_message [of newCodec OpText 0 "[1, 2, 3, 4]" "[104]" "[([5, 6, 7, 8], [105])]" Some "[104, 105]" "[9]"]
  by (simp add: idle_def newCodec_def newMessagePayload_def frags_ok_def)

text \<open>
  A ping or pong between the fragments of a data message is answered on its own and the message
  goes on afterwards: after \<^verbatim>\<open>resetCurrMessage\<close> the codec is the one before the control frame, except that
  the RSV bits remembered for the message are 0.
\<close>

theorem control_between_fragments:
  assumes "mid_message r" "op \<in> {OpPing, OpPong}" "length m = 4" "length p \<le> 125"
  shows "\<exists>r'. decode inflate r (client_frame True 0 op m p @ rest) = (DMsg p, r', rest) \<and>
     currMessageOpCode r' = op \<and> resetCurrMessage r' = r\<lparr>messageRsv := 0\<rparr>"
  using decode_control [OF assms] resetCurrMessage_saved [of r, where op = op and p = p] mid_message_noOp [OF assms(1)] assms(1)
  by (auto simp: mid_message_def)

theorem control_between_fragments_witness:
  "\<exists>r'. decode Some sample_mid (client_frame True 0 OpPing [1, 2, 3, 4] [7] @ [8]) = (DMsg [7], r', [8]) \<and>
     currMessageOpCode r' = OpPing \<and> resetCurrMessage r' = sample_mid\<lparr>messageRsv := 0\<rparr>"
  by (rule control_between_fragments) (simp_all add: sample_mid_def mid_message_def newCodec_def)

text \<open>
  C39. The comment on \<^verbatim>\<open>messageRsv\<close> says that one field suffices because control frames carry no RSV
  bits; but a control frame between the fragments of a compressed message clears it, and the rest of
  the message is then never inflated: whatever the decompressor, a compressed binary message that a
  ping interrupts is handed over as the raw deflate stream.
\<close>

theorem ping_inside_compressed_message:
  assumes "mid_message r" "currMessageOpCode r = OpBinary" "messageRsv r = 4" "IsCompressOnSafe r"
    and "length m = 4" "length p \<le> 125" "frags_ok fs" "fs \<noteq> []"
  shows "\<exists>r'. decode inflate r (client_frame True 0 OpPing m p @ rest) = (DMsg p, r', rest) \<and>
     fst (decode inflate (resetCurrMessage r') (cont_frames fs @ rest'))
       = DMsg (concat (currMessagePayload r) @ concat (map snd fs))"
proof -
  let ?r = "r\<lparr>messageRsv := 0\<rparr>"
  obtain r' where r': "decode inflate r (client_frame True 0 OpPing m p @ rest) = (DMsg p, r', rest)"
      "resetCurrMessage r' = ?r"
    using decode_control [OF assms(1) _ assms(5,6), of OpPing inflate rest] assms(1)
      resetCurrMessage_saved [of r, where op = OpPing and p = p] mid_message_noOp [OF assms(1)]
    by (auto simp: mid_message_def)
  have "decode inflate ?r (cont_frames fs @ rest') =
      finish inflate (?r\<lparr>currMessagePayload := currMessagePayload ?r @ map snd fs\<rparr>) rest'"
    using assms(1,7,8) by (intro decode_conts) (auto simp: mid_message_def)
  also have "fst \<dots> = DMsg (concat (currMessagePayload r) @ concat (map snd fs))"
    by (subst finish_data [where op = OpBinary]) (simp_all add: assms(2) op_defs)
  finally show ?thesis using r' by auto
qed

definition sample_deflated :: codec where
  "sample_deflated = setCompression True (newCodec\<lparr>currMessageOpCode := OpBinary, currMessagePayload := [[1]], messageRsv := 4\<rparr>)"

theorem ping_inside_compressed_message_witness:
  "\<exists>r'. decode (\<lambda>_. None) sample_deflated (client_frame True 0 OpPing [0, 0, 0, 0] [] @ []) = (DMsg [], r', []) \<and>
     fst (decode (\<lambda>_. None) (resetCurrMessage r') (cont_frames [([0, 0, 0, 0], [2])] @ []))
       = DMsg (concat (currMessagePayload sample_deflated) @ concat (map snd [([0, 0, 0, 0] :: bytes, [2])]))"
  by (rule ping_inside_compressed_message)
    (simp_all add: sample_deflated_def mid_message_def newCodec_def frags_ok_def setCompression_def IsCompressOnSafe_def)



end
