(* ===== verification/UniqIdGen.thy ===== *)
theory UniqIdGen
  imports Prelude
begin

text \<open>
  The generator of connection ids, \<^verbatim>\<open>src/internal/wsServer/uniqIdGen/uniqIdGen.go\<close>: a 28 digit
  hexadecimal string (ip, port, timestamp, counter) and the 64-bit id that the registries use as the
  key of a connection. The counter \<^verbatim>\<open>incrId\<close> is the state; its random start
  (\<^verbatim>\<open>readRandomUint32\<close>) is an arbitrary word. The lemmas give the round trip that the comment of
  \<^verbatim>\<open>New\<close> documents (\<^verbatim>\<open>unpack('Nip/nport/Ntimestamp/NincrId', pack('H*', ...))\<close>) and that ids do not
  repeat within a turn of the counter.
\<close>

section \<open>The generator\<close>

definition hexDigits :: string where "hexDigits = ''0123456789abcdef''"

definition encodeByte :: "u8 \<Rightarrow> string" where
  "encodeByte b = [hexDigits ! unat (drop_bit 4 b), hexDigits ! unat (b AND 15)]"

text \<open>
  \<^verbatim>\<open>init\<close>: the template of the bytes 12 to 15 of the parsed ip and of the port, in hexadecimal.
  \<^verbatim>\<open>hex.Encode\<close> writes two digits per byte.
\<close>

definition templateHex :: "bytes \<Rightarrow> int \<Rightarrow> string" where
  "templateHex ip port =
     concat (map encodeByte (PutUint32 (Uint32 (drop 12 ip)) @ PutUint16 (of_int port)))"

definition encodeUint32ToHex :: "u32 \<Rightarrow> string" where
  "encodeUint32ToHex val = concat (map (\<lambda>i. let b = ucast (drop_bit (24 - i * 8) val) :: u8
     in [hexDigits ! unat (drop_bit 4 b), hexDigits ! unat (b AND 15)]) [0..<4])"

text \<open>\<^verbatim>\<open>New\<close> at the time \<open>timestamp\<close>, with the counter as state.\<close>

definition NewId :: "string \<Rightarrow> int \<Rightarrow> u32 \<Rightarrow> (string \<times> u64) \<times> u32" where
  "NewId template timestamp incrId =
     (let incr = incrId + 1
      in ((template @ encodeUint32ToHex (of_int timestamp) @ encodeUint32ToHex incr,
           push_bit 32 (of_int timestamp) OR ucast incr), incr))"

section \<open>Reading an id back\<close>

definition hexVal :: "char \<Rightarrow> u8" where
  "hexVal c = (if of_char c < (58 :: nat) then of_char c - 48 else of_char c - 87)"

fun packH :: "string \<Rightarrow> bytes" where
  "packH (x # y # r) = (push_bit 4 (hexVal x) OR hexVal y) # packH r"
| "packH _ = []"

text \<open>\<^verbatim>\<open>unpack('Nip/nport/Ntimestamp/NincrId', pack('H*', uniqId))\<close>.\<close>

definition decodeUniqId :: "string \<Rightarrow> u32 \<times> u16 \<times> u32 \<times> u32" where
  "decodeUniqId s = (let b = packH s
     in (Uint32 b, Uint16 (drop 4 b), Uint32 (drop 6 b), Uint32 (drop 10 b)))"

lemma hexVal_digit: "n < 16 \<Longrightarrow> hexVal (hexDigits ! n) = of_nat n"
proof -
  have "\<forall>n \<in> set [0..<16]. hexVal (hexDigits ! n) = of_nat n"
    by (simp add: upt_rec hexDigits_def hexVal_def)
  then show "n < 16 \<Longrightarrow> ?thesis" by simp
qed

lemma byte_halves:
  fixes b :: u8
  shows "unat (drop_bit 4 b) < 16" "unat (b AND 15) < 16" "push_bit 4 (drop_bit 4 b) OR (b AND 15) = b"
proof -
  have "unat (drop_bit 4 b) = unat b div 16"
    by (simp only: unat_drop_bit_eq) (simp add: drop_bit_eq_div)
  then show "unat (drop_bit 4 b) < 16" using unat_u8_lt [of b] by simp
  have 15: "(15 :: u8) = mask 4" by (simp add: mask_eq_exp_minus_1)
  have "unat (take_bit 4 b) = take_bit 4 (unat b)" by (simp add: unsigned_take_bit_eq)
  also have "\<dots> < 16" using take_bit_nat_less_exp [of 4 "unat b"] by simp
  finally show "unat (b AND 15) < 16" by (simp add: 15 flip: take_bit_eq_mask)
  show "push_bit 4 (drop_bit 4 b) OR (b AND 15) = b"
    unfolding 15 by (rule bit_word_eqI) (auto simp: bit_simps)
qed

lemma packH_encode: "packH (encodeByte b @ s) = b # packH s"
  by (simp add: encodeByte_def hexVal_digit byte_halves)

lemma packH_encode_all: "packH (concat (map encodeByte bs) @ s) = bs @ packH s"
  by (induction bs) (simp_all add: packH_encode)

lemma ucast_byte_mod: "(of_nat (m mod 256) :: u8) = of_nat m"
  by (simp add: word_unat_eq_iff unsigned_of_nat take_bit_eq_mod)

lemma ucast_drop_bit: "(ucast (drop_bit k (w :: u32)) :: u8) = of_nat (unat w div 2 ^ k)"
proof -
  have "unat (ucast (drop_bit k w) :: u8) = unat (of_nat (unat w div 2 ^ k) :: u8)"
    by (simp only: unsigned_ucast_eq unat_drop_bit_eq unsigned_of_nat) (simp add: drop_bit_eq_div)
  then show ?thesis by (simp only: word_unat_eq_iff)
qed

lemma PutUint32_list:
  "PutUint32 w = map (\<lambda>i. ucast (drop_bit (24 - i * 8) w) :: u8) [0..<4]"
proof -
  have 4: "(4 :: nat) = Suc (Suc (Suc (Suc 0)))" by simp
  have "be_bytes 4 v = [of_nat (v div 2 ^ 24), of_nat (v div 2 ^ 16), of_nat (v div 2 ^ 8), of_nat v]" for v
    unfolding 4 be_bytes.simps by (simp add: ucast_byte_mod flip: div_mult2_eq)
  then show ?thesis
    unfolding PutUint32_def ucast_drop_bit by (simp add: upt_rec)
qed

lemma encodeUint32_bytes: "encodeUint32ToHex w = concat (map encodeByte (PutUint32 w))"
  by (simp add: encodeUint32ToHex_def PutUint32_list encodeByte_def comp_def Let_def)

lemma length_encodeUint32 [simp]: "length (encodeUint32ToHex w) = 8"
  by (simp add: encodeUint32ToHex_def Let_def upt_rec)

lemma length_templateHex [simp]: "length (templateHex ip port) = 12"
  by (simp add: templateHex_def encodeByte_def length_concat comp_def sum_list_triv)

lemma decode_NewId:
  "decodeUniqId (fst (fst (NewId (templateHex ip port) ts n)))
   = (Uint32 (drop 12 ip), of_int port, of_int ts, n + 1)"
proof -
  have "packH (fst (fst (NewId (templateHex ip port) ts n)))
        = PutUint32 (Uint32 (drop 12 ip)) @ PutUint16 (of_int port) @ PutUint32 (of_int ts) @ PutUint32 (n + 1) @ []"
    using packH_encode_all [of "PutUint32 (n + 1)" "[]"]
    by (simp only: NewId_def templateHex_def encodeUint32_bytes Let_def fst_conv append_assoc
        packH_encode_all append_Nil2 packH.simps)
  then show ?thesis by (simp add: decodeUniqId_def Let_def del: append_Nil2)
qed

lemma encodeUint32_inj: "encodeUint32ToHex a = encodeUint32ToHex b \<longleftrightarrow> a = b"
proof
  assume eq: "encodeUint32ToHex a = encodeUint32ToHex b"
  have "packH (encodeUint32ToHex w @ []) = PutUint32 w @ []" for w
    unfolding encodeUint32_bytes packH_encode_all by simp
  then have "PutUint32 a @ [] = PutUint32 b @ []" using eq by metis
  then show "a = b" by (metis Uint32_Put)
qed simp

text \<open>The 64-bit id carries the same timestamp and counter as the string.\<close>

lemma id_fields:
  fixes t :: u64 and n :: u32
  shows "ucast (push_bit 32 t OR ucast n) = n" "ucast (drop_bit 32 (push_bit 32 t OR ucast n)) = (ucast t :: u32)"
  by (rule bit_word_eqI; auto simp: bit_simps dest: bit_imp_le_length)+

lemma id_eq_iff:
  fixes t t' :: u64 and n n' :: u32
  shows "push_bit 32 t OR ucast n = push_bit 32 t' OR ucast n' \<longleftrightarrow> (ucast t :: u32) = ucast t' \<and> n = n'"
proof
  assume "push_bit 32 t OR ucast n = push_bit 32 t' OR ucast n'"
  then show "(ucast t :: u32) = ucast t' \<and> n = n'" by (metis id_fields)
next
  assume eq: "(ucast t :: u32) = ucast t' \<and> n = n'"
  have "push_bit 32 t = push_bit 32 t'"
  proof (rule bit_word_eqI)
    fix k assume "k < LENGTH(64)"
    moreover have "bit t j = bit t' j" if "j < 32" for j
    proof -
      have "bit (ucast t :: u32) j = bit (ucast t' :: u32) j" using eq by simp
      then show ?thesis using that by (simp add: bit_simps)
    qed
    ultimately show "bit (push_bit 32 t) k = bit (push_bit 32 t') k" by (auto simp: bit_simps)
  qed
  with eq show "push_bit 32 t OR ucast n = push_bit 32 t' OR ucast n'" by simp
qed

text \<open>The \<open>k\<close>-th call after a state of the counter.\<close>

fun NewIds :: "string \<Rightarrow> int list \<Rightarrow> u32 \<Rightarrow> (string \<times> u64) list" where
  "NewIds template [] incrId = []"
| "NewIds template (now # nows) incrId =
     (let (p, incrId') = NewId template now incrId in p # NewIds template nows incrId')"

lemma length_NewIds [simp]: "length (NewIds tp nows n) = length nows"
  by (induction nows arbitrary: n) (auto simp: case_prod_unfold Let_def)

lemma NewIds_nth:
  "k < length nows \<Longrightarrow> NewIds tp nows n ! k =
     (tp @ encodeUint32ToHex (of_int (nows ! k)) @ encodeUint32ToHex (n + of_nat k + 1),
      push_bit 32 (of_int (nows ! k)) OR ucast (n + of_nat k + 1))"
proof (induction nows arbitrary: n k)
  case (Cons a nows)
  then show ?case by (cases k) (simp_all add: NewId_def Let_def ac_simps)
qed simp

lemma counter_distinct:
  assumes "i < j" "j - i < 2 ^ 32"
  shows "(n :: u32) + of_nat i + 1 \<noteq> n + of_nat j + 1"
proof
  assume "n + of_nat i + 1 = n + of_nat j + 1"
  then have "(of_nat (j - i) :: u32) = 0" using assms(1) by (simp add: of_nat_diff)
  then have "unat (of_nat (j - i) :: u32) = 0" by (simp only: unsigned_0)
  moreover have "unat (of_nat (j - i) :: u32) = j - i" using assms(2) by (intro unat_of_nat_small) simp
  ultimately show False using assms(1) by simp
qed

text \<open>
  Round trip of connection ids: unpacking the hexadecimal string that \<^verbatim>\<open>New\<close> returns, as the comment in the source shows
  it, gives back the worker's IPv4 address and port, the time of the call and the counter, each at its width.
\<close>

theorem uniqId_roundtrip:
  "decodeUniqId (fst (fst (NewId (templateHex ip port) now incr))) = (Uint32 (drop 12 ip), of_int port, of_int now, incr + 1)"
  by (rule decode_NewId)

text \<open>
  Two calls of \<^verbatim>\<open>New\<close> with fewer than \<open>2 ^ 32\<close> calls between them return different strings and different 64-bit ids,
  whatever the clock does.
\<close>

theorem uniqIds_distinct:
  assumes "i < j" "j < length nows" "j - i < 2 ^ 32"
  shows "fst (NewIds tp nows incr ! i) \<noteq> fst (NewIds tp nows incr ! j) \<and> snd (NewIds tp nows incr ! i) \<noteq> snd (NewIds tp nows incr ! j)"
proof -
  have i: "i < length nows" using assms(1,2) by simp
  note ne = counter_distinct [OF assms(1,3), of incr]
  show ?thesis
    unfolding NewIds_nth [OF i] NewIds_nth [OF assms(2)] fst_conv snd_conv id_eq_iff
    using ne by (simp add: append_eq_append_conv encodeUint32_inj)
qed

theorem uniqIds_distinct_witness:
  "fst (NewIds ''x'' [5, 5, 4] 0 ! 0) \<noteq> fst (NewIds ''x'' [5, 5, 4] 0 ! 2)"
  using uniqIds_distinct [of 0 2 "[5, 5, 4]" "''x''" 0] by simp

end
