(* ===== verification/Metrics.thy ===== *)
theory Metrics
  imports Prelude
begin

text \<open>
  Service statistics (\<^verbatim>\<open>src/internal/metrics/metrics.go\<close>, \<^verbatim>\<open>status.go\<close>) and the event rate limiters
  (\<^verbatim>\<open>src/internal/limit\<close>). Of a meter of the go-metrics package only the event count is kept: the
  moving averages are floating-point values that no code of the gateway reads. The token bucket
  \<^verbatim>\<open>rate.Limiter\<close> of \<^verbatim>\<open>golang.org/x/time/rate\<close> is a parameter: a record of its operations on an
  arbitrary state type.
\<close>

section \<open>Metrics\<close>

datatype Item =
    ItemCustomerConnOpenCount | ItemCustomerConnCloseCount | ItemCustomerHeartbeatCount
  | ItemWorkerToBusinessSucceedCount | ItemWorkerToBusinessSucceedByte
  | ItemCustomerWriteCount | ItemCustomerWriteByte
  | ItemOpenRateLimitCount | ItemMessageRateLimitCount
  | ItemWorkerToBusinessFailedCount
  | ItemCustomerWriteFailedCount | ItemCustomerWriteFailedByte
  | ItemConnectionMessageRateLimitCount
  | ItemRedisQueueToBusinessSucceedCount | ItemRedisQueueToBusinessSucceedByte
  | ItemRedisQueueToBusinessFailedCount
  | ItemCallbackToBusinessSucceedCount | ItemCallbackToBusinessSucceedByte
  | ItemCallbackToBusinessFailedCount
  | ItemAMQP091ToBusinessSucceedCount | ItemAMQP091ToBusinessSucceedByte
  | ItemAMQP091ToBusinessFailedCount

text \<open>The items in the order of \<^verbatim>\<open>iota + 1\<close>; the number of an item is its position plus one.\<close>

definition allItems :: "Item list" where
  "allItems =
     [ItemCustomerConnOpenCount, ItemCustomerConnCloseCount, ItemCustomerHeartbeatCount,
      ItemWorkerToBusinessSucceedCount, ItemWorkerToBusinessSucceedByte,
      ItemCustomerWriteCount, ItemCustomerWriteByte,
      ItemOpenRateLimitCount, ItemMessageRateLimitCount,
      ItemWorkerToBusinessFailedCount,
      ItemCustomerWriteFailedCount, ItemCustomerWriteFailedByte,
      ItemConnectionMessageRateLimitCount,
      ItemRedisQueueToBusinessSucceedCount, ItemRedisQueueToBusinessSucceedByte,
      ItemRedisQueueToBusinessFailedCount,
      ItemCallbackToBusinessSucceedCount, ItemCallbackToBusinessSucceedByte,
      ItemCallbackToBusinessFailedCount,
      ItemAMQP091ToBusinessSucceedCount, ItemAMQP091ToBusinessSucceedByte,
      ItemAMQP091ToBusinessFailedCount]"

definition itemNo :: "Item \<Rightarrow> nat" where
  "itemNo i = Suc (length (takeWhile (\<lambda>j. j \<noteq> i) allItems))"

datatype Meter = NilMeter | StandardMeter int

definition Meter_Mark :: "int \<Rightarrow> Meter \<Rightarrow> Meter" where
  "Meter_Mark n m = (case m of NilMeter \<Rightarrow> NilMeter | StandardMeter c \<Rightarrow> StandardMeter (c + n))"

text \<open>\<^verbatim>\<open>Registry\<close>, without the nil element 0.\<close>

type_synonym metricsRegistry = "Item \<Rightarrow> Meter"

definition Metrics_init :: "int list option \<Rightarrow> metricsRegistry" where
  "Metrics_init configItem item =
     (let inMetricsItem = (case configItem of None \<Rightarrow> False | Some vs \<Rightarrow> list_ex (\<lambda>v. v = int (itemNo item)) vs)
      in if inMetricsItem then StandardMeter 0 else NilMeter)"

text \<open>\<^verbatim>\<open>metrics.Registry[item].Meter.Mark(n)\<close>.\<close>

definition Mark :: "Item \<Rightarrow> int \<Rightarrow> metricsRegistry \<Rightarrow> metricsRegistry" where
  "Mark item n reg = reg(item := Meter_Mark n (reg item))"

record MetricsRespItem =
  mItem :: i32
  mCount :: int

definition ToStatusResp :: "Item \<Rightarrow> Meter \<Rightarrow> MetricsRespItem option" where
  "ToStatusResp item m = (case m of
      NilMeter \<Rightarrow> None
    | StandardMeter c \<Rightarrow> Some \<lparr>mItem = of_nat (itemNo item), mCount = c\<rparr>)"

definition meterCount :: "Meter \<Rightarrow> int" where
  "meterCount m = (case m of NilMeter \<Rightarrow> 0 | StandardMeter c \<Rightarrow> c)"

lemma Mark_other [simp]: "i \<noteq> j \<Longrightarrow> Mark i n reg j = reg j"
  by (simp add: Mark_def)

lemma Mark_counts: "reg i \<noteq> NilMeter \<Longrightarrow> meterCount (Mark i n reg i) = meterCount (reg i) + n"
  by (simp add: Mark_def Meter_Mark_def meterCount_def split: Meter.splits)

lemma Mark_Nil [simp]: "Mark i n reg j = NilMeter \<longleftrightarrow> reg j = NilMeter"
  by (simp add: Mark_def Meter_Mark_def split: Meter.splits)

section \<open>Rate limiters\<close>

datatype Event = Event_Placeholder | Event_OnOpen | Event_OnClose | Event_OnMessage

definition eventNo :: "Event \<Rightarrow> nat" where
  "eventNo e = (case e of Event_Placeholder \<Rightarrow> 0 | Event_OnOpen \<Rightarrow> 1 | Event_OnClose \<Rightarrow> 2 | Event_OnMessage \<Rightarrow> 4)"

text \<open>The operations of \<^verbatim>\<open>rate.Limiter\<close> that the package uses; limits are whole numbers here.\<close>

record 'l rate_ops =
  NewLimiter :: "int \<Rightarrow> int \<Rightarrow> 'l"
  Limiter_Allow :: "int \<Rightarrow> 'l \<Rightarrow> bool \<times> 'l"
  Limiter_Limit :: "'l \<Rightarrow> int"
  Limiter_SetLimit :: "int \<Rightarrow> 'l \<Rightarrow> 'l"

text \<open>Documented: the limit of a new limiter and after \<^verbatim>\<open>SetLimit\<close> is the one given; \<^verbatim>\<open>Allow\<close> keeps it.\<close>

definition rate_laws :: "'l rate_ops \<Rightarrow> bool" where
  "rate_laws ops \<longleftrightarrow>
     (\<forall>v b. Limiter_Limit ops (NewLimiter ops v b) = v) \<and>
     (\<forall>v l. Limiter_Limit ops (Limiter_SetLimit ops v l) = v) \<and>
     (\<forall>now l. Limiter_Limit ops (snd (Limiter_Allow ops now l)) = Limiter_Limit ops l)"

text \<open>An element of the manager: absent (events without limiter), the empty shell, or a limiter.\<close>

datatype 'l limiter = noLimiter | nilLimit | rateLimiter 'l

type_synonym 'l limManager = "Event \<Rightarrow> 'l limiter"

definition limiter_Limit :: "'l rate_ops \<Rightarrow> 'l limiter \<Rightarrow> int" where
  "limiter_Limit ops x = (case x of rateLimiter l \<Rightarrow> Limiter_Limit ops l | _ \<Rightarrow> 0)"

definition limiter_SetLimit :: "'l rate_ops \<Rightarrow> int \<Rightarrow> 'l limiter \<Rightarrow> 'l limiter" where
  "limiter_SetLimit ops v x = (case x of rateLimiter l \<Rightarrow> rateLimiter (Limiter_SetLimit ops v l) | _ \<Rightarrow> x)"

text \<open>\<^verbatim>\<open>Manager.Allow\<close>; calling it for an event without limiter is a nil dereference, \<open>None\<close>.\<close>

definition Limit_Allow :: "'l rate_ops \<Rightarrow> int \<Rightarrow> Event \<Rightarrow> 'l limManager \<Rightarrow> (bool \<times> 'l limManager) option" where
  "Limit_Allow ops now event r = (case r event of
      noLimiter \<Rightarrow> None
    | nilLimit \<Rightarrow> Some (True, r)
    | rateLimiter l \<Rightarrow> (let (ok, l') = Limiter_Allow ops now l in Some (ok, r(event := rateLimiter l'))))"

definition Limit_init :: "'l rate_ops \<Rightarrow> int \<Rightarrow> int \<Rightarrow> 'l limManager" where
  "Limit_init ops onOpen onMessage = (\<lambda>_. noLimiter)
     (Event_OnOpen := (if onOpen > 0 then rateLimiter (NewLimiter ops onOpen onOpen) else nilLimit),
      Event_OnMessage := (if onMessage > 0 then rateLimiter (NewLimiter ops onMessage onMessage) else nilLimit))"

record LimitReq =
  limOnOpen :: int
  limOnMessage :: int

definition Limit_Update :: "'l rate_ops \<Rightarrow> LimitReq \<Rightarrow> 'l limManager \<Rightarrow> 'l limManager" where
  "Limit_Update ops payload r =
     (let r = (if limOnOpen payload > 0 \<and> limOnOpen payload \<noteq> limiter_Limit ops (r Event_OnOpen)
               then r(Event_OnOpen := limiter_SetLimit ops (limOnOpen payload) (r Event_OnOpen)) else r)
      in if limOnMessage payload > 0 \<and> limOnMessage payload \<noteq> limiter_Limit ops (r Event_OnMessage)
         then r(Event_OnMessage := limiter_SetLimit ops (limOnMessage payload) (r Event_OnMessage)) else r)"

definition Limit_Get :: "'l rate_ops \<Rightarrow> 'l limManager \<Rightarrow> LimitReq" where
  "Limit_Get ops r = \<lparr>limOnOpen = limiter_Limit ops (r Event_OnOpen),
     limOnMessage = limiter_Limit ops (r Event_OnMessage)\<rparr>"

text \<open>The limiters are in place for the two events for which the gateway asks them.\<close>

definition lim_ok :: "'l limManager \<Rightarrow> bool" where
  "lim_ok r \<longleftrightarrow> r Event_OnOpen \<noteq> noLimiter \<and> r Event_OnMessage \<noteq> noLimiter"

lemma lim_ok_init: "lim_ok (Limit_init ops a b)"
  by (simp add: lim_ok_def Limit_init_def)

lemma lim_ok_Update: "lim_ok r \<Longrightarrow> lim_ok (Limit_Update ops p r)"
  by (auto simp: lim_ok_def Limit_Update_def Let_def limiter_SetLimit_def split: limiter.splits)

lemma lim_ok_Allow: "lim_ok r \<Longrightarrow> Limit_Allow ops now e r = Some (b, r') \<Longrightarrow> lim_ok r'"
  by (auto simp: lim_ok_def Limit_Allow_def case_prod_unfold Let_def split: limiter.splits if_splits)

lemma Limit_Allow_total: "lim_ok r \<Longrightarrow> e \<in> {Event_OnOpen, Event_OnMessage} \<Longrightarrow> Limit_Allow ops now e r \<noteq> None"
  by (auto simp: lim_ok_def Limit_Allow_def case_prod_unfold Let_def split: limiter.splits)

text \<open>
  After an update the limit in force is the requested one where it was positive and a limiter is
  configured; a limiter switched off in the configuration stays off.
\<close>

lemma Limit_Update_limit:
  assumes "rate_laws ops"
  shows "limiter_Limit ops (Limit_Update ops p r Event_OnOpen)
         = (if limOnOpen p > 0 \<and> (\<exists>l. r Event_OnOpen = rateLimiter l) then limOnOpen p
            else limiter_Limit ops (r Event_OnOpen))"
    and "limiter_Limit ops (Limit_Update ops p r Event_OnMessage)
         = (if limOnMessage p > 0 \<and> (\<exists>l. r Event_OnMessage = rateLimiter l) then limOnMessage p
            else limiter_Limit ops (r Event_OnMessage))"
  using assms
  by (auto simp: Limit_Update_def Let_def limiter_SetLimit_def limiter_Limit_def rate_laws_def
      split: limiter.splits)

end
