(* ===== verification/Worker.thy ===== *)
theory Worker
  imports Packet UniqIdGen Metrics RingQueue
begin

text \<open>
  The connections to the business processes, \<^verbatim>\<open>src/internal/worker\<close>: the round-robin collections
  (\<^verbatim>\<open>collect.go\<close>), the manager with one collection per event (\<^verbatim>\<open>manager.go\<close>), a connection with its send
  queue (\<^verbatim>\<open>conn.go\<close>), the commands register and unregister and the read loop (\<^verbatim>\<open>process.go\<close>). The send
  queue is the abstract bounded FIFO that \<open>RingQueue\<close> shows the ring queue to refine. The coroutine that empties it
  is in \<open>WorkerSend\<close>.
\<close>

section \<open>Messages to the business processes\<close>

definition Cmd_ConnOpen :: cmd where "Cmd_ConnOpen = 900001001"
definition Cmd_ConnClose :: cmd where "Cmd_ConnClose = 900001002"
definition Cmd_Transfer :: cmd where "Cmd_Transfer = 900001003"
definition Cmd_Register :: cmd where "Cmd_Register = 900003001"
definition Cmd_Unregister :: cmd where "Cmd_Unregister = 900003002"

record ConnOpen =
  coUniqId :: string
  coRawQuery :: string
  coXForwardedFor :: string
  coXRealIp :: string
  coRemoteAddr :: string

record ConnClose =
  clUniqId :: string
  clCustomerId :: string
  clSession :: string
  clTopics :: "string list"

record Transfer =
  tfUniqId :: string
  tfCustomerId :: string
  tfSession :: string
  tfTopics :: "string list"
  tfData :: bytes

datatype RegisterRespCode = RegSuccess | RegUnmarshalError | RegInvalidEvent | RegDuplicateRegister

datatype message =
    MConnOpen ConnOpen | MConnClose ConnClose | MTransfer Transfer
  | MRegisterResp RegisterRespCode string | MUnRegisterResp

section \<open>Collections and manager\<close>

type_synonym wref = nat

record wcollect =
  cconn :: "wref list"
  cindex :: u32

record wconn =
  wconnId :: string
  wcloseLock :: bool
  wevents :: i32
  wsendCh :: "packet list"
  wsendClosed :: bool
  wsockClosed :: bool
  wcloseTimer :: bool
  wwire :: bytes

record workers =
  wheap :: "wref \<Rightarrow> wconn"
  wmgr :: "Event \<Rightarrow> wcollect"

definition collect_Get :: "wcollect \<Rightarrow> wref option \<times> wcollect" where
  "collect_Get r =
     (let index = cindex r + 1; r' = r\<lparr>cindex := index\<rparr>
      in if length (cconn r') = 0 then (None, r')
         else (Some (cconn r' ! unat (index mod of_nat (length (cconn r')))), r'))"

definition collect_Set :: "wref \<Rightarrow> wcollect \<Rightarrow> wcollect" where
  "collect_Set conn r =
     (let exist = list_ex (\<lambda>v. v = conn) (cconn r)
      in if \<not> exist then r\<lparr>cconn := cconn r @ [conn]\<rparr> else r)"

fun del_first :: "('a \<Rightarrow> bool) \<Rightarrow> 'a list \<Rightarrow> 'a list" where
  "del_first P [] = []"
| "del_first P (x # xs) = (if P x then xs else x # del_first P xs)"

definition collect_Del :: "(wref \<Rightarrow> wconn) \<Rightarrow> string \<Rightarrow> wcollect \<Rightarrow> bool \<times> wcollect" where
  "collect_Del H connId r =
     (if connId = '''' then (False, r)
      else (list_ex (\<lambda>v. wconnId (H v) = connId) (cconn r),
            r\<lparr>cconn := del_first (\<lambda>v. wconnId (H v) = connId) (cconn r)\<rparr>))"

text \<open>\<^verbatim>\<open>netsvrProtocol.Event_value\<close> without the placeholder; the order does not matter.\<close>

definition allEvents :: "Event list" where
  "allEvents = [Event_OnOpen, Event_OnClose, Event_OnMessage]"

text \<open>\<open>on\<close> says whether a listen address is configured.\<close>

definition WManager_Get :: "bool \<Rightarrow> Event \<Rightarrow> workers \<Rightarrow> wref option \<times> workers" where
  "WManager_Get on event w =
     (if \<not> on then (None, w)
      else let (c, col) = collect_Get (wmgr w event) in (c, w\<lparr>wmgr := (wmgr w)(event := col)\<rparr>))"

definition WManager_Set :: "wref \<Rightarrow> workers \<Rightarrow> workers" where
  "WManager_Set conn w =
     (let events = wevents (wheap w conn)
      in fold (\<lambda>v w. if events AND of_nat (eventNo v) = of_nat (eventNo v)
                     then w\<lparr>wmgr := (wmgr w)(v := collect_Set conn (wmgr w v))\<rparr> else w) allEvents w)"

definition WManager_Del :: "string \<Rightarrow> workers \<Rightarrow> bool \<times> workers" where
  "WManager_Del connId w =
     fold (\<lambda>v (ret, w). let (b, col) = collect_Del (wheap w) connId (wmgr w v)
                        in (if b then True else ret, w\<lparr>wmgr := (wmgr w)(v := col)\<rparr>)) allEvents (False, w)"

definition WManager_init :: "(Event \<Rightarrow> u32) \<Rightarrow> Event \<Rightarrow> wcollect" where
  "WManager_init rand = (\<lambda>v. \<lparr>cconn = [], cindex = rand v\<rparr>)"

section \<open>Connections\<close>

text \<open>\<^verbatim>\<open>newConnId\<close>: own ip and port, the peer's ip (bytes 12 to 15 of the parsed address) and port, the time.\<close>

definition newConnId :: "bytes \<Rightarrow> bytes \<Rightarrow> int \<Rightarrow> int \<Rightarrow> string" where
  "newConnId connIdTemplate ip port now =
     concat (map encodeByte
       (connIdTemplate @ PutUint32 (Uint32 (drop 12 ip)) @ PutUint16 (of_int port) @ PutUint32 (of_int now)))"

definition newConn :: "string \<Rightarrow> wconn" where
  "newConn connId = \<lparr>wconnId = connId, wcloseLock = False, wevents = 0, wsendCh = [], wsendClosed = False,
     wsockClosed = False, wcloseTimer = False, wwire = []\<rparr>"

definition WConn_Close :: "wref \<Rightarrow> workers \<Rightarrow> workers" where
  "WConn_Close r w =
     (if wcloseLock (wheap w r) then w
      else let w = w\<lparr>wheap := (wheap w)(r := (wheap w r)\<lparr>wcloseLock := True\<rparr>)\<rparr>;
               w = snd (WManager_Del (wconnId (wheap w r)) w)
           in w\<lparr>wheap := (wheap w)(r := (wheap w r)\<lparr>wsockClosed := True, wcloseTimer := True\<rparr>)\<rparr>)"

text \<open>The timer that \<^verbatim>\<open>Close\<close> starts: 100 ms later the send queue is closed.\<close>

definition WConn_timer :: "wref \<Rightarrow> workers \<Rightarrow> workers" where
  "WConn_timer r w = (if wcloseTimer (wheap w r)
     then w\<lparr>wheap := (wheap w)(r := (wheap w r)\<lparr>wsendClosed := True, wcloseTimer := False\<rparr>)\<rparr> else w)"

record worker_env =
  wmarshal :: "message \<Rightarrow> bytes option"
  SendChanCap :: int

text \<open>\<^verbatim>\<open>Conn.Send\<close>: encode, enqueue; a full or closed queue drops the message and counts a failure.\<close>

definition WConn_Send :: "worker_env \<Rightarrow> message \<Rightarrow> cmd \<Rightarrow> wref \<Rightarrow> workers \<times> metricsRegistry \<Rightarrow> workers \<times> metricsRegistry" where
  "WConn_Send env msg c r = (\<lambda>(w, reg).
     case packet_set (wmarshal env) msg c of
       None \<Rightarrow> (w, reg)
     | Some pkg \<Rightarrow>
         let k = wheap w r
         in if \<not> wsendClosed k \<and> length (wsendCh k) < New_capacity (SendChanCap env)
            then (w\<lparr>wheap := (wheap w)(r := k\<lparr>wsendCh := wsendCh k @ [pkg]\<rparr>)\<rparr>, reg)
            else (w, Mark ItemWorkerToBusinessFailedCount 1 reg))"

text \<open>
  What a write answers: the deadline cannot be set, everything is written, or an error comes after some bytes.
\<close>

datatype write_outcome = WDeadline | WOk | WErr nat

section \<open>Register and unregister\<close>

definition removeMetricsNoise :: "worker_env \<Rightarrow> message \<Rightarrow> metricsRegistry \<Rightarrow> metricsRegistry" where
  "removeMetricsNoise env msg reg =
     (let size = 8 + (case wmarshal env msg of Some b \<Rightarrow> length b | None \<Rightarrow> 0)
      in Mark ItemWorkerToBusinessSucceedByte (- int size) (Mark ItemWorkerToBusinessSucceedCount (- 1) reg))"

text \<open>The answer of both commands: send, then take it out of the statistics.\<close>

definition answer :: "worker_env \<Rightarrow> message \<Rightarrow> cmd \<Rightarrow> wref \<Rightarrow> workers \<times> metricsRegistry \<Rightarrow> workers \<times> metricsRegistry" where
  "answer env msg c r st = (let (w, reg) = WConn_Send env msg c r st in (w, removeMetricsNoise env msg reg))"

text \<open>\<open>payload\<close>: the events of the unmarshalled \<^verbatim>\<open>RegisterReq\<close>, \<open>None\<close> when unmarshalling failed.\<close>

definition register :: "worker_env \<Rightarrow> i32 option \<Rightarrow> wref \<Rightarrow> workers \<times> metricsRegistry \<Rightarrow> workers \<times> metricsRegistry" where
  "register env payload r st = (case payload of
      None \<Rightarrow> answer env (MRegisterResp RegUnmarshalError '''') Cmd_Register r st
    | Some events \<Rightarrow>
        if \<not> list_ex (\<lambda>v. events AND of_nat (eventNo v) = of_nat (eventNo v)) allEvents
        then answer env (MRegisterResp RegInvalidEvent '''') Cmd_Register r st
        else if sint (wevents (wheap (fst st) r)) > 0
        then answer env (MRegisterResp RegDuplicateRegister '''') Cmd_Register r st
        else let (w, reg) = st;
                 w = w\<lparr>wheap := (wheap w)(r := (wheap w r)\<lparr>wevents := events\<rparr>)\<rparr>;
                 (w, reg) = answer env (MRegisterResp RegSuccess (wconnId (wheap w r))) Cmd_Register r (w, reg)
             in (WManager_Set r w, reg))"

definition unregister :: "worker_env \<Rightarrow> string option \<Rightarrow> wref \<Rightarrow> workers \<times> metricsRegistry \<Rightarrow> workers \<times> metricsRegistry" where
  "unregister env payload r st = (case payload of
      None \<Rightarrow> st
    | Some connId \<Rightarrow>
        let (w, reg) = st; w = snd (WManager_Del connId w)
        in answer env MUnRegisterResp Cmd_Unregister r (w, reg))"

section \<open>The read loop\<close>

record worker_decode =
  uRegisterReq :: "bytes \<Rightarrow> i32 option"
  uUnRegisterReq :: "bytes \<Rightarrow> string option"

text \<open>
  \<^verbatim>\<open>process\<close> on the bytes the peer sends before it closes the connection: packets are handled until one
  is too large, has no or an unknown command, or the stream ends; then the connection is closed.
\<close>

function worker_process :: "worker_env \<Rightarrow> worker_decode \<Rightarrow> u32 \<Rightarrow> bytes \<Rightarrow> wref \<Rightarrow> bytes \<Rightarrow>
    workers \<times> metricsRegistry \<Rightarrow> workers \<times> metricsRegistry" where
  "worker_process env dec limit heartbeat r buf st =
     (let stop = (\<lambda>st. (WConn_Close r (fst st), snd st))
      in case read_packet limit buf of
           Starved \<Rightarrow> stop st
         | Oversize \<Rightarrow> stop st
         | Data d rest \<Rightarrow> (case classify heartbeat d of
               Heartbeat \<Rightarrow> worker_process env dec limit heartbeat r rest st
             | NoCmd \<Rightarrow> stop st
             | Command c body \<Rightarrow>
                 if c = Cmd_Register
                 then worker_process env dec limit heartbeat r rest (register env (uRegisterReq dec body) r st)
                 else if c = Cmd_Unregister
                 then worker_process env dec limit heartbeat r rest (unregister env (uUnRegisterReq dec body) r st)
                 else stop st))"
  by pat_completeness auto
termination
  by (relation "measure (\<lambda>(_, _, _, _, _, buf, _). length buf)") (auto dest: read_packet_shorter)

declare worker_process.simps [simp del]

section \<open>Round robin\<close>

fun collect_Gets :: "nat \<Rightarrow> wcollect \<Rightarrow> wref option list" where
  "collect_Gets 0 r = []"
| "collect_Gets (Suc n) r = (let (c, r') = collect_Get r in c # collect_Gets n r')"

lemma collect_Get_nth:
  assumes "cconn r \<noteq> []" "unat (cindex r) + 1 < 2 ^ 32" "length (cconn r) < 2 ^ 32"
  shows "collect_Get r = (Some (cconn r ! ((unat (cindex r) + 1) mod length (cconn r))), r\<lparr>cindex := cindex r + 1\<rparr>)"
proof -
  have "unat (cindex r + 1) = unat (cindex r) + 1"
    using assms(2) by (simp add: unat_word_ariths)
  moreover have "unat (of_nat (length (cconn r)) :: u32) = length (cconn r)"
    using assms(3) by (intro unat_of_nat_small) simp
  ultimately have "unat ((cindex r + 1) mod of_nat (length (cconn r))) = (unat (cindex r) + 1) mod length (cconn r)"
    by (simp only: unat_mod_distrib)
  then show ?thesis using assms(1) by (simp add: collect_Get_def Let_def)
qed

lemma collect_Gets_nth:
  assumes "cconn r \<noteq> []" "length (cconn r) < 2 ^ 32" "unat (cindex r) + n < 2 ^ 32"
  shows "collect_Gets n r = map (\<lambda>j. Some (cconn r ! ((unat (cindex r) + 1 + j) mod length (cconn r)))) [0..<n]"
  using assms
proof (induction n arbitrary: r)
  case (Suc n)
  have u: "unat (cindex r + 1) = unat (cindex r) + 1"
    using Suc.prems(3) by (simp add: unat_word_ariths)
  let ?r = "r\<lparr>cindex := cindex r + 1\<rparr>"
  have "collect_Gets n ?r = map (\<lambda>j. Some (cconn ?r ! ((unat (cindex ?r) + 1 + j) mod length (cconn ?r)))) [0..<n]"
    by (rule Suc.IH) (use Suc.prems u in simp_all)
  then have "collect_Gets n ?r = map (\<lambda>j. Some (cconn r ! ((unat (cindex r) + 1 + Suc j) mod length (cconn r)))) [0..<n]"
    using u by simp
  moreover have "collect_Get r = (Some (cconn r ! ((unat (cindex r) + 1) mod length (cconn r))), ?r)"
    by (rule collect_Get_nth) (use Suc.prems in simp_all)
  moreover have "[0..<Suc n] = 0 # map Suc [0..<n]" by (metis map_Suc_upt upt_conv_Cons zero_less_Suc)
  ultimately show ?case by (simp add: comp_def del: upt_Suc)
qed simp

lemma mset_rotate: "mset (rotate m xs) = mset xs"
  by (metis rotate_drop_take mset_append union_commute append_take_drop_id)

lemma collect_Gets_round:
  assumes "cconn r \<noteq> []" "length (cconn r) < 2 ^ 32" "unat (cindex r) + length (cconn r) < 2 ^ 32"
  shows "collect_Gets (length (cconn r)) r = map Some (rotate (unat (cindex r) + 1) (cconn r))"
proof (rule nth_equalityI)
  fix i assume "i < length (collect_Gets (length (cconn r)) r)"
  then have i: "i < length (cconn r)" using collect_Gets_nth [OF assms] by simp
  show "collect_Gets (length (cconn r)) r ! i = map Some (rotate (unat (cindex r) + 1) (cconn r)) ! i"
    using collect_Gets_nth [OF assms] nth_rotate [OF i, of "unat (cindex r) + 1"] i
    by (simp del: rotate_Suc)
qed (simp add: collect_Gets_nth [OF assms])

section \<open>Registration\<close>

definition registered :: "wref \<Rightarrow> workers \<Rightarrow> Event \<Rightarrow> bool" where
  "registered r w v \<longleftrightarrow> r \<in> set (cconn (wmgr w v))"

definition wants :: "i32 \<Rightarrow> Event \<Rightarrow> bool" where
  "wants events v \<longleftrightarrow> v \<in> set allEvents \<and> events AND of_nat (eventNo v) = of_nat (eventNo v)"

lemma set_collect_Set: "set (cconn (collect_Set c r)) = insert c (set (cconn r))"
  by (auto simp: collect_Set_def list_ex_iff)

lemma distinct_collect_Set: "distinct (cconn r) \<Longrightarrow> distinct (cconn (collect_Set c r))"
  by (auto simp: collect_Set_def list_ex_iff)

lemma WManager_Set_registered:
  "registered c (WManager_Set r w) v \<longleftrightarrow> registered c w v \<or> c = r \<and> wants (wevents (wheap w r)) v"
  "wheap (WManager_Set r w) = wheap w"
  by (cases v; auto simp: WManager_Set_def registered_def wants_def allEvents_def set_collect_Set Let_def)
    (simp add: WManager_Set_def allEvents_def Let_def)

lemma set_del_first: "distinct xs \<Longrightarrow> inj_on f (set xs) \<Longrightarrow>
   set (del_first (\<lambda>x. f x = k) xs) = {x \<in> set xs. f x \<noteq> k}"
  by (induction xs) (auto, metis imageI)

lemma set_del_first_sub: "set (del_first P xs) \<subseteq> set xs"
  by (induction xs) auto

lemma WManager_Del_eq:
  "snd (WManager_Del connId w) = w\<lparr>wmgr := (\<lambda>v. if v \<in> set allEvents
     then snd (collect_Del (wheap w) connId (wmgr w v)) else wmgr w v)\<rparr>"
  by (simp add: WManager_Del_def allEvents_def case_prod_unfold Let_def fun_eq_iff)

text \<open>Collections without duplicates whose members have distinct connection ids.\<close>

definition workers_wf :: "workers \<Rightarrow> bool" where
  "workers_wf w \<longleftrightarrow> (\<forall>v. distinct (cconn (wmgr w v)) \<and> inj_on (\<lambda>c. wconnId (wheap w c)) (set (cconn (wmgr w v)))) \<and>
     cconn (wmgr w Event_Placeholder) = []"

lemma WManager_Del_registered:
  assumes "workers_wf w" "k \<noteq> ''''"
  shows "registered c (snd (WManager_Del k w)) v \<longleftrightarrow> registered c w v \<and> wconnId (wheap w c) \<noteq> k"
proof -
  have s: "set (del_first (\<lambda>v. wconnId (wheap w v) = k) (cconn (wmgr w v)))
      = {x \<in> set (cconn (wmgr w v)). wconnId (wheap w x) \<noteq> k}"
    using assms(1) by (intro set_del_first) (simp_all add: workers_wf_def)
  show ?thesis
  proof (cases v)
    case Event_Placeholder
    then show ?thesis
      using assms(1) by (simp add: WManager_Del_eq registered_def allEvents_def workers_wf_def)
  qed (use s assms(2) in \<open>simp_all add: WManager_Del_eq registered_def allEvents_def collect_Del_def\<close>)
qed

lemma WConn_Close_registered:
  assumes "workers_wf w" "wconnId (wheap w r) \<noteq> ''''" "\<not> wcloseLock (wheap w r)"
  shows "registered c (WConn_Close r w) v \<longleftrightarrow> registered c w v \<and> wconnId (wheap w c) \<noteq> wconnId (wheap w r)"
proof -
  let ?w = "w\<lparr>wheap := (wheap w)(r := (wheap w r)\<lparr>wcloseLock := True\<rparr>)\<rparr>"
  have id: "wconnId (wheap ?w c) = wconnId (wheap w c)" for c by simp
  have wf: "workers_wf ?w" using assms(1) unfolding workers_wf_def id by simp
  have "registered c (WConn_Close r w) v = registered c (snd (WManager_Del (wconnId (wheap ?w r)) ?w)) v"
    using assms(3) by (simp add: WConn_Close_def Let_def registered_def)
  also have "\<dots> \<longleftrightarrow> registered c ?w v \<and> wconnId (wheap ?w c) \<noteq> wconnId (wheap ?w r)"
    using assms(2) by (intro WManager_Del_registered [OF wf]) simp
  finally show ?thesis unfolding id by (simp add: registered_def)
qed

lemma WConn_Close_again: "wcloseLock (wheap w r) \<Longrightarrow> WConn_Close r w = w"
  by (simp add: WConn_Close_def)

lemma WConn_Close_heap:
  "\<not> wcloseLock (wheap w r) \<Longrightarrow> wheap (WConn_Close r w) =
     (wheap w)(r := (wheap w r)\<lparr>wcloseLock := True, wsockClosed := True, wcloseTimer := True\<rparr>)"
  by (simp add: WConn_Close_def Let_def WManager_Del_eq)

text \<open>Enqueueing never touches the collections.\<close>

lemma WConn_Send_mgr [simp]: "wmgr (fst (WConn_Send env m c r st)) = wmgr (fst st)"
  by (auto simp: WConn_Send_def Let_def case_prod_unfold split: option.splits)

lemma answer_mgr [simp]: "wmgr (fst (answer env m c r st)) = wmgr (fst st)"
  by (simp add: answer_def case_prod_unfold Let_def)

lemma WConn_Send_heap:
  "wheap (fst (WConn_Send env m c r st)) = (wheap (fst st))(r := (wheap (fst st) r)\<lparr>wsendCh :=
     (case packet_set (wmarshal env) m c of None \<Rightarrow> wsendCh (wheap (fst st) r)
      | Some p \<Rightarrow> if \<not> wsendClosed (wheap (fst st) r) \<and> length (wsendCh (wheap (fst st) r)) < New_capacity (SendChanCap env)
                   then wsendCh (wheap (fst st) r) @ [p] else wsendCh (wheap (fst st) r))\<rparr>)"
  by (auto simp: WConn_Send_def Let_def case_prod_unfold split: option.splits)

lemma answer_heap: "wheap (fst (answer env m c r st)) = wheap (fst (WConn_Send env m c r st))"
  by (simp add: answer_def case_prod_unfold Let_def)

lemma register_success:
  assumes "list_ex (wants events) allEvents" "\<not> sint (wevents (wheap w r)) > 0"
  shows "fst (register env (Some events) r (w, reg)) = WManager_Set r
     (fst (answer env (MRegisterResp RegSuccess (wconnId (wheap w r))) Cmd_Register r
        (w\<lparr>wheap := (wheap w)(r := (wheap w r)\<lparr>wevents := events\<rparr>)\<rparr>, reg)))"
proof -
  have "list_ex (\<lambda>v. events AND of_nat (eventNo v) = of_nat (eventNo v)) allEvents"
    using assms(1) by (auto simp: list_ex_iff wants_def)
  then show ?thesis using assms(2) by (simp add: register_def case_prod_unfold Let_def)
qed

section \<open>Meters\<close>

lemma meterCount_Mark:
  "meterCount (Mark i n reg j) = (if i = j \<and> reg j \<noteq> NilMeter then meterCount (reg j) + n else meterCount (reg j))"
  using Mark_counts [of reg i n] by (cases "reg j") (auto simp: Mark_def Meter_Mark_def)

section \<open>Properties\<close>

text \<open>
  Round robin: as long as the 32-bit index does not wrap around, as many consecutive calls of
  \<^verbatim>\<open>collect.Get\<close> as there are registered workers return every worker exactly once.
\<close>

theorem round_robin_fair:
  assumes "cconn r \<noteq> []" "unat (cindex r) + length (cconn r) < 2 ^ 32"
  shows "mset (collect_Gets (length (cconn r)) r) = image_mset Some (mset (cconn r))"
proof -
  have "length (cconn r) < 2 ^ 32" using assms(2) by linarith
  then show ?thesis using collect_Gets_round [OF assms(1) _ assms(2)] mset_rotate by (metis mset_map)
qed

theorem round_robin_fair_witness:
  "mset (collect_Gets (length [5, 6, 7 :: nat]) \<lparr>cconn = [5, 6, 7], cindex = 9\<rparr>) = image_mset Some (mset [5, 6, 7])"
proof -
  have "unat (9 :: u32) + 3 < 2 ^ 32" by simp
  then show ?thesis using round_robin_fair [of "\<lparr>cconn = [5, 6, 7], cindex = 9\<rparr>"] by (simp del: collect_Gets.simps)
qed

lemma register_outcome:
  assumes "list_ex (wants events) allEvents" "wevents (wheap w r) = 0" "\<not> wsendClosed (wheap w r)"
    and "length (wsendCh (wheap w r)) < New_capacity (SendChanCap env)"
    and "packet_set (wmarshal env) (MRegisterResp RegSuccess (wconnId (wheap w r))) Cmd_Register = Some p"
    and "\<And>v. \<not> registered r w v"
  shows "wsendCh (wheap (fst (register env (Some events) r (w, reg))) r) = wsendCh (wheap w r) @ [p]"
    and "registered c (fst (register env (Some events) r (w, reg))) v \<longleftrightarrow>
      (if c = r then wants events v else registered c w v)"
proof -
  have nz: "\<not> sint (wevents (wheap w r)) > 0" using assms(2) by simp
  note rs = register_success [OF assms(1) nz, of env reg]
  show "wsendCh (wheap (fst (register env (Some events) r (w, reg))) r) = wsendCh (wheap w r) @ [p]"
    using assms(3-5) unfolding rs WManager_Set_registered(2) answer_heap WConn_Send_heap by simp
  show "registered c (fst (register env (Some events) r (w, reg))) v \<longleftrightarrow>
      (if c = r then wants events v else registered c w v)"
    unfolding rs WManager_Set_registered(1)
    using assms(6) by (simp add: answer_heap WConn_Send_heap registered_def)
qed

text \<open>
  Registration: a business connection that registers for some events gets the answer as the next
  packet of its queue before it is entered in the collections, and is then in the collections of
  exactly the events it asked for; other connections stay as they were.
\<close>

theorem register_enters_after_answer:
  assumes "list_ex (wants events) allEvents" "wevents (wheap w r) = 0" "\<not> wsendClosed (wheap w r)"
    and "length (wsendCh (wheap w r)) < New_capacity (SendChanCap env)"
    and "packet_set (wmarshal env) (MRegisterResp RegSuccess (wconnId (wheap w r))) Cmd_Register = Some p"
    and "\<And>v. \<not> registered r w v"
  shows "wsendCh (wheap (fst (register env (Some events) r (w, reg))) r) = wsendCh (wheap w r) @ [p] \<and>
    (registered c (fst (register env (Some events) r (w, reg))) v \<longleftrightarrow> (if c = r then wants events v else registered c w v))"
  using register_outcome [OF assms] by blast

definition sample_wenv :: worker_env where
  "sample_wenv = \<lparr>wmarshal = (\<lambda>_. Some [1]), SendChanCap = 4\<rparr>"

definition sample_workers :: workers where
  "sample_workers = \<lparr>wheap = (\<lambda>_. newConn ''w''), wmgr = WManager_init (\<lambda>_. 0)\<rparr>"

theorem register_enters_after_answer_witness:
  "wsendCh (wheap (fst (register sample_wenv (Some 5) 0 (sample_workers, Metrics_init None))) 0)
     = [\<lparr>pheader = PutUint32 5 @ PutUint32 Cmd_Register, pbody = [1]\<rparr>] \<and>
   (registered 0 (fst (register sample_wenv (Some 5) 0 (sample_workers, Metrics_init None))) Event_OnMessage \<longleftrightarrow> wants 5 Event_OnMessage)"
proof -
  let ?p = "\<lparr>pheader = PutUint32 5 @ PutUint32 Cmd_Register, pbody = [1]\<rparr>"
  have a: "list_ex (wants 5) allEvents" by (simp add: wants_def allEvents_def eventNo_def)
  have b: "wevents (wheap sample_workers 0) = 0" "\<not> wsendClosed (wheap sample_workers 0)"
      "length (wsendCh (wheap sample_workers 0)) < New_capacity (SendChanCap sample_wenv)"
    by (simp_all add: sample_workers_def newConn_def sample_wenv_def New_capacity_examples)
  have c: "packet_set (wmarshal sample_wenv) (MRegisterResp RegSuccess (wconnId (wheap sample_workers 0))) Cmd_Register = Some ?p"
    by (simp add: packet_set_def sample_wenv_def)
  have d: "\<not> registered 0 sample_workers v" for v
    by (simp add: registered_def sample_workers_def WManager_init_def)
  show ?thesis
    using register_enters_after_answer [OF a b c d, where reg = "Metrics_init None"]
    by (simp add: sample_workers_def newConn_def)
qed

text \<open>
  Closing a business connection takes it out of every collection, and only it: no event is handed
  to it afterwards, every other registered connection stays registered.
\<close>

theorem close_unregisters:
  assumes "workers_wf w" "wconnId (wheap w r) \<noteq> ''''" "\<not> wcloseLock (wheap w r)"
    and "\<And>c v. registered c w v \<Longrightarrow> wconnId (wheap w c) = wconnId (wheap w r) \<Longrightarrow> c = r"
  shows "registered c (WConn_Close r w) v \<longleftrightarrow> registered c w v \<and> c \<noteq> r"
  using WConn_Close_registered [OF assms(1-3)] assms(4) by blast

theorem close_unregisters_witness:
  "registered 0 (WConn_Close 0 (WManager_Set 0 (sample_workers\<lparr>wheap := (\<lambda>_. (newConn ''w'')\<lparr>wevents := 5\<rparr>)\<rparr>))) Event_OnOpen
     \<longleftrightarrow> registered 0 (WManager_Set 0 (sample_workers\<lparr>wheap := (\<lambda>_. (newConn ''w'')\<lparr>wevents := 5\<rparr>)\<rparr>)) Event_OnOpen \<and> (0 :: wref) \<noteq> 0"
proof (rule close_unregisters)
  let ?w = "sample_workers\<lparr>wheap := (\<lambda>_. (newConn ''w'')\<lparr>wevents := 5\<rparr>)\<rparr>"
  have none: "\<not> registered c ?w v" for c v by (simp add: registered_def sample_workers_def WManager_init_def)
  then show "c = 0" if "registered c (WManager_Set 0 ?w) v" for c v
    using that WManager_Set_registered(1) [of c 0 ?w v] by blast
  show "workers_wf (WManager_Set 0 ?w)"
    by (simp add: workers_wf_def WManager_Set_def allEvents_def Let_def sample_workers_def WManager_init_def
        collect_Set_def newConn_def eventNo_def)
qed (simp_all add: WManager_Set_registered(2) newConn_def)

text \<open>
  C38. A connection that the send coroutine has closed, but whose register command the read coroutine
  handles afterwards, is entered in the collections for good: a further \<^verbatim>\<open>Close\<close> returns at the lock and
  does not remove it, so the gateway goes on handing events to a closed connection.
\<close>

theorem register_after_close_stays:
  assumes "list_ex (wants events) allEvents" "wevents (wheap w r) = 0" "\<not> wcloseLock (wheap w r)"
  shows "\<exists>v. registered r (WConn_Close r (fst (register env (Some events) r (WConn_Close r w, reg)))) v"
proof -
  let ?w = "WConn_Close r w"
  have h: "wevents (wheap ?w r) = 0" "wcloseLock (wheap ?w r)"
    using assms(2,3) by (simp_all add: WConn_Close_heap)
  then have nz: "\<not> sint (wevents (wheap ?w r)) > 0" by simp
  note rs = register_success [OF assms(1) nz, of env reg]
  let ?w2 = "fst (register env (Some events) r (?w, reg))"
  have "wcloseLock (wheap ?w2 r)"
    unfolding rs WManager_Set_registered(2) answer_heap WConn_Send_heap using h by simp
  then have same: "WConn_Close r ?w2 = ?w2" by (rule WConn_Close_again)
  obtain v where v: "wants events v" using assms(1) by (auto simp: list_ex_iff)
  then have "registered r ?w2 v"
    unfolding rs WManager_Set_registered(1) by (simp add: answer_heap WConn_Send_heap)
  then show ?thesis unfolding same ..
qed

theorem register_after_close_stays_witness:
  "\<exists>v. registered 0 (WConn_Close 0 (fst (register sample_wenv (Some 5) 0 (WConn_Close 0 sample_workers, Metrics_init None)))) v"
  by (rule register_after_close_stays)
    (simp_all add: wants_def allEvents_def eventNo_def sample_workers_def newConn_def)

end
