(* ===== verification/Gateway.thy ===== *)
theory Gateway
  imports Topic Binder ConnManager ConnInfo Codec Worker
begin

text \<open>
  The state of the gateway process and what every component does with it: writing frames to clients
  (\<^verbatim>\<open>src/internal/customer/frame.go\<close>, \<^verbatim>\<open>func.go\<close>), calling back the business over HTTP
  (\<^verbatim>\<open>src/internal/callback/callback.go\<close>) and handing events to the sinks. A connection is a pointer into
  \<open>heap\<close>, as the Go code shares \<^verbatim>\<open>*wsServer.Conn\<close> between its registries. Pool tasks
  (\<^verbatim>\<open>goroutine.DefaultWorkerPool.Submit\<close>) and timers are lists of what is still to run. Whether the
  event loop takes the next \<^verbatim>\<open>AsyncWrite\<close>, what HTTP and the compressor answer, and the protobuf
  serialization are parameters, collected in \<open>env\<close> with the configuration.
\<close>

section \<open>State and environment\<close>

record conn =
  ccodec :: codec
  cinfo :: info

record httpReq =
  RawQuery :: string
  XForwardedFor :: string
  XRealIp :: string
  RemoteAddr :: string

record ConnOpenResp =
  orAllow :: bool
  orNewSession :: string
  orNewCustomerId :: string
  orNewTopics :: "string list"
  orData :: bytes

record ForceOfflineGuest =
  fgUniqIds :: "string list"
  fgDelay :: int
  fgData :: bytes

text \<open>
  What is still to run: the closure of \<^verbatim>\<open>OnWebsocketOpen\<close> in its three sections (before the callback, with the
  callback's answer, before the registration), the closures of \<^verbatim>\<open>OnWebsocketClose\<close> and \<^verbatim>\<open>OnWebsocketMessage\<close>.
\<close>

datatype task =
    TOpen cref httpReq
  | TAnswer cref ConnOpen "string + ConnOpenResp"
  | TReg cref ConnOpen "ConnOpenResp option"
  | TClose ConnClose
  | TMsg cref bytes bool

datatype timerReq = CloseIn2s cref | HeartbeatEvery cref | GuestIn int ForceOfflineGuest

datatype sink = SinkAmqp | SinkRedis

datatype http_res = HttpErr string | HttpResp int "string + bytes"

record 'l env =
  limitCfg :: limit_cfg
  rateOps :: "'l rate_ops"
  idTemplate :: string
  asyncOk :: "nat \<Rightarrow> bool"
  deflate :: "bytes \<Rightarrow> bytes option"
  compressingValue :: nat
  SendMessageType :: opcode
  HeartbeatMessage :: bytes
  ReceivePackLimit :: nat
  MaxOnlineNum :: int
  HeartbeatIntervalSecond :: u32
  workerOn :: bool
  amqpOn :: "Event \<Rightarrow> bool"
  redisOn :: "Event \<Rightarrow> bool"
  onOpenApi :: bool
  onCloseApi :: bool
  onMessageApi :: bool
  httpPost :: "bytes \<Rightarrow> http_res"
  uConnOpenResp :: "bytes \<Rightarrow> ConnOpenResp option"
  wenv :: worker_env

record 'l gw =
  heap :: "cref \<Rightarrow> conn"
  nextc :: nat
  incrId :: u32
  mgr :: managerCollect
  bnd :: binderCollect
  tpc :: topicCollect
  reg :: metricsRegistry
  lims :: "'l limManager"
  wk :: workers
  writes :: nat
  outbox :: "(cref \<times> bytes) list"
  closeReqs :: "cref list"
  timers :: "timerReq list"
  tasks :: "task list"
  forwarded :: "(sink \<times> message \<times> cmd) list"

definition updInfo :: "(info \<Rightarrow> info) \<Rightarrow> cref \<Rightarrow> 'l gw \<Rightarrow> 'l gw" where
  "updInfo f c s = s\<lparr>heap := (heap s)(c := (heap s c)\<lparr>cinfo := f (cinfo (heap s c))\<rparr>)\<rparr>"

definition updCodec :: "(codec \<Rightarrow> codec) \<Rightarrow> cref \<Rightarrow> 'l gw \<Rightarrow> 'l gw" where
  "updCodec f c s = s\<lparr>heap := (heap s)(c := (heap s c)\<lparr>ccodec := f (ccodec (heap s c))\<rparr>)\<rparr>"

definition mark :: "Item \<Rightarrow> int \<Rightarrow> 'l gw \<Rightarrow> 'l gw" where
  "mark i n s = s\<lparr>reg := Mark i n (reg s)\<rparr>"

text \<open>\<^verbatim>\<open>conn.CloseOnSafe()\<close> asks gnet to close the socket; gnet then calls \<^verbatim>\<open>OnClose\<close>.\<close>

definition CloseOnSafe :: "cref \<Rightarrow> 'l gw \<Rightarrow> 'l gw" where
  "CloseOnSafe c s = s\<lparr>closeReqs := closeReqs s @ [c]\<rparr>"

definition AsyncWriteOnSafe :: "'l env \<Rightarrow> cref \<Rightarrow> bytes \<Rightarrow> 'l gw \<Rightarrow> bool \<times> 'l gw" where
  "AsyncWriteOnSafe env c bs s =
     (let ok = asyncOk env (writes s); s = s\<lparr>writes := writes s + 1\<rparr>
      in (ok, if ok then s\<lparr>outbox := outbox s @ [(c, bs)]\<rparr> else s))"

section \<open>Frames to clients\<close>

text \<open>\<^verbatim>\<open>ws.WriteFrame\<close> of an unmasked final frame into a buffer, which cannot fail.\<close>

definition serverFrame :: "u8 \<Rightarrow> opcode \<Rightarrow> bytes \<Rightarrow> bytes" where
  "serverFrame rsv op p =
     (128 OR push_bit 4 rsv OR op) #
     (if length p \<le> 125 then [of_nat (length p)]
      else if length p \<le> 65535 then 126 # PutUint16 (of_nat (length p))
      else 127 # PutUint64 (of_nat (length p))) @ p"

record Frame =
  messageType :: opcode
  fdata :: bytes
  fcompressed :: "bytes option"
  funcompressed :: "bytes option"

text \<open>\<^verbatim>\<open>FrameObjPool.Get\<close>: frames in the pool have been reset.\<close>

definition newFrame :: "opcode \<Rightarrow> bytes \<Rightarrow> Frame" where
  "newFrame op d = \<lparr>messageType = op, fdata = d, fcompressed = None, funcompressed = None\<rparr>"

definition send_counted :: "'l env \<Rightarrow> cref \<Rightarrow> bytes \<Rightarrow> 'l gw \<Rightarrow> bool \<times> 'l gw" where
  "send_counted env c bs s =
     (let (ok, s) = AsyncWriteOnSafe env c bs s
      in if ok then (True, mark ItemCustomerWriteByte (int (length bs)) (mark ItemCustomerWriteCount 1 s))
         else (False, mark ItemCustomerWriteFailedByte (int (length bs)) (mark ItemCustomerWriteFailedCount 1 s)))"

definition WriteTo :: "'l env \<Rightarrow> cref \<Rightarrow> Frame \<Rightarrow> 'l gw \<Rightarrow> bool \<times> Frame \<times> 'l gw" where
  "WriteTo env c fr s =
     (if IsClosedOnSafe (ccodec (heap s c)) then (False, fr, s)
      else if IsCompressOnSafe (ccodec (heap s c)) \<and> length (fdata fr) > compressingValue env
      then (case (case fcompressed fr of
                    Some bs \<Rightarrow> Some bs
                  | None \<Rightarrow> map_option (serverFrame 4 (messageType fr)) (deflate env (fdata fr))) of
              None \<Rightarrow> (False, fr, mark ItemCustomerWriteFailedByte (int (length (fdata fr)))
                                   (mark ItemCustomerWriteFailedCount 1 s))
            | Some bs \<Rightarrow> (let (ok, s) = send_counted env c bs s in (ok, fr\<lparr>fcompressed := Some bs\<rparr>, s)))
      else let bs = (case funcompressed fr of
                       Some bs \<Rightarrow> bs
                     | None \<Rightarrow> serverFrame 0 (messageType fr) (fdata fr));
               (ok, s) = send_counted env c bs s
           in (ok, fr\<lparr>funcompressed := Some bs\<rparr>, s))"

definition WriteMessage :: "'l env \<Rightarrow> cref \<Rightarrow> opcode \<Rightarrow> bytes \<Rightarrow> 'l gw \<Rightarrow> bool \<times> 'l gw" where
  "WriteMessage env c op d s = (let (ok, fr, s) = WriteTo env c (newFrame op d) s in (ok, s))"

text \<open>\<^verbatim>\<open>ws.NewCloseFrameBody\<close> crops the reason to 123 bytes.\<close>

definition NewCloseFrameBody :: "status \<Rightarrow> string \<Rightarrow> bytes" where
  "NewCloseFrameBody code reason = PutUint16 code @ take 123 (map of_char reason)"

definition BuildCloseFrame :: "status \<Rightarrow> string \<Rightarrow> bytes" where
  "BuildCloseFrame code err = serverFrame 0 OpClose (NewCloseFrameBody code err)"

definition WriteCloseFrame :: "'l env \<Rightarrow> cref \<Rightarrow> bytes \<Rightarrow> 'l gw \<Rightarrow> 'l gw" where
  "WriteCloseFrame env c closeFrame s =
     (if \<not> fst (SetClosedFlagOnSafe (ccodec (heap s c))) then s
      else let s = updCodec (\<lambda>k. snd (SetClosedFlagOnSafe k)) c s;
               (ok, s) = AsyncWriteOnSafe env c closeFrame s
           in if ok then s\<lparr>timers := timers s @ [CloseIn2s c]\<rparr> else CloseOnSafe c s)"

definition WriteClose :: "'l env \<Rightarrow> cref \<Rightarrow> status \<Rightarrow> string \<Rightarrow> 'l gw \<Rightarrow> 'l gw" where
  "WriteClose env c code err s = WriteCloseFrame env c (BuildCloseFrame code err) s"

text \<open>A loop that writes one frame to several connections, reusing what it has encoded.\<close>

definition WriteToAll :: "'l env \<Rightarrow> cref list \<Rightarrow> Frame \<Rightarrow> 'l gw \<Rightarrow> Frame \<times> 'l gw" where
  "WriteToAll env cs fr s = fold (\<lambda>c (fr, s). snd (WriteTo env c fr s)) cs (fr, s)"

section \<open>Callbacks over HTTP\<close>

definition post :: "'l env \<Rightarrow> message \<Rightarrow> 'l gw \<Rightarrow> http_res \<times> 'l gw" where
  "post env msg s = (case wmarshal (wenv env) msg of
      None \<Rightarrow> (HttpErr ''marshal'', mark ItemCallbackToBusinessFailedCount 1 s)
    | Some b \<Rightarrow> (case httpPost env b of
          HttpErr e \<Rightarrow> (HttpErr e, mark ItemCallbackToBusinessFailedCount 1 s)
        | r \<Rightarrow> (r, mark ItemCallbackToBusinessSucceedByte (int (length b))
                     (mark ItemCallbackToBusinessSucceedCount 1 s))))"

definition callback_OnOpen :: "'l env \<Rightarrow> ConnOpen \<Rightarrow> 'l gw \<Rightarrow> (string + ConnOpenResp) \<times> 'l gw" where
  "callback_OnOpen env co s =
     (let (r, s) = post env (MConnOpen co) s
      in (case r of
            HttpErr e \<Rightarrow> Inl e
          | HttpResp code body \<Rightarrow>
              if code \<noteq> 200 then Inl ''receive error http status code''
              else (case body of
                      Inl e \<Rightarrow> Inl e
                    | Inr b \<Rightarrow> (case uConnOpenResp env b of None \<Rightarrow> Inl ''unmarshal'' | Some d \<Rightarrow> Inr d)), s))"

definition callback_OnMessage :: "'l env \<Rightarrow> Transfer \<Rightarrow> 'l gw \<Rightarrow> 'l gw" where
  "callback_OnMessage env tf s = snd (post env (MTransfer tf) s)"

definition callback_OnClose :: "'l env \<Rightarrow> ConnClose \<Rightarrow> 'l gw \<Rightarrow> 'l gw" where
  "callback_OnClose env cl s = snd (post env (MConnClose cl) s)"

section \<open>Handing events to the sinks\<close>

text \<open>
  The tail that the three event callbacks share: the amqp queue, the redis queue, then a worker
  chosen by the manager.
\<close>

definition forward :: "'l env \<Rightarrow> Event \<Rightarrow> message \<Rightarrow> cmd \<Rightarrow> 'l gw \<Rightarrow> 'l gw" where
  "forward env event msg c s =
     (let s = (if amqpOn env event then s\<lparr>forwarded := forwarded s @ [(SinkAmqp, msg, c)]\<rparr> else s);
          s = (if redisOn env event then s\<lparr>forwarded := forwarded s @ [(SinkRedis, msg, c)]\<rparr> else s);
          (w, wk1) = WManager_Get (workerOn env) event (wk s);
          s = s\<lparr>wk := wk1\<rparr>
      in case w of
           None \<Rightarrow> s
         | Some r \<Rightarrow> let (wk2, reg2) = WConn_Send (wenv env) msg c r (wk s, reg s)
                     in s\<lparr>wk := wk2, reg := reg2\<rparr>)"

section \<open>What writing and forwarding leave alone\<close>

text \<open>
  The part of the state that the registries' correctness depends on: who is who, who is subscribed to
  what, and the registries themselves.
\<close>

definition ident :: "info \<Rightarrow> u64 \<times> string \<times> string \<times> string list" where
  "ident r = (iid r, uniqId r, customerId r, getTopics r)"

definition core :: "'l gw \<Rightarrow> (cref \<Rightarrow> u64 \<times> string \<times> string \<times> string list) \<times> nat \<times> u32 \<times>
    managerCollect \<times> binderCollect \<times> topicCollect" where
  "core s = (\<lambda>c. ident (cinfo (heap s c)), nextc s, incrId s, mgr s, bnd s, tpc s)"

definition shut :: "'l gw \<Rightarrow> cref \<Rightarrow> bool" where
  "shut s c = closed (ccodec (heap s c))"

text \<open>
  \<open>quiet s s'\<close>: the core and the flags of the codecs are unchanged, no closed flag has been cleared, and
  no task was added.
\<close>

definition quiet :: "'l gw \<Rightarrow> 'l gw \<Rightarrow> bool" where
  "quiet s s' \<longleftrightarrow> core s' = core s \<and> (\<forall>c. shut s c \<longrightarrow> shut s' c) \<and> tasks s' = tasks s \<and>
     (\<forall>c. cflags (ccodec (heap s' c)) = cflags (ccodec (heap s c)))"

lemma quiet_refl [simp, intro]: "quiet s s"
  by (simp add: quiet_def)

lemma quiet_trans [trans]: "quiet s s' \<Longrightarrow> quiet s' s'' \<Longrightarrow> quiet s s''"
  by (simp add: quiet_def)

lemma quiet_fold: "(\<And>x s. quiet a s \<Longrightarrow> quiet a (f x s)) \<Longrightarrow> quiet a s \<Longrightarrow> quiet a (fold f xs s)"
  by (induction xs arbitrary: s) auto

text \<open>Each operation in the form in which a sequence of them is checked from the last to the first.\<close>

lemma quiet_fields [registry_frame]:
  "quiet a s \<Longrightarrow> quiet a (mark i n s)" "quiet a s \<Longrightarrow> quiet a (CloseOnSafe c s)"
  "quiet a s \<Longrightarrow> quiet a (s\<lparr>timers := t\<rparr>)" "quiet a s \<Longrightarrow> quiet a (s\<lparr>forwarded := f\<rparr>)"
  "quiet a s \<Longrightarrow> quiet a (s\<lparr>wk := w\<rparr>)" "quiet a s \<Longrightarrow> quiet a (s\<lparr>reg := r\<rparr>)" "quiet a s \<Longrightarrow> quiet a (s\<lparr>lims := l\<rparr>)"
  by (simp_all add: quiet_def core_def shut_def mark_def CloseOnSafe_def)

lemma quiet_AsyncWrite [registry_frame]: "quiet a s \<Longrightarrow> quiet a (snd (AsyncWriteOnSafe env c bs s))"
  by (simp add: quiet_def core_def shut_def AsyncWriteOnSafe_def Let_def)

lemma quiet_send_counted [registry_frame]: "quiet a s \<Longrightarrow> quiet a (snd (send_counted env c bs s))"
  by (auto simp: send_counted_def Let_def case_prod_unfold intro: registry_frame)

lemma quiet_WriteTo [registry_frame]: "quiet a s \<Longrightarrow> quiet a (snd (snd (WriteTo env c fr s)))"
  unfolding WriteTo_def Let_def case_prod_unfold
  by (auto intro: registry_frame split: option.splits)

lemma quiet_WriteMessage [registry_frame]: "quiet a s \<Longrightarrow> quiet a (snd (WriteMessage env c op d s))"
  by (simp add: WriteMessage_def case_prod_unfold Let_def quiet_WriteTo)

lemma quiet_WriteToAll [registry_frame]: "quiet a s \<Longrightarrow> quiet a (snd (WriteToAll env cs fr s))"
proof -
  have "quiet a (snd p) \<Longrightarrow> quiet a (snd (fold (\<lambda>c (fr, s). snd (WriteTo env c fr s)) cs p))" for p
  proof (induction cs arbitrary: p)
    case (Cons c cs)
    then show ?case
      using Cons.IH [of "snd (WriteTo env c (fst p) (snd p))"] quiet_WriteTo [OF Cons.prems]
      by (simp add: case_prod_unfold)
  qed simp
  then show "quiet a s \<Longrightarrow> ?thesis" by (simp add: WriteToAll_def)
qed

lemma quiet_setClosed [registry_frame]: "quiet a s \<Longrightarrow> quiet a (updCodec (\<lambda>k. snd (SetClosedFlagOnSafe k)) c s)"
  by (auto simp: quiet_def core_def shut_def updCodec_def SetClosedFlagOnSafe_def fun_eq_iff)

lemma quiet_WriteCloseFrame [registry_frame]: "quiet a s \<Longrightarrow> quiet a (WriteCloseFrame env c fr s)"
  unfolding WriteCloseFrame_def Let_def case_prod_unfold by (auto intro: registry_frame)

lemma quiet_WriteClose [registry_frame]: "quiet a s \<Longrightarrow> quiet a (WriteClose env c code e s)"
  by (simp add: WriteClose_def quiet_WriteCloseFrame)

lemma quiet_post [registry_frame]: "quiet a s \<Longrightarrow> quiet a (snd (post env m s))"
  unfolding post_def by (auto intro: registry_frame split: option.splits http_res.splits)

lemma quiet_callbacks [registry_frame]:
  "quiet a s \<Longrightarrow> quiet a (snd (callback_OnOpen env co s))" "quiet a s \<Longrightarrow> quiet a (callback_OnMessage env tf s)"
  "quiet a s \<Longrightarrow> quiet a (callback_OnClose env cl s)"
  by (simp_all add: callback_OnOpen_def callback_OnMessage_def callback_OnClose_def case_prod_unfold Let_def quiet_post)

lemma quiet_forward [registry_frame]: "quiet a s \<Longrightarrow> quiet a (forward env ev m c s)"
  unfolding forward_def Let_def case_prod_unfold
  by (auto intro!: registry_frame split: option.splits)

lemma shut_after_WriteCloseFrame: "shut (WriteCloseFrame env c fr s) c"
proof (cases "shut s c")
  case True
  then show ?thesis using quiet_WriteCloseFrame [OF quiet_refl, of s env c fr] by (simp add: quiet_def)
next
  case False
  let ?s = "updCodec (\<lambda>k. snd (SetClosedFlagOnSafe k)) c s"
  have 1: "shut ?s c" by (simp add: shut_def updCodec_def SetClosedFlagOnSafe_def)
  have "quiet ?s (WriteCloseFrame env c fr s)"
    using False unfolding WriteCloseFrame_def Let_def case_prod_unfold
    by (auto simp: SetClosedFlagOnSafe_def shut_def intro: registry_frame)
  then show ?thesis using 1 by (simp add: quiet_def)
qed

section \<open>The registries agree with the connections\<close>

abbreviation (input) inf :: "'l gw \<Rightarrow> cref \<Rightarrow> info" where "inf s c \<equiv> cinfo (heap s c)"

definition online :: "'l gw \<Rightarrow> cref \<Rightarrow> bool" where
  "online s c \<longleftrightarrow> Manager_Get (uniqId (inf s c)) (mgr s) = Some c"

abbreviation (input) ids :: "'l gw \<Rightarrow> cref \<Rightarrow> u64" where "ids s \<equiv> \<lambda>c. iid (inf s c)"

text \<open>
  \<open>gen_ok\<close>: the allocated connections carry the identifiers of consecutive calls of the generator,
  and no two of them are the same.
\<close>

definition gen_ok :: "string \<Rightarrow> 'l gw \<Rightarrow> bool" where
  "gen_ok template s \<longleftrightarrow>
     (\<exists>base ts. incrId s = base + of_nat (nextc s) \<and>
        (\<forall>c < nextc s. uniqId (inf s c) = template @ encodeUint32ToHex (of_int (ts c)) @ encodeUint32ToHex (base + of_nat c + 1) \<and>
           iid (inf s c) = push_bit 32 (of_int (ts c)) OR ucast (base + of_nat c + 1))) \<and>
     nextc s \<le> 2 ^ 32"

definition gw_ok :: "string \<Rightarrow> 'l gw \<Rightarrow> bool" where
  "gw_ok template s \<longleftrightarrow>
     manager_wf (mgr s) \<and> topic_wf (tpc s) \<and> binder_wf (bnd s) \<and> gen_ok template s \<and>
     (\<forall>c. info_wf (inf s c)) \<and>
     (\<forall>u c. Manager_Get u (mgr s) = Some c \<longrightarrow> uniqId (inf s c) = u \<and> c < nextc s) \<and>
     exact (idx_get hashTopic (tpc s)) (ids s) (\<lambda>c t. online s c \<and> t \<in> topicSet (inf s c)) \<and>
     exact (idx_get hashCustomerId (bnd s)) (ids s) (\<lambda>c x. online s c \<and> x = customerId (inf s c) \<and> x \<noteq> '''')"

lemma core_fields:
  assumes "core s' = core s"
  shows "iid (inf s' c) = iid (inf s c)" "uniqId (inf s' c) = uniqId (inf s c)"
    "customerId (inf s' c) = customerId (inf s c)" "getTopics (inf s' c) = getTopics (inf s c)"
    "nextc s' = nextc s" "incrId s' = incrId s" "mgr s' = mgr s" "bnd s' = bnd s" "tpc s' = tpc s"
  using assms by (auto simp: core_def ident_def fun_eq_iff)

lemma online_core:
  assumes "core s' = core s"
  shows "online s' c = online s c"
  unfolding online_def core_fields [OF assms] ..

lemma gw_ok_core:
  assumes "core s' = core s"
  shows "gw_ok t s' = gw_ok t s"
  unfolding gw_ok_def gen_ok_def online_core [OF assms] info_wf_def core_fields [OF assms] ..

lemma gw_ok_quiet: "quiet s s' \<Longrightarrow> gw_ok t s \<Longrightarrow> gw_ok t s'"
  unfolding quiet_def using gw_ok_core by blast

lemma gw_okD:
  assumes "gw_ok t s"
  shows "manager_wf (mgr s)" "topic_wf (tpc s)" "binder_wf (bnd s)" "gen_ok t s" "info_wf (inf s c)"
    "Manager_Get u (mgr s) = Some c \<Longrightarrow> uniqId (inf s c) = u" "Manager_Get u (mgr s) = Some c \<Longrightarrow> c < nextc s"
    "exact (idx_get hashTopic (tpc s)) (ids s) (\<lambda>c t. online s c \<and> t \<in> topicSet (inf s c))"
    "exact (idx_get hashCustomerId (bnd s)) (ids s) (\<lambda>c x. online s c \<and> x = customerId (inf s c) \<and> x \<noteq> '''')"
  using assms unfolding gw_ok_def by blast+

lemma online_lt: "gw_ok t s \<Longrightarrow> online s c \<Longrightarrow> c < nextc s"
  by (auto simp: online_def dest: gw_okD(7))

lemma online_Get: "gw_ok t s \<Longrightarrow> Manager_Get u (mgr s) = Some c \<Longrightarrow> online s c"
  using gw_okD(6) unfolding online_def by metis

lemma gen_distinct:
  assumes "gen_ok t s" "c < nextc s" "c' < nextc s"
  shows "iid (inf s c) = iid (inf s c') \<longleftrightarrow> c = c'" "uniqId (inf s c) = uniqId (inf s c') \<longleftrightarrow> c = c'"
proof -
  obtain base ts where u: "uniqId (inf s k) = t @ encodeUint32ToHex (of_int (ts k)) @ encodeUint32ToHex (base + of_nat k + 1)"
      "iid (inf s k) = push_bit 32 (of_int (ts k)) OR ucast (base + of_nat k + 1)" if "k < nextc s" for k
    using assms(1) unfolding gen_ok_def by blast
  have cnt: "base + of_nat c + 1 = (base + of_nat c' + 1 :: u32) \<longleftrightarrow> c = c'"
  proof -
    have "nextc s \<le> 2 ^ 32" using assms(1) by (simp add: gen_ok_def)
    then have "c < c' \<Longrightarrow> c' - c < 2 ^ 32" "c' < c \<Longrightarrow> c - c' < 2 ^ 32" using assms(2,3) by linarith+
    then show ?thesis
      using counter_distinct [of c c' base] counter_distinct [of c' c base] by (cases c c' rule: linorder_cases) auto
  qed
  show "iid (inf s c) = iid (inf s c') \<longleftrightarrow> c = c'"
    using u(2) [OF assms(2)] u(2) [OF assms(3)] id_eq_iff cnt by (metis (no_types, lifting))
  show "uniqId (inf s c) = uniqId (inf s c') \<longleftrightarrow> c = c'"
    using u(1) [OF assms(2)] u(1) [OF assms(3)] encodeUint32_inj cnt
    by (auto simp: append_eq_append_conv)
qed

lemma uniqId_nonempty: "gen_ok t s \<Longrightarrow> c < nextc s \<Longrightarrow> uniqId (inf s c) \<noteq> ''''"
proof -
  assume "gen_ok t s" "c < nextc s"
  then obtain x y where "uniqId (inf s c) = t @ encodeUint32ToHex x @ encodeUint32ToHex y"
    unfolding gen_ok_def by blast
  then have "8 \<le> length (uniqId (inf s c))" using length_encodeUint32 [of y] by simp
  then show ?thesis by auto
qed

end
