(* ===== verification/Registry.thy ===== *)
theory Registry
  imports Gateway
begin

text \<open>
  How the registries stay in agreement with the connections. The invariant \<open>gw_ok\<close> of \<open>Gateway\<close> says that the
  topic index and the customer index are exact for the connections that the manager holds. Here is
  one lemma per way in which the program changes them: a connection subscribes, loses topics, is bound
  to or unbound from a customer id, enters, leaves, is created. They rest on the contract
  \<open>rel_index\<close> that both indexes fulfil.
\<close>

section \<open>Changing the indexes together with the connections\<close>

lemma exact_cong: "exact lk i R \<Longrightarrow> (\<And>c k. R c k \<longleftrightarrow> R' c k) \<Longrightarrow> exact lk i R'"
  by (simp add: exact_def)

lemma exact_agree:
  assumes "exact lk i R" "\<And>c k. R' c k \<longleftrightarrow> R c k" "\<And>c k. R c k \<Longrightarrow> i' c = i c"
  shows "exact lk i' R'"
proof -
  have "lk k j = Some c \<longleftrightarrow> R' c k \<and> i' c = j" for k j c
    using exactD [OF assms(1), of k j c] assms(2) [of c k] assms(3) [of c k] by auto
  then show ?thesis by (simp add: exact_def)
qed

text \<open>A change of one connection's information together with the two indexes.\<close>

lemma gw_ok_change:
  assumes ok: "gw_ok t s" and keep: "iid (f (inf s c)) = iid (inf s c)" "uniqId (f (inf s c)) = uniqId (inf s c)"
    and wf: "info_wf (f (inf s c))" "topic_wf T" "binder_wf B"
    and T: "exact (idx_get hashTopic T) (ids s)
      (\<lambda>d k. online s d \<and> k \<in> (if d = c then topicSet (f (inf s c)) else topicSet (inf s d)))"
    and B: "exact (idx_get hashCustomerId B) (ids s)
      (\<lambda>d x. online s d \<and> x = (if d = c then customerId (f (inf s c)) else customerId (inf s d)) \<and> x \<noteq> '''')"
    and s': "heap s' = heap (updInfo f c s)" "mgr s' = mgr s" "nextc s' = nextc s" "incrId s' = incrId s" "tpc s' = T" "bnd s' = B"
  shows "gw_ok t s'"
proof -
  have i: "iid (inf s' d) = iid (inf s d)" "uniqId (inf s' d) = uniqId (inf s d)" for d
    using keep by (auto simp: s'(1) updInfo_def)
  have tp: "topicSet (inf s' d) = (if d = c then topicSet (f (inf s c)) else topicSet (inf s d))"
    "customerId (inf s' d) = (if d = c then customerId (f (inf s c)) else customerId (inf s d))"
    "info_wf (inf s' d)" for d
    using gw_okD(5) [OF ok, of d] wf(1) by (auto simp: s'(1) updInfo_def)
  have on: "online s' d = online s d" for d unfolding online_def i s'(2) ..
  have gen: "gen_ok t s'" using gw_okD(4) [OF ok] unfolding gen_ok_def i s'(3,4) .
  show ?thesis
    using gw_okD(1,6,7) [OF ok] gen wf(2,3) T B unfolding gw_ok_def on i tp(1,2) s'(2-6) by (simp add: tp(3))
qed

lemma ids_distinct:
  assumes "gw_ok t s" "c < nextc s" "online s d" "ids s d = ids s c"
  shows "d = c"
  using gen_distinct(1) [OF gw_okD(4) [OF assms(1)] online_lt [OF assms(1,3)] assms(2)] assms(4) by simp

lemma topic_exact_if:
  assumes "gw_ok t s" "topicSet r = topicSet (inf s c)"
  shows "exact (idx_get hashTopic (tpc s)) (ids s)
      (\<lambda>d k. online s d \<and> k \<in> (if d = c then topicSet r else topicSet (inf s d)))"
  using gw_okD(8) [OF assms(1)] by (rule exact_cong) (use assms(2) in auto)

lemma binder_exact_if:
  assumes "gw_ok t s" "customerId r = customerId (inf s c)"
  shows "exact (idx_get hashCustomerId (bnd s)) (ids s)
      (\<lambda>d x. online s d \<and> x = (if d = c then customerId r else customerId (inf s d)) \<and> x \<noteq> '''')"
  using gw_okD(9) [OF assms(1)] by (rule exact_cong) (use assms(2) in auto)

lemma gw_ok_subscribe:
  assumes ok: "gw_ok t s" and on: "online s c"
  shows "gw_ok t ((updInfo (SubscribeTopics ts) c s)\<lparr>tpc := Topic_SetRelation ts (Some (ids s c, c)) (tpc s)\<rparr>)"
proof (rule gw_ok_change [OF ok, where f = "SubscribeTopics ts" and c = c])
  have c: "c < nextc s" using online_lt [OF ok on] .
  have "exact (idx_get hashTopic (Topic_SetRelation ts (Some (ids s c, c)) (tpc s))) (ids s)
     (\<lambda>d k. (online s d \<and> k \<in> topicSet (inf s d)) \<or> d = c \<and> k \<in> set ts \<and> k \<noteq> '''')"
    using topic_ix.exact_add [OF gw_okD(2,8) [OF ok], of c ts] ids_distinct [OF ok c] by blast
  then show "exact (idx_get hashTopic (Topic_SetRelation ts (Some (ids s c, c)) (tpc s))) (ids s)
     (\<lambda>d k. online s d \<and> k \<in> (if d = c then topicSet (SubscribeTopics ts (inf s c)) else topicSet (inf s d)))"
    by (rule exact_cong) (use on in auto)
  show "topic_wf (Topic_SetRelation ts (Some (ids s c, c)) (tpc s))"
    using gw_okD(2) [OF ok] by (rule topic_wf_SetRelation)
  show "exact (idx_get hashCustomerId (bnd s)) (ids s)
      (\<lambda>d x. online s d \<and> x = (if d = c then customerId (SubscribeTopics ts (inf s c)) else customerId (inf s d)) \<and> x \<noteq> '''')"
    by (rule binder_exact_if [OF ok]) simp
qed (simp_all add: updInfo_def gw_okD [OF ok] info_wf_Subscribe)

text \<open>Removing topics from a connection, in any of the ways the code does it.\<close>

lemma gw_ok_drop_topics:
  assumes ok: "gw_ok t s" and on: "online s c"
    and f: "topicSet (f (inf s c)) = topicSet (inf s c) - set ts" "customerId (f (inf s c)) = customerId (inf s c)"
      "iid (f (inf s c)) = iid (inf s c)" "uniqId (f (inf s c)) = uniqId (inf s c)" "info_wf (f (inf s c))"
  shows "gw_ok t ((updInfo f c s)\<lparr>tpc := Topic_DelRelationBySlice ts (ids s c) (tpc s)\<rparr>)"
proof (rule gw_ok_change [OF ok, where f = f and c = c])
  have c: "c < nextc s" using online_lt [OF ok on] .
  have "exact (idx_get hashTopic (Topic_DelRelationBySlice ts (ids s c) (tpc s))) (ids s)
     (\<lambda>d k. (online s d \<and> k \<in> topicSet (inf s d)) \<and> \<not> (d = c \<and> k \<in> set ts \<and> k \<noteq> ''''))"
    using topic_ix.exact_del [OF gw_okD(2,8) [OF ok], of c ts] ids_distinct [OF ok c] by blast
  then show "exact (idx_get hashTopic (Topic_DelRelationBySlice ts (ids s c) (tpc s))) (ids s)
     (\<lambda>d k. online s d \<and> k \<in> (if d = c then topicSet (f (inf s c)) else topicSet (inf s d)))"
    by (rule exact_cong) (use gw_okD(5) [OF ok, of c] f(1) in \<open>auto simp: info_wf_def\<close>)
  show "topic_wf (Topic_DelRelationBySlice ts (ids s c) (tpc s))"
    using gw_okD(2) [OF ok] by (rule topic_wf_DelRelation)
  show "exact (idx_get hashCustomerId (bnd s)) (ids s)
      (\<lambda>d x. online s d \<and> x = (if d = c then customerId (f (inf s c)) else customerId (inf s d)) \<and> x \<noteq> '''')"
    by (rule binder_exact_if [OF ok f(2)])
qed (simp_all add: updInfo_def gw_okD [OF ok] f)

lemma gw_ok_unbind:
  assumes ok: "gw_ok t s" and on: "online s c"
  shows "gw_ok t ((updInfo (SetCustomerId '''') c s)\<lparr>bnd := Binder_DelRelation (customerId (inf s c)) (ids s c) (bnd s)\<rparr>)"
proof (rule gw_ok_change [OF ok, where f = "SetCustomerId ''''" and c = c])
  have c: "c < nextc s" using online_lt [OF ok on] .
  have "exact (idx_get hashCustomerId (Binder_DelRelation (customerId (inf s c)) (ids s c) (bnd s))) (ids s)
     (\<lambda>d x. (online s d \<and> x = customerId (inf s d) \<and> x \<noteq> '''') \<and> \<not> (d = c \<and> x \<in> set [customerId (inf s c)] \<and> True))"
    using binder_exact_del [OF gw_okD(3,9) [OF ok], of c] ids_distinct [OF ok c] by blast
  then show "exact (idx_get hashCustomerId (Binder_DelRelation (customerId (inf s c)) (ids s c) (bnd s))) (ids s)
     (\<lambda>d x. online s d \<and> x = (if d = c then customerId (SetCustomerId '''' (inf s c)) else customerId (inf s d)) \<and> x \<noteq> '''')"
    by (rule exact_cong) auto
  show "exact (idx_get hashTopic (tpc s)) (ids s)
      (\<lambda>d k. online s d \<and> k \<in> (if d = c then topicSet (SetCustomerId '''' (inf s c)) else topicSet (inf s d)))"
    by (rule topic_exact_if [OF ok]) simp
  show "binder_wf (Binder_DelRelation (customerId (inf s c)) (ids s c) (bnd s))"
    using gw_okD(3) [OF ok] by (rule binder_wf_DelRelation)
qed (simp_all add: updInfo_def gw_okD [OF ok] info_wf_simple)

lemma gw_ok_bind:
  assumes ok: "gw_ok t s" and on: "online s c" and e: "customerId (inf s c) = ''''" and x: "x \<noteq> ''''"
  shows "gw_ok t ((updInfo (SetCustomerId x) c s)\<lparr>bnd := Binder_SetRelation x (ids s c) c (bnd s)\<rparr>)"
proof (rule gw_ok_change [OF ok, where f = "SetCustomerId x" and c = c])
  have c: "c < nextc s" using online_lt [OF ok on] .
  have "exact (idx_get hashCustomerId (Binder_SetRelation x (ids s c) c (bnd s))) (ids s)
     (\<lambda>d y. (online s d \<and> y = customerId (inf s d) \<and> y \<noteq> '''') \<or> d = c \<and> y \<in> set [x] \<and> True)"
    using binder_exact_set [OF gw_okD(3,9) [OF ok], of c] ids_distinct [OF ok c] by blast
  then show "exact (idx_get hashCustomerId (Binder_SetRelation x (ids s c) c (bnd s))) (ids s)
     (\<lambda>d y. online s d \<and> y = (if d = c then customerId (SetCustomerId x (inf s c)) else customerId (inf s d)) \<and> y \<noteq> '''')"
    by (rule exact_cong) (use on e x in auto)
  show "exact (idx_get hashTopic (tpc s)) (ids s)
      (\<lambda>d k. online s d \<and> k \<in> (if d = c then topicSet (SetCustomerId x (inf s c)) else topicSet (inf s d)))"
    by (rule topic_exact_if [OF ok]) simp
  show "binder_wf (Binder_SetRelation x (ids s c) c (bnd s))"
    using gw_okD(3) [OF ok] by (rule binder_wf_SetRelation)
qed (simp_all add: updInfo_def gw_okD [OF ok] info_wf_simple)

text \<open>A connection enters the registries.\<close>

lemma gw_ok_open:
  assumes ok: "gw_ok t s" and c: "c < nextc s" "\<not> online s c"
    and f: "iid (f (inf s c)) = iid (inf s c)" "uniqId (f (inf s c)) = uniqId (inf s c)" "info_wf (f (inf s c))"
      "topicSet (f (inf s c)) = {k \<in> set ts. k \<noteq> ''''}"
    and s': "heap s' = heap (updInfo f c s)" "nextc s' = nextc s" "incrId s' = incrId s"
      "mgr s' = Manager_Set (uniqId (inf s c)) c (mgr s)"
      "bnd s' = (if customerId (f (inf s c)) \<noteq> '''' then Binder_SetRelation (customerId (f (inf s c))) (ids s c) c (bnd s) else bnd s)"
      "tpc s' = Topic_SetRelation ts (Some (ids s c, c)) (tpc s)"
  shows "gw_ok t s'" "online s' d \<longleftrightarrow> d = c \<or> online s d"
proof -
  let ?u = "uniqId (inf s c)" and ?x = "customerId (f (inf s c))"
  note wfm = gw_okD(1) [OF ok] and gen = gw_okD(4) [OF ok]
  have u: "?u \<noteq> ''''" using uniqId_nonempty [OF gen c(1)] .
  have get: "Manager_Get v (mgr s') = (if v = ?u then Some c else Manager_Get v (mgr s))" for v
    using Manager_Get_Set [OF wfm, of v ?u c] u by (auto simp: s'(4))
  have free: "Manager_Get ?u (mgr s) = None"
  proof (rule ccontr)
    assume "Manager_Get ?u (mgr s) \<noteq> None"
    then obtain d where d: "Manager_Get ?u (mgr s) = Some d" by blast
    then have "uniqId (inf s d) = ?u" "d < nextc s" using gw_okD(6,7) [OF ok] by blast+
    then have "d = c" using gen_distinct(2) [OF gen _ c(1), of d] by simp
    then show False using d c(2) by (simp add: online_def)
  qed
  have i: "iid (inf s' d) = iid (inf s d)" "uniqId (inf s' d) = uniqId (inf s d)" for d
    using f(1,2) by (auto simp: s'(1) updInfo_def)
  have tp: "topicSet (inf s' d) = (if d = c then {k \<in> set ts. k \<noteq> ''''} else topicSet (inf s d))"
    "customerId (inf s' d) = (if d = c then ?x else customerId (inf s d))" "info_wf (inf s' d)" for d
    using gw_okD(5) [OF ok, of d] f(3,4) by (auto simp: s'(1) updInfo_def)
  show on: "online s' d \<longleftrightarrow> d = c \<or> online s d" for d
    unfolding online_def i get using free by auto
  have fresh: "\<And>d k. R d k \<and> online s d \<Longrightarrow> ids s d = ids s c \<Longrightarrow> d = c" for R :: "cref \<Rightarrow> string \<Rightarrow> bool"
    using ids_distinct [OF ok c(1)] by blast
  have "exact (idx_get hashTopic (tpc s')) (ids s)
     (\<lambda>d k. (online s d \<and> k \<in> topicSet (inf s d)) \<or> d = c \<and> k \<in> set ts \<and> k \<noteq> '''')"
    unfolding s'(6) using topic_ix.exact_add [OF gw_okD(2,8) [OF ok], of c ts] ids_distinct [OF ok c(1)] by blast
  then have T: "exact (idx_get hashTopic (tpc s')) (ids s') (\<lambda>d k. online s' d \<and> k \<in> topicSet (inf s' d))"
    unfolding i on tp(1) by (rule exact_cong) (use c(2) in auto)
  have B: "exact (idx_get hashCustomerId (bnd s')) (ids s')
      (\<lambda>d x. online s' d \<and> x = customerId (inf s' d) \<and> x \<noteq> '''')"
  proof (cases "?x = ''''")
    case True
    then have "bnd s' = bnd s" using s'(5) by simp
    then show ?thesis
      unfolding i on tp(2) using gw_okD(9) [OF ok] by (elim ssubst exact_cong) (use c(2) True in auto)
  next
    case False
    have "exact (idx_get hashCustomerId (Binder_SetRelation ?x (ids s c) c (bnd s))) (ids s)
       (\<lambda>d y. (online s d \<and> y = customerId (inf s d) \<and> y \<noteq> '''') \<or> d = c \<and> y \<in> set [?x] \<and> True)"
      using binder_exact_set [OF gw_okD(3,9) [OF ok], of c] ids_distinct [OF ok c(1)] by blast
    then show ?thesis
      unfolding i on tp(2) s'(5) if_P [OF False] by (rule exact_cong) (use c(2) False in auto)
  qed
  have gen': "gen_ok t s'" using gen unfolding gen_ok_def i s'(2,3) .
  have "manager_wf (mgr s')" "topic_wf (tpc s')" "binder_wf (bnd s')"
    using manager_wf_Set [OF wfm] topic_wf_SetRelation [OF gw_okD(2) [OF ok]]
      binder_wf_SetRelation [OF gw_okD(3) [OF ok]] gw_okD(3) [OF ok] by (simp_all add: s'(4-6))
  moreover have "uniqId (inf s' d) = v \<and> d < nextc s'" if "Manager_Get v (mgr s') = Some d" for v d
    using that gw_okD(6,7) [OF ok] c(1) unfolding get i(2) s'(2) by (auto split: if_splits)
  ultimately show "gw_ok t s'" using gen' T B tp(3) unfolding gw_ok_def by blast
qed

text \<open>A connection leaves the registries.\<close>

lemma gw_ok_close:
  assumes ok: "gw_ok t s" and c: "c < nextc s"
    and s': "heap s' = heap s" "nextc s' = nextc s" "incrId s' = incrId s"
      "mgr s' = Manager_Del (uniqId (inf s c)) (mgr s)"
      "bnd s' = (if customerId (inf s c) \<noteq> '''' then Binder_DelRelation (customerId (inf s c)) (ids s c) (bnd s) else bnd s)"
      "tpc s' = Topic_DelRelationBySlice (getTopics (inf s c)) (ids s c) (tpc s)"
  shows "gw_ok t s'" "online s' d \<longleftrightarrow> online s d \<and> d \<noteq> c"
proof -
  let ?u = "uniqId (inf s c)" and ?x = "customerId (inf s c)"
  note wfm = gw_okD(1) [OF ok] and gen = gw_okD(4) [OF ok]
  have get: "Manager_Get v (mgr s') = (if v = ?u then None else Manager_Get v (mgr s))" for v
    using Manager_Get_Del [OF wfm, of v ?u] by (auto simp: s'(4))
  have only: "d = c" if "Manager_Get ?u (mgr s) = Some d" for d
    using that gw_okD(6,7) [OF ok that] gen_distinct(2) [OF gen _ c, of d] by simp
  show on: "online s' d \<longleftrightarrow> online s d \<and> d \<noteq> c" for d
    unfolding online_def get s'(1) using only by (auto simp: online_def)
  have wfi: "'''' \<notin> topicSet (inf s c)" using gw_okD(5) [OF ok, of c] by (simp add: info_wf_def)
  have "exact (idx_get hashTopic (tpc s')) (ids s)
     (\<lambda>d k. (online s d \<and> k \<in> topicSet (inf s d)) \<and> \<not> (d = c \<and> k \<in> topicSet (inf s c) \<and> k \<noteq> ''''))"
    unfolding s'(6) using topic_ix.exact_del [OF gw_okD(2,8) [OF ok], of c "getTopics (inf s c)"] ids_distinct [OF ok c] by blast
  then have T: "exact (idx_get hashTopic (tpc s')) (ids s') (\<lambda>d k. online s' d \<and> k \<in> topicSet (inf s' d))"
    unfolding on s'(1) by (rule exact_cong) (use wfi in auto)
  have B: "exact (idx_get hashCustomerId (bnd s')) (ids s')
      (\<lambda>d x. online s' d \<and> x = customerId (inf s' d) \<and> x \<noteq> '''')"
  proof (cases "?x = ''''")
    case True
    then have "bnd s' = bnd s" using s'(5) by simp
    then show ?thesis
      unfolding on s'(1) using gw_okD(9) [OF ok] by (elim ssubst exact_cong) (use True in auto)
  next
    case False
    have "exact (idx_get hashCustomerId (Binder_DelRelation ?x (ids s c) (bnd s))) (ids s)
       (\<lambda>d y. (online s d \<and> y = customerId (inf s d) \<and> y \<noteq> '''') \<and> \<not> (d = c \<and> y \<in> set [?x] \<and> True))"
      using binder_exact_del [OF gw_okD(3,9) [OF ok], of c] ids_distinct [OF ok c] by blast
    then show ?thesis
      unfolding on s'(1,5) if_P [OF False] by (rule exact_cong) auto
  qed
  have gen': "gen_ok t s'" using gen unfolding gen_ok_def s'(1-3) .
  have "manager_wf (mgr s')" "topic_wf (tpc s')" "binder_wf (bnd s')"
    using manager_wf_Del [OF wfm] topic_wf_DelRelation [OF gw_okD(2) [OF ok]]
      binder_wf_DelRelation [OF gw_okD(3) [OF ok]] gw_okD(3) [OF ok] by (simp_all add: s'(4-6))
  moreover have "uniqId (inf s' d) = v \<and> d < nextc s'" if "Manager_Get v (mgr s') = Some d" for v d
    using that gw_okD(6,7) [OF ok] unfolding get s'(1,2) by (auto split: if_splits)
  moreover have "info_wf (inf s' d)" for d using gw_okD(5) [OF ok] unfolding s'(1) .
  ultimately show "gw_ok t s'" using gen' T B unfolding gw_ok_def by blast
qed

text \<open>A new connection object, not in any registry yet.\<close>

lemma gw_ok_alloc:
  assumes ok: "gw_ok t s" and n: "nextc s < 2 ^ 32"
    and k: "uniqId (cinfo k) = fst (fst (NewId t now (incrId s)))" "iid (cinfo k) = snd (fst (NewId t now (incrId s)))"
      "info_wf (cinfo k)"
    and s': "heap s' = (heap s)(nextc s := k)" "nextc s' = nextc s + 1" "incrId s' = snd (NewId t now (incrId s))"
      "mgr s' = mgr s" "bnd s' = bnd s" "tpc s' = tpc s"
  shows "gw_ok t s'" "online s' d \<longleftrightarrow> online s d"
proof -
  let ?n = "nextc s"
  have old: "inf s' d = inf s d" if "d \<noteq> ?n" for d using that by (simp add: s'(1))
  have new: "inf s' ?n = cinfo k" by (simp add: s'(1))
  have notin: "Manager_Get v (mgr s) \<noteq> Some ?n" for v using gw_okD(7) [OF ok, of v ?n] by auto
  show on: "online s' d \<longleftrightarrow> online s d" for d
    using notin old [of d] unfolding online_def s'(4) by (cases "d = ?n") auto
  have ne: "d \<noteq> ?n" if "online s d" for d using that online_lt [OF ok that] by auto
  have T: "exact (idx_get hashTopic (tpc s')) (ids s') (\<lambda>d k. online s' d \<and> k \<in> topicSet (inf s' d))"
    unfolding on s'(6) by (rule exact_agree [OF gw_okD(8) [OF ok]]) (use ne old in auto)
  have B: "exact (idx_get hashCustomerId (bnd s')) (ids s') (\<lambda>d x. online s' d \<and> x = customerId (inf s' d) \<and> x \<noteq> '''')"
    unfolding on s'(5) by (rule exact_agree [OF gw_okD(9) [OF ok]]) (use ne old in auto)
  obtain base ts where g: "incrId s = base + of_nat ?n"
      "\<And>c. c < ?n \<Longrightarrow> uniqId (inf s c) = t @ encodeUint32ToHex (of_int (ts c)) @ encodeUint32ToHex (base + of_nat c + 1) \<and>
           iid (inf s c) = push_bit 32 (of_int (ts c)) OR ucast (base + of_nat c + 1)"
    using gw_okD(4) [OF ok] unfolding gen_ok_def by blast
  have "gen_ok t s'"
    unfolding gen_ok_def
  proof (intro conjI exI [of _ base] exI [of _ "ts(?n := now)"] allI impI)
    show "incrId s' = base + of_nat (nextc s')" by (simp add: s'(2,3) g(1) NewId_def Let_def ac_simps)
    show "nextc s' \<le> 2 ^ 32" using n by (simp add: s'(2))
  next
    fix c assume "c < nextc s'"
    then consider "c < ?n" | "c = ?n" unfolding s'(2) by linarith
    then have "uniqId (inf s' c) = t @ encodeUint32ToHex (of_int ((ts(?n := now)) c)) @ encodeUint32ToHex (base + of_nat c + 1) \<and>
        iid (inf s' c) = push_bit 32 (of_int ((ts(?n := now)) c)) OR ucast (base + of_nat c + 1)"
    proof cases
      case 1
      then show ?thesis using g(2) old [of c] by simp
    next
      case 2
      then show ?thesis using k(1,2) g(1) by (simp add: s'(1) NewId_def Let_def)
    qed
    then show "uniqId (inf s' c) = t @ encodeUint32ToHex (of_int ((ts(?n := now)) c)) @ encodeUint32ToHex (base + of_nat c + 1)"
      "iid (inf s' c) = push_bit 32 (of_int ((ts(?n := now)) c)) OR ucast (base + of_nat c + 1)" by blast+
  qed
  moreover have "uniqId (inf s' d) = v \<and> d < nextc s'" if "Manager_Get v (mgr s') = Some d" for v d
    using that gw_okD(6,7) [OF ok, of v d] old [of d] unfolding s'(2,4) by auto
  moreover have "info_wf (inf s' d)" for d using gw_okD(5) [OF ok, of d] k(3) by (simp add: s'(1))
  ultimately show "gw_ok t s'" using gw_okD(1-3) [OF ok] T B unfolding gw_ok_def s'(4-6) by blast
qed

end
