(* ===== verification/TaskPost.thy ===== *)
theory TaskPost
  imports Registry
begin

text \<open>
  The commands with which a business process changes the gateway or makes it write to clients:
  \<^verbatim>\<open>src/internal/task/process\<close>, the handlers of the tables \<^verbatim>\<open>postBlockingCallback\<close> and
  \<^verbatim>\<open>postNonBlockingCallback\<close>. A handler takes the unmarshalled payload, \<open>None\<close> when unmarshalling failed.
  Its lock on the connection makes it one step of the model.
\<close>

section \<open>Payloads\<close>

record ConnInfoUpdate =
  cuUniqId :: string
  cuNewSession :: string
  cuNewCustomerId :: string
  cuNewTopics :: "string list"
  cuData :: bytes

record ConnInfoDelete =
  cdUniqId :: string
  cdDelSession :: bool
  cdDelCustomerId :: bool
  cdDelTopic :: bool
  cdData :: bytes

record TopicSubscribe =
  tsUniqId :: string
  tsTopics :: "string list"
  tsData :: bytes

record TopicDelete =
  tdTopics :: "string list"
  tdData :: bytes

record CastItem =
  ciTargets :: "string list"
  ciData :: "bytes list"

record ForceOffline =
  foTargets :: "string list"
  foData :: bytes

section \<open>Updating a connection\<close>

text \<open>\<^verbatim>\<open>len(payload.Data) > 0\<close>: forward the data to the client.\<close>

definition tell :: "'l env \<Rightarrow> cref \<Rightarrow> bytes \<Rightarrow> 'l gw \<Rightarrow> 'l gw" where
  "tell env c d s = (if length d > 0 then snd (WriteMessage env c (SendMessageType env) d s) else s)"

definition rebind :: "cref \<Rightarrow> string \<Rightarrow> 'l gw \<Rightarrow> 'l gw" where
  "rebind c newId s =
     (let oldId = customerId (inf s c);
          s = (if oldId \<noteq> '''' then s\<lparr>bnd := Binder_DelRelation oldId (ids s c) (bnd s)\<rparr> else s);
          s = s\<lparr>bnd := Binder_SetRelation newId (ids s c) c (bnd s)\<rparr>
      in updInfo (SetCustomerId newId) c s)"

definition pull :: "cref \<Rightarrow> 'l gw \<Rightarrow> 'l gw" where
  "pull c s =
     (let ts = fst (PullTopics (inf s c));
          s = updInfo (\<lambda>r. snd (PullTopics r)) c s
      in s\<lparr>tpc := Topic_DelRelationByMap (case ts of None \<Rightarrow> [] | Some m \<Rightarrow> m) (ids s c) (tpc s)\<rparr>)"

definition subscribe :: "cref \<Rightarrow> string list \<Rightarrow> 'l gw \<Rightarrow> 'l gw" where
  "subscribe c ts s =
     (let s = updInfo (SubscribeTopics ts) c s
      in s\<lparr>tpc := Topic_SetRelation ts (Some (ids s c, c)) (tpc s)\<rparr>)"

definition connInfoUpdate :: "'l env \<Rightarrow> ConnInfoUpdate option \<Rightarrow> 'l gw \<Rightarrow> 'l gw" where
  "connInfoUpdate env payload s = (case payload of None \<Rightarrow> s | Some p \<Rightarrow>
     if cuUniqId p = '''' then s
     else case Manager_Get (cuUniqId p) (mgr s) of
       None \<Rightarrow> s
     | Some c \<Rightarrow>
         if IsClosedOnSafe (ccodec (heap s c)) then s
         else let s = (if cuNewSession p \<noteq> '''' then updInfo (SetSession (cuNewSession p)) c s else s);
                  s = (if cuNewCustomerId p \<noteq> '''' then rebind c (cuNewCustomerId p) s else s);
                  s = (if length (cuNewTopics p) > 0 then subscribe c (cuNewTopics p) (pull c s) else s)
              in tell env c (cuData p) s)"

definition connInfoDelete :: "'l env \<Rightarrow> ConnInfoDelete option \<Rightarrow> 'l gw \<Rightarrow> 'l gw" where
  "connInfoDelete env payload s = (case payload of None \<Rightarrow> s | Some p \<Rightarrow>
     if cdUniqId p = '''' then s
     else case Manager_Get (cdUniqId p) (mgr s) of
       None \<Rightarrow> s
     | Some c \<Rightarrow>
         if IsClosedOnSafe (ccodec (heap s c)) then s
         else let s = (if cdDelTopic p then pull c s else s);
                  s = (if cdDelSession p then updInfo (SetSession '''') c s else s);
                  s = (if cdDelCustomerId p \<and> customerId (inf s c) \<noteq> ''''
                       then let s' = s\<lparr>bnd := Binder_DelRelation (customerId (inf s c)) (ids s c) (bnd s)\<rparr>
                            in updInfo (SetCustomerId '''') c s'
                       else s)
              in tell env c (cdData p) s)"

section \<open>Topics\<close>

definition topicSubscribe :: "'l env \<Rightarrow> TopicSubscribe option \<Rightarrow> 'l gw \<Rightarrow> 'l gw" where
  "topicSubscribe env payload s = (case payload of None \<Rightarrow> s | Some p \<Rightarrow>
     if tsUniqId p = '''' \<or> length (tsTopics p) = 0 then s
     else case Manager_Get (tsUniqId p) (mgr s) of
       None \<Rightarrow> s
     | Some c \<Rightarrow>
         if IsClosedOnSafe (ccodec (heap s c)) then s
         else tell env c (tsData p) (subscribe c (tsTopics p) s))"

definition topicUnsubscribe :: "'l env \<Rightarrow> TopicSubscribe option \<Rightarrow> 'l gw \<Rightarrow> 'l gw" where
  "topicUnsubscribe env payload s = (case payload of None \<Rightarrow> s | Some p \<Rightarrow>
     if tsUniqId p = '''' \<or> length (tsTopics p) = 0 then s
     else case Manager_Get (tsUniqId p) (mgr s) of
       None \<Rightarrow> s
     | Some c \<Rightarrow>
         if IsClosedOnSafe (ccodec (heap s c)) then s
         else let s = updInfo (UnsubscribeTopics (tsTopics p)) c s;
                  s = s\<lparr>tpc := Topic_DelRelationBySlice (tsTopics p) (ids s c) (tpc s)\<rparr>
              in tell env c (tsData p) s)"

text \<open>The nested loops of \<^verbatim>\<open>topicDelete\<close> over the removed topics and their connections.\<close>

definition unsub1 :: "string \<Rightarrow> cref \<Rightarrow> (u64, cref) gomap \<times> 'l gw \<Rightarrow> (u64, cref) gomap \<times> 'l gw" where
  "unsub1 tp c = (\<lambda>(acc, s).
     let b = fst (UnsubscribeTopicOnSafe tp (inf s c));
         s = updInfo (\<lambda>r. snd (UnsubscribeTopicOnSafe tp r)) c s
     in (if b then AList.update (ids s c) c acc else acc, s))"

definition unsubAll :: "(string, (u64, cref) gomap) gomap \<Rightarrow> 'l gw \<Rightarrow> (u64, cref) gomap \<times> 'l gw" where
  "unsubAll arr s = fold (\<lambda>(tp, connMap). fold (\<lambda>(_, c). unsub1 tp c) connMap) arr ([], s)"

definition topicDelete :: "'l env \<Rightarrow> TopicDelete option \<Rightarrow> 'l gw \<Rightarrow> 'l gw" where
  "topicDelete env payload s = (case payload of None \<Rightarrow> s | Some p \<Rightarrow>
     let (ret, tpc') = Topic_Del (tdTopics p) (tpc s);
         s = s\<lparr>tpc := tpc'\<rparr>;
         arr = (case ret of None \<Rightarrow> [] | Some m \<Rightarrow> m)
     in if length arr = 0 then s
        else let (unsubscribeConn, s) = unsubAll arr s
             in if length (tdData p) = 0 then s
                else snd (WriteToAll env (map snd unsubscribeConn) (newFrame (SendMessageType env) (tdData p)) s))"

section \<open>Casting\<close>

definition broadcastBulk :: "'l env \<Rightarrow> bytes list option \<Rightarrow> 'l gw \<Rightarrow> 'l gw" where
  "broadcastBulk env payload s = (case payload of None \<Rightarrow> s | Some datas \<Rightarrow>
     if length datas = 0 then s
     else case Manager_GetConnections (mgr s) of
       None \<Rightarrow> s
     | Some connections \<Rightarrow>
         fold (\<lambda>d s. if length d = 0 then s
                     else snd (WriteToAll env connections (newFrame (SendMessageType env) d) s)) datas s)"

fun singleCasts :: "'l env \<Rightarrow> (bytes \<times> string) list \<Rightarrow> 'l gw \<Rightarrow> 'l gw" where
  "singleCasts env [] s = s"
| "singleCasts env ((d, uid) # r) s =
     (case Manager_Get uid (mgr s) of
        None \<Rightarrow> singleCasts env r s
      | Some c \<Rightarrow> (case WriteMessage env c (SendMessageType env) d s of
            (False, s) \<Rightarrow> s
          | (True, s) \<Rightarrow> singleCasts env r s))"

text \<open>The three nested loops of \<^verbatim>\<open>singleCastBulk\<close> visit these pairs in this order, and stop at the first failure.\<close>

definition castPairs :: "CastItem list \<Rightarrow> (bytes \<times> string) list" where
  "castPairs items = concat (map (\<lambda>item. concat (map (\<lambda>d. if length d = 0 then [] else map (Pair d) (ciTargets item))
     (ciData item))) items)"

definition singleCastBulk :: "'l env \<Rightarrow> CastItem list option \<Rightarrow> 'l gw \<Rightarrow> 'l gw" where
  "singleCastBulk env payload s = (case payload of None \<Rightarrow> s | Some items \<Rightarrow> singleCasts env (castPairs items) s)"

definition singleCastBulkByCustomerId :: "'l env \<Rightarrow> CastItem list option \<Rightarrow> 'l gw \<Rightarrow> 'l gw" where
  "singleCastBulkByCustomerId env payload s = (case payload of None \<Rightarrow> s | Some items \<Rightarrow>
     fold (\<lambda>item. fold (\<lambda>d s. if length d = 0 then s
       else snd (fold (\<lambda>x (fr, s). case Binder_GetConnListByCustomerId x (bnd s) of
                   None \<Rightarrow> (fr, s) | Some cs \<Rightarrow> WriteToAll env cs fr s)
                 (ciTargets item) (newFrame (SendMessageType env) d, s))) (ciData item)) items s)"

definition topicPublishBulk :: "'l env \<Rightarrow> CastItem list option \<Rightarrow> 'l gw \<Rightarrow> 'l gw" where
  "topicPublishBulk env payload s = (case payload of None \<Rightarrow> s | Some items \<Rightarrow>
     fold (\<lambda>item. fold (\<lambda>d s. if length d = 0 then s
       else snd (fold (\<lambda>tp (fr, s). case Topic_GetConnListByTopic tp (tpc s) of
                   None \<Rightarrow> (fr, s) | Some cs \<Rightarrow> WriteToAll env cs fr s)
                 (ciTargets item) (newFrame (SendMessageType env) d, s))) (ciData item)) items s)"

section \<open>Forcing connections offline\<close>

definition StatusPolicyViolation :: status where "StatusPolicyViolation = 1008"

definition sendThenClose :: "'l env \<Rightarrow> bytes \<Rightarrow> cref \<Rightarrow> Frame \<times> 'l gw \<Rightarrow> Frame \<times> 'l gw" where
  "sendThenClose env closeFrame c = (\<lambda>(fr, s).
     let (ok, fr, s) = WriteTo env c fr s in (fr, WriteCloseFrame env c closeFrame s))"

definition forceOffline :: "'l env \<Rightarrow> ForceOffline option \<Rightarrow> 'l gw \<Rightarrow> 'l gw" where
  "forceOffline env payload s = (case payload of None \<Rightarrow> s | Some p \<Rightarrow>
     if length (foTargets p) = 0 then s
     else let closeFrame = BuildCloseFrame StatusPolicyViolation ''forceOffline''
          in if length (foData p) = 0
             then fold (\<lambda>uid s. case Manager_Get uid (mgr s) of
                          None \<Rightarrow> s | Some c \<Rightarrow> WriteCloseFrame env c closeFrame s) (foTargets p) s
             else snd (fold (\<lambda>uid (fr, s). case Manager_Get uid (mgr s) of
                          None \<Rightarrow> (fr, s) | Some c \<Rightarrow> sendThenClose env closeFrame c (fr, s))
                        (foTargets p) (newFrame (SendMessageType env) (foData p), s)))"

definition forceOfflineByCustomerId :: "'l env \<Rightarrow> ForceOffline option \<Rightarrow> 'l gw \<Rightarrow> 'l gw" where
  "forceOfflineByCustomerId env payload s = (case payload of None \<Rightarrow> s | Some p \<Rightarrow>
     let closeFrame = BuildCloseFrame StatusPolicyViolation ''forceOfflineByCustomerId'';
         customerIdConnList = Binder_GetConnListByCustomerIds (foTargets p) (bnd s)
     in if length (foData p) = 0
        then fold (\<lambda>(_, connList). fold (\<lambda>c. WriteCloseFrame env c closeFrame) connList) customerIdConnList s
        else snd (fold (\<lambda>(_, connList). fold (sendThenClose env closeFrame) connList) customerIdConnList
                   (newFrame (SendMessageType env) (foData p), s)))"

text \<open>The closure of \<^verbatim>\<open>forceOfflineGuest\<close>, run at once or by the timer.\<close>

definition guests :: "'l env \<Rightarrow> ForceOfflineGuest \<Rightarrow> 'l gw \<Rightarrow> 'l gw" where
  "guests env p s =
     (let closeFrame = BuildCloseFrame StatusPolicyViolation ''forceOfflineGuest''
      in snd (fold (\<lambda>uid (msg, s). case Manager_Get uid (mgr s) of
                None \<Rightarrow> (msg, s)
              | Some c \<Rightarrow>
                  if IsLoginOnSafe (inf s c) then (msg, s)
                  else case msg of
                         None \<Rightarrow> (msg, WriteCloseFrame env c closeFrame s)
                       | Some fr \<Rightarrow> (let (fr, s) = sendThenClose env closeFrame c (fr, s) in (Some fr, s)))
              (fgUniqIds p)
              (if length (fgData p) > 0 then Some (newFrame (SendMessageType env) (fgData p)) else None, s)))"

definition forceOfflineGuest :: "'l env \<Rightarrow> ForceOfflineGuest option \<Rightarrow> 'l gw \<Rightarrow> 'l gw" where
  "forceOfflineGuest env payload s = (case payload of None \<Rightarrow> s | Some p \<Rightarrow>
     if length (fgUniqIds p) = 0 then s
     else if fgDelay p \<le> 0 then guests env p s
     else s\<lparr>timers := timers s @ [GuestIn (fgDelay p) p]\<rparr>)"

section \<open>What the commands keep\<close>

text \<open>
  \<open>keeps a s\<close>: from \<open>a\<close> to \<open>s\<close> nobody entered or left the manager, identities and codec flags are
  the same, closed connections stay closed, connections that are not in the manager are as they were, and no task was submitted.
\<close>

definition keeps :: "'l gw \<Rightarrow> 'l gw \<Rightarrow> bool" where
  "keeps a s \<longleftrightarrow> mgr s = mgr a \<and> nextc s = nextc a \<and> incrId s = incrId a \<and> tasks s = tasks a \<and>
     (\<forall>c. ids s c = ids a c \<and> uniqId (inf s c) = uniqId (inf a c) \<and> (shut a c \<longrightarrow> shut s c) \<and>
        cflags (ccodec (heap s c)) = cflags (ccodec (heap a c)) \<and>
        (online a c \<or> ident (inf s c) = ident (inf a c)))"

definition good :: "string \<Rightarrow> 'l gw \<Rightarrow> 'l gw \<Rightarrow> bool" where
  "good t a s \<longleftrightarrow> gw_ok t s \<and> keeps a s"

lemma keepsD:
  assumes "keeps a s"
  shows "mgr s = mgr a" "nextc s = nextc a" "incrId s = incrId a" "tasks s = tasks a" "ids s c = ids a c"
    "uniqId (inf s c) = uniqId (inf a c)" "shut a c \<Longrightarrow> shut s c"
    "cflags (ccodec (heap s c)) = cflags (ccodec (heap a c))" "\<not> online a c \<Longrightarrow> ident (inf s c) = ident (inf a c)"
  using assms unfolding keeps_def by blast+

lemma keeps_online: "keeps a s \<Longrightarrow> online s c = online a c"
  by (simp add: online_def keepsD)

lemma keeps_refl [simp, intro]: "keeps a a"
  by (simp add: keeps_def)

lemma good_refl: "gw_ok t a \<Longrightarrow> good t a a"
  by (simp add: good_def)

lemma keeps_trans: "keeps a b \<Longrightarrow> keeps b s \<Longrightarrow> keeps a s"
  by (simp add: keeps_def online_def) metis

lemma quiet_keeps: "quiet a s \<Longrightarrow> keeps a s"
  by (simp add: quiet_def keeps_def core_def ident_def fun_eq_iff)

lemma good_quiet: "good t a s \<Longrightarrow> quiet s s' \<Longrightarrow> good t a s'"
  unfolding good_def using gw_ok_quiet keeps_trans quiet_keeps by blast

lemma goodD: "good t a s \<Longrightarrow> gw_ok t s" "good t a s \<Longrightarrow> online a c \<Longrightarrow> online s c"
  by (auto simp: good_def keeps_online)

text \<open>A connection in the manager changes, together with the indexes.\<close>

lemma good_upd:
  assumes g: "good t a s" and on: "online a c" and ok: "gw_ok t s'"
    and f: "iid (f (inf s c)) = ids s c" "uniqId (f (inf s c)) = uniqId (inf s c)"
    and s': "heap s' = heap (updInfo f c s)" "mgr s' = mgr s" "nextc s' = nextc s" "incrId s' = incrId s" "tasks s' = tasks s"
  shows "good t a s'"
proof -
  have "keeps a s" using g by (simp add: good_def)
  then show ?thesis
    using ok f on s'(2-5) unfolding good_def keeps_def shut_def s'(1) by (auto simp: updInfo_def)
qed

lemma good_subscribe:
  assumes g: "good t a s" and on: "online a c"
  shows "good t a (subscribe c ts s)"
  using gw_ok_subscribe [OF goodD(1) [OF g] goodD(2) [OF g on], of ts]
  by (intro good_upd [OF g on, where f = "SubscribeTopics ts"])
    (auto simp: subscribe_def Let_def updInfo_def)

lemma good_pull:
  assumes g: "good t a s" and on: "online a c"
  shows "good t a (pull c s)"
proof -
  have e: "pull c s = (updInfo (\<lambda>r. snd (PullTopics r)) c s)\<lparr>tpc := Topic_DelRelationBySlice (getTopics (inf s c)) (ids s c) (tpc s)\<rparr>"
    by (simp add: pull_def Let_def updInfo_def PullTopics_def DelRelation_eq getTopics_def)
  have "gw_ok t (pull c s)"
    unfolding e by (rule gw_ok_drop_topics [OF goodD(1) [OF g] goodD(2) [OF g on]]) (auto simp: info_wf_simple)
  then show ?thesis
    by (intro good_upd [OF g on, where f = "\<lambda>r. snd (PullTopics r)"]) (auto simp: e updInfo_def)
qed

lemma good_unbind:
  assumes g: "good t a s" and on: "online a c"
  shows "good t a (updInfo (SetCustomerId '''') c (s\<lparr>bnd := Binder_DelRelation (customerId (inf s c)) (ids s c) (bnd s)\<rparr>))"
proof -
  have e: "updInfo (SetCustomerId '''') c (s\<lparr>bnd := Binder_DelRelation (customerId (inf s c)) (ids s c) (bnd s)\<rparr>)
      = (updInfo (SetCustomerId '''') c s)\<lparr>bnd := Binder_DelRelation (customerId (inf s c)) (ids s c) (bnd s)\<rparr>"
    by (simp add: updInfo_def)
  show ?thesis
    unfolding e
    by (rule good_upd [OF g on gw_ok_unbind [OF goodD(1) [OF g] goodD(2) [OF g on]], where f = "SetCustomerId ''''"])
      (auto simp: updInfo_def)
qed

lemma good_rebind:
  assumes g: "good t a s" and on: "online a c" and x: "x \<noteq> ''''"
  shows "good t a (rebind c x s)"
proof -
  let ?u = "updInfo (SetCustomerId '''') c (s\<lparr>bnd := Binder_DelRelation (customerId (inf s c)) (ids s c) (bnd s)\<rparr>)"
  define u where "u = (if customerId (inf s c) \<noteq> '''' then ?u else s)"
  have gu: "good t a u" using good_unbind [OF g on] g by (simp add: u_def)
  have e: "rebind c x s = (updInfo (SetCustomerId x) c u)\<lparr>bnd := Binder_SetRelation x (ids u c) c (bnd u)\<rparr>"
    by (simp add: rebind_def u_def Let_def updInfo_def SetCustomerId_def)
  have "customerId (inf u c) = ''''" by (simp add: u_def updInfo_def)
  then show ?thesis
    unfolding e using gw_ok_bind [OF goodD(1) [OF gu] goodD(2) [OF gu on] _ x]
    by (intro good_upd [OF gu on, where f = "SetCustomerId x"]) (auto simp: updInfo_def)
qed

lemma good_SetSession:
  assumes g: "good t a s"
  shows "good t a (updInfo (SetSession x) c s)"
proof (rule good_quiet [OF g])
  show "quiet s (updInfo (SetSession x) c s)"
    by (auto simp: quiet_def core_def shut_def updInfo_def ident_def fun_eq_iff)
qed

lemma good_tell: "good t a s \<Longrightarrow> good t a (tell env c d s)"
  by (auto simp: tell_def intro: good_quiet quiet_WriteMessage)

lemma good_unsubscribe:
  assumes g: "good t a s" and on: "online a c"
  shows "good t a ((updInfo (UnsubscribeTopics ts) c s)\<lparr>tpc := Topic_DelRelationBySlice ts (ids s c) (tpc s)\<rparr>)"
proof (rule good_upd [OF g on, where f = "UnsubscribeTopics ts"])
  show "gw_ok t ((updInfo (UnsubscribeTopics ts) c s)\<lparr>tpc := Topic_DelRelationBySlice ts (ids s c) (tpc s)\<rparr>)"
    by (rule gw_ok_drop_topics [OF goodD(1) [OF g] goodD(2) [OF g on]])
      (use gw_okD(5) [OF goodD(1) [OF g], of c] in \<open>auto intro: info_wf_Unsubscribe\<close>)
qed (auto simp: updInfo_def)

lemmas good_ops = good_subscribe good_pull good_unbind good_rebind good_SetSession good_tell good_unsubscribe

text \<open>The four commands that work on one connection.\<close>

lemma connInfoUpdate_good: "gw_ok t s \<Longrightarrow> good t s (connInfoUpdate env p s)"
  unfolding connInfoUpdate_def Let_def
  by (auto intro!: good_ops good_refl online_Get split: option.split)

lemma connInfoDelete_good: "gw_ok t s \<Longrightarrow> good t s (connInfoDelete env p s)"
  unfolding connInfoDelete_def Let_def
  by (auto intro!: good_ops good_refl online_Get split: option.split)

lemma topicSubscribe_good: "gw_ok t s \<Longrightarrow> good t s (topicSubscribe env p s)"
  unfolding topicSubscribe_def Let_def
  by (auto intro!: good_ops good_refl online_Get split: option.split)

lemma topicUnsubscribe_good: "gw_ok t s \<Longrightarrow> good t s (topicUnsubscribe env p s)"
proof (cases p)
  case (Some q)
  assume ok: "gw_ok t s"
  show ?thesis
  proof (cases "Manager_Get (tsUniqId q) (mgr s)")
    case (Some c)
    have "good t s ((updInfo (UnsubscribeTopics (tsTopics q)) c s)\<lparr>tpc := Topic_DelRelationBySlice (tsTopics q) (ids s c) (tpc s)\<rparr>)"
      using good_unsubscribe [OF good_refl [OF ok] online_Get [OF ok Some]] .
    then show ?thesis
      using \<open>p = _\<close> Some ok by (auto simp: topicUnsubscribe_def Let_def updInfo_def intro: good_tell good_refl)
  qed (use \<open>p = _\<close> ok in \<open>auto simp: topicUnsubscribe_def intro: good_refl\<close>)
qed (auto simp: topicUnsubscribe_def intro: good_refl)

text \<open>The loops of \<^verbatim>\<open>topicDelete\<close> visit these pairs of a topic and a connection.\<close>

definition delPairs :: "(string, (u64, cref) gomap) gomap \<Rightarrow> (string \<times> cref) list" where
  "delPairs arr = concat (map (\<lambda>(tp, m). map (\<lambda>(_, c). (tp, c)) m) arr)"

lemma unsubAll_pairs: "unsubAll arr s = fold (\<lambda>(tp, c). unsub1 tp c) (delPairs arr) ([], s)"
proof -
  have inner: "fold (\<lambda>(_, c). unsub1 tp c) m p = fold (\<lambda>(tp, c). unsub1 tp c) (map (\<lambda>(_, c). (tp, c)) m) p"
    for tp m and p :: "(u64, cref) gomap \<times> 'a gw"
    by (induction m arbitrary: p) auto
  have "fold (\<lambda>(tp, connMap). fold (\<lambda>(_, c). unsub1 tp c) connMap) arr p = fold (\<lambda>(tp, c). unsub1 tp c) (delPairs arr) p"
    for p :: "(u64, cref) gomap \<times> 'a gw"
    by (induction arr arbitrary: p) (auto simp: delPairs_def inner)
  then show ?thesis by (simp add: unsubAll_def)
qed

text \<open>One pass over the pairs: the heap, the rest of the state, and the connections to be told.\<close>

definition unsubHeap :: "(string \<times> cref) list \<Rightarrow> (cref \<Rightarrow> conn) \<Rightarrow> cref \<Rightarrow> conn" where
  "unsubHeap ps h = fold (\<lambda>(tp, c) h. h(c := (h c)\<lparr>cinfo := snd (UnsubscribeTopicOnSafe tp (cinfo (h c)))\<rparr>)) ps h"

lemma unsub_state: "snd (fold (\<lambda>(tp, c). unsub1 tp c) ps (acc, s)) = s\<lparr>heap := unsubHeap ps (heap s)\<rparr>"
  by (induction ps arbitrary: acc s) (auto simp: unsub1_def unsubHeap_def updInfo_def Let_def)

lemma unsubHeap_Cons:
  "unsubHeap ((tp, d) # ps) h = unsubHeap ps (h(d := (h d)\<lparr>cinfo := snd (UnsubscribeTopicOnSafe tp (cinfo (h d)))\<rparr>))"
  by (simp add: unsubHeap_def)

lemma unsubHeap_at:
  "ccodec (unsubHeap ps h c) = ccodec (h c)"
  "iid (cinfo (unsubHeap ps h c)) = iid (cinfo (h c))"
  "uniqId (cinfo (unsubHeap ps h c)) = uniqId (cinfo (h c))"
  "customerId (cinfo (unsubHeap ps h c)) = customerId (cinfo (h c))"
  "c \<notin> snd ` set ps \<Longrightarrow> unsubHeap ps h c = h c"
  by (induction ps arbitrary: h) (auto simp: unsubHeap_Cons unsubHeap_def [of "[]"])

lemma unsubHeap_topics:
  "topicSet (cinfo (unsubHeap ps h c)) = topicSet (cinfo (h c)) - {tp. (tp, c) \<in> set ps}"
proof (induction ps arbitrary: h)
  case (Cons p ps)
  obtain tp d where p: "p = (tp, d)" by fastforce
  show ?case unfolding p unsubHeap_Cons Cons.IH by auto
qed (simp add: unsubHeap_def)

lemma unsubHeap_wf: "info_wf (cinfo (h c)) \<Longrightarrow> info_wf (cinfo (unsubHeap ps h c))"
proof (induction ps arbitrary: h)
  case (Cons p ps)
  obtain tp d where p: "p = (tp, d)" by fastforce
  show ?case unfolding p unsubHeap_Cons by (rule Cons.IH) (use Cons.prems in \<open>auto simp: info_wf_UnsubscribeTopic\<close>)
qed (simp add: unsubHeap_def)

lemma told_mem:
  "\<forall>(i, c) \<in> set acc. c \<in> K \<and> i = ids s c \<Longrightarrow> (i, d) \<in> set acc \<longleftrightarrow> i = ids s d \<and> d \<in> snd ` set acc"
  by (auto simp: image_iff split: prod.splits) (metis snd_conv)+

lemma unsub_told:
  assumes "gm_ok acc" "inj_on (ids s) K"
    and "snd ` set ps \<subseteq> K" "\<forall>(i, c) \<in> set acc. c \<in> K \<and> i = ids s c"
  shows "gm_ok (fst (fold (\<lambda>(tp, c). unsub1 tp c) ps (acc, s))) \<and>
    (\<forall>i c. (i, c) \<in> set (fst (fold (\<lambda>(tp, c). unsub1 tp c) ps (acc, s))) \<longleftrightarrow>
       i = ids s c \<and> (c \<in> snd ` set acc \<or> (\<exists>tp \<in> topicSet (inf s c). (tp, c) \<in> set ps)))"
  using assms
proof (induction ps arbitrary: acc s)
  case Nil
  then show ?case using told_mem [OF Nil(4)] by simp
next
  case (Cons p ps)
  obtain tp c where p: "p = (tp, c)" by fastforce
  let ?s = "updInfo (\<lambda>r. snd (UnsubscribeTopicOnSafe tp r)) c s"
  let ?b = "fst (UnsubscribeTopicOnSafe tp (inf s c))"
  let ?acc = "if ?b then AList.update (ids s c) c acc else acc"
  have b: "?b \<longleftrightarrow> tp \<in> topicSet (inf s c)" by (simp add: UnsubscribeTopicOnSafe_def)
  have ids: "ids ?s d = ids s d" for d by (simp add: updInfo_def)
  have tset: "topicSet (inf ?s d) = topicSet (inf s d) - (if d = c then {tp} else {})" for d
    by (simp add: updInfo_def)
  have step: "unsub1 tp c (acc, s) = (?acc, ?s)" by (simp add: unsub1_def Let_def updInfo_def)
  have upd: "set (AList.update (ids s c) c acc) = insert (ids s c, c) {(i, d) \<in> set acc. i \<noteq> ids s c}"
    if "gm_ok acc"
  proof -
    have "(i, d) \<in> set (AList.update (ids s c) c acc) \<longleftrightarrow> (i, d) = (ids s c, c) \<or> (i, d) \<in> set acc \<and> i \<noteq> ids s c" for i d
      using map_of_Some_in_set [OF gm_ok_update [OF that], of "ids s c" c i d] map_of_Some_in_set [OF that, of i d] by (auto split: if_splits)
    then show ?thesis by auto
  qed
  have c: "c \<in> K" using Cons.prems(3) p by auto
  have acc: "(i, d) \<in> set ?acc \<longleftrightarrow> i = ids s d \<and> (d \<in> snd ` set acc \<or> d = c \<and> ?b)" for i d
  proof -
    note old = told_mem [OF Cons.prems(4)]
    have "ids s d = ids s c \<Longrightarrow> d \<in> snd ` set acc \<Longrightarrow> d = c" for d
      using inj_onD [OF Cons.prems(2), of d c] Cons.prems(4) c by (auto split: prod.splits)
    then show ?thesis using old upd [OF Cons.prems(1)] by auto
  qed
  have ok: "gm_ok ?acc" using Cons.prems(1) by simp
  have accK: "\<forall>(i, d) \<in> set ?acc. d \<in> K \<and> i = ids ?s d"
    unfolding ids using acc c Cons.prems(4) by (auto split: prod.splits)
  have accS: "d \<in> snd ` set ?acc \<longleftrightarrow> d \<in> snd ` set acc \<or> d = c \<and> ?b" for d
  proof -
    have "d \<in> snd ` set ?acc \<longleftrightarrow> (\<exists>i. (i, d) \<in> set ?acc)" by force
    then show ?thesis unfolding acc by simp
  qed
  have sub: "snd ` set ps \<subseteq> K" using Cons.prems(3) by auto
  have dist: "inj_on (ids ?s) K" unfolding ids by (rule Cons.prems(2))
  note IH = Cons.IH [OF ok dist sub accK, unfolded ids accS tset]
  have f: "fold (\<lambda>(tp, c). unsub1 tp c) (p # ps) (acc, s) = fold (\<lambda>(tp, c). unsub1 tp c) ps (?acc, ?s)"
    by (simp add: p step)
  have eq: "((d \<in> snd ` set acc \<or> d = c \<and> ?b) \<or> (\<exists>q \<in> topicSet (inf s d) - (if d = c then {tp} else {}). (q, d) \<in> set ps))
     \<longleftrightarrow> (d \<in> snd ` set acc \<or> (\<exists>q \<in> topicSet (inf s d). (q, d) \<in> set (p # ps)))" for d
    unfolding b p by auto
  show ?case
    unfolding f by (rule conjI [OF conjunct1 [OF IH]]) (unfold eq [symmetric], rule conjunct2 [OF IH])
qed

definition removedTopics :: "string list \<Rightarrow> 'l gw \<Rightarrow> (string, (u64, cref) gomap) gomap" where
  "removedTopics ts s = (case fst (Topic_Del ts (tpc s)) of None \<Rightarrow> [] | Some m \<Rightarrow> m)"

text \<open>The state after the topics are gone from the index and from the connections, before anybody is told.\<close>

definition dropTopics :: "string list \<Rightarrow> 'l gw \<Rightarrow> 'l gw" where
  "dropTopics ts s = s\<lparr>tpc := snd (Topic_Del ts (tpc s)), heap := unsubHeap (delPairs (removedTopics ts s)) (heap s)\<rparr>"

definition toldConns :: "string list \<Rightarrow> 'l gw \<Rightarrow> cref list" where
  "toldConns ts s = map snd (fst (fold (\<lambda>(tp, c). unsub1 tp c) (delPairs (removedTopics ts s)) ([], s\<lparr>tpc := snd (Topic_Del ts (tpc s))\<rparr>)))"

lemma topicDelete_eq:
  "topicDelete env (Some p) s = (if tdData p = [] then dropTopics (tdTopics p) s
     else snd (WriteToAll env (toldConns (tdTopics p) s) (newFrame (SendMessageType env) (tdData p)) (dropTopics (tdTopics p) s)))"
proof -
  obtain ret T where d: "Topic_Del (tdTopics p) (tpc s) = (ret, T)" by fastforce
  have r: "removedTopics (tdTopics p) s = (case ret of None \<Rightarrow> [] | Some m \<Rightarrow> m)" by (simp add: removedTopics_def d)
  let ?arr = "removedTopics (tdTopics p) s"
  let ?u = "unsubAll ?arr (s\<lparr>tpc := T\<rparr>)"
  have u: "fst ?u = fst (fold (\<lambda>(tp, c). unsub1 tp c) (delPairs ?arr) ([], s\<lparr>tpc := T\<rparr>))"
    "snd ?u = (s\<lparr>tpc := T\<rparr>)\<lparr>heap := unsubHeap (delPairs ?arr) (heap s)\<rparr>"
    using unsub_state [of "delPairs ?arr" "[]" "s\<lparr>tpc := T\<rparr>"] by (simp_all add: unsubAll_pairs)
  show ?thesis
    unfolding topicDelete_def option.case d prod.case Let_def r [symmetric]
    by (simp add: case_prod_unfold u dropTopics_def toldConns_def d)
      (auto simp: delPairs_def unsubHeap_def WriteToAll_def)
qed

lemma removedTopics_pairs:
  assumes ok: "gw_ok t s"
  shows "(tp, c) \<in> set (delPairs (removedTopics ts s)) \<longleftrightarrow>
     tp \<in> set ts \<and> tp \<noteq> '''' \<and> online s c \<and> tp \<in> topicSet (inf s c)"
proof (cases "ts = []")
  case True
  then show ?thesis by (simp add: removedTopics_def Topic_Del_unfold delPairs_def)
next
  case False
  then obtain ret where r: "fst (Topic_Del ts (tpc s)) = Some ret" "gm_ok ret"
      "map_of ret = (\<lambda>t. if t \<in> set ts \<and> t \<noteq> '''' then topic_at (tpc s) t else None)"
    using Topic_Del_ret by blast
  have "(tp, c) \<in> set (delPairs ret) \<longleftrightarrow> (\<exists>m i. map_of ret tp = Some m \<and> (i, c) \<in> set m)"
    unfolding map_of_Some_in_set [OF r(2)] by (force simp: delPairs_def)
  also have "\<dots> \<longleftrightarrow> tp \<in> set ts \<and> tp \<noteq> '''' \<and> (\<exists>i. idx_get hashTopic (tpc s) tp i = Some c)"
  proof -
    have "gm_ok m" if "topic_at (tpc s) tp = Some m" for m
      using gw_okD(2) [OF ok] that by (auto simp: topic_wf_def idx_wf_def)
    then show ?thesis
      unfolding r(3) idx_get_def by (cases "topic_at (tpc s) tp") (auto simp: map_of_Some_in_set)
  qed
  also have "\<dots> \<longleftrightarrow> tp \<in> set ts \<and> tp \<noteq> '''' \<and> online s c \<and> tp \<in> topicSet (inf s c)"
    using exactD [OF gw_okD(8) [OF ok]] by simp
  finally show ?thesis by (simp add: removedTopics_def r(1))
qed

lemma dropTopics_topics:
  assumes ok: "gw_ok t s"
  shows "topicSet (inf (dropTopics ts s) c) = topicSet (inf s c) - (if online s c then set ts else {})"
  using gw_okD(5) [OF ok, of c]
  by (auto simp: dropTopics_def unsubHeap_topics removedTopics_pairs [OF ok] info_wf_def)

lemma dropTopics_good:
  assumes ok: "gw_ok t s"
  shows "good t s (dropTopics ts s)"
proof -
  let ?s = "dropTopics ts s"
  have out: "\<not> online s c \<Longrightarrow> c \<notin> snd ` set (delPairs (removedTopics ts s))" for c
    using removedTopics_pairs [OF ok] by auto
  have f: "ids ?s c = ids s c" "uniqId (inf ?s c) = uniqId (inf s c)" "customerId (inf ?s c) = customerId (inf s c)"
    "ccodec (heap ?s c) = ccodec (heap s c)" "info_wf (inf ?s c)" "\<not> online s c \<Longrightarrow> heap ?s c = heap s c" for c
    using gw_okD(5) [OF ok, of c] unsubHeap_at(5) [OF out, of c "heap s"]
    by (simp_all add: dropTopics_def unsubHeap_at(1-4) unsubHeap_wf)
  have g: "mgr ?s = mgr s" "nextc ?s = nextc s" "incrId ?s = incrId s" "tasks ?s = tasks s" "bnd ?s = bnd s"
    "tpc ?s = snd (Topic_Del ts (tpc s))" by (simp_all add: dropTopics_def)
  have k: "keeps s ?s" unfolding keeps_def shut_def f(1,2,4) g using f(6) by simp metis
  have on: "online ?s c = online s c" for c using keeps_online [OF k] .
  have "idx_get hashTopic (tpc ?s) tp i = Some c \<longleftrightarrow> (online s c \<and> tp \<in> topicSet (inf ?s c)) \<and> ids s c = i" for tp i c
  proof -
    have "idx_get hashTopic (tpc ?s) tp i = (if tp \<in> set ts \<and> tp \<noteq> '''' then None else idx_get hashTopic (tpc s) tp i)"
      by (simp add: idx_get_def g Topic_Del_at)
    then show ?thesis
      using exactD [OF gw_okD(8) [OF ok], of tp i c] gw_okD(5) [OF ok, of c]
      by (auto simp: dropTopics_topics [OF ok] info_wf_def)
  qed
  then have T: "exact (idx_get hashTopic (tpc ?s)) (ids ?s) (\<lambda>c tp. online ?s c \<and> tp \<in> topicSet (inf ?s c))"
    by (simp add: exact_def f(1) on)
  have B: "exact (idx_get hashCustomerId (bnd ?s)) (ids ?s) (\<lambda>c x. online ?s c \<and> x = customerId (inf ?s c) \<and> x \<noteq> '''')"
    unfolding f(1,3) on g using gw_okD(9) [OF ok] .
  have "gen_ok t ?s" using gw_okD(4) [OF ok] unfolding gen_ok_def f(1,2) g .
  then have "gw_ok t ?s"
    using gw_okD(1-3,6,7) [OF ok] topic_wf_Del [OF gw_okD(2) [OF ok], of ts] T B f(5)
    unfolding gw_ok_def f(2) g by blast
  then show ?thesis using k by (simp add: good_def)
qed

lemma topicDelete_good: "gw_ok t s \<Longrightarrow> good t s (topicDelete env p s)"
proof (cases p)
  case (Some q)
  assume "gw_ok t s"
  then show ?thesis
    using good_quiet [OF dropTopics_good quiet_WriteToAll [OF quiet_refl]] dropTopics_good
    unfolding Some topicDelete_eq by auto
qed (simp add: topicDelete_def good_refl)

lemma toldConns_set:
  assumes ok: "gw_ok t s"
  shows "c \<in> set (toldConns ts s) \<longleftrightarrow> online s c \<and> (\<exists>tp \<in> topicSet (inf s c). tp \<in> set ts)" "distinct (toldConns ts s)"
proof -
  let ?ps = "delPairs (removedTopics ts s)" and ?s = "s\<lparr>tpc := snd (Topic_Del ts (tpc s))\<rparr>"
  let ?told = "fst (fold (\<lambda>(tp, c). unsub1 tp c) ?ps ([], ?s))"
  have inj: "inj_on (ids ?s) {c. online s c}"
    by (rule inj_onI) (use ids_distinct [OF ok online_lt [OF ok]] in auto)
  have sub: "snd ` set ?ps \<subseteq> {c. online s c}" using removedTopics_pairs [OF ok] by auto
  have told: "gm_ok ?told \<and> (\<forall>i c. (i, c) \<in> set ?told \<longleftrightarrow> i = ids s c \<and> (\<exists>tp \<in> topicSet (inf s c). (tp, c) \<in> set ?ps))"
    using unsub_told [OF _ inj sub, of "[]"] by simp
  have wf: "'''' \<notin> topicSet (inf s c)" using gw_okD(5) [OF ok, of c] by (simp add: info_wf_def)
  have "c \<in> set (toldConns ts s) \<longleftrightarrow> (\<exists>i. (i, c) \<in> set ?told)" by (force simp: toldConns_def)
  then show "c \<in> set (toldConns ts s) \<longleftrightarrow> online s c \<and> (\<exists>tp \<in> topicSet (inf s c). tp \<in> set ts)"
    using told wf removedTopics_pairs [OF ok, of _ c ts] by auto
  have "inj_on snd (set ?told)" using told by (auto intro!: inj_onI)
  moreover have "distinct ?told" using told by (simp add: distinct_map)
  ultimately show "distinct (toldConns ts s)" by (simp add: toldConns_def distinct_map)
qed

end
