(* ===== verification/Delivery.thy ===== *)
theory Delivery
  imports TaskPost
begin

text \<open>
  What reaches the clients: every command of \<open>TaskPost\<close> that writes is reduced to a sequence of single
  writes (\<open>casts\<close>), which shows that the frame cache of \<^verbatim>\<open>src/internal/customer/frame.go\<close> does not change
  what is sent and, with the exactness of the registries, who receives which bytes in which order.
\<close>

section \<open>What clients receive\<close>

text \<open>The frame that a message becomes for a connection, without any cache.\<close>

definition encoded :: "'l env \<Rightarrow> conn \<Rightarrow> opcode \<Rightarrow> bytes \<Rightarrow> bytes option" where
  "encoded env k op d =
     (if IsCompressOnSafe (ccodec k) \<and> length d > compressingValue env
      then map_option (serverFrame 4 op) (deflate env d) else Some (serverFrame 0 op d))"

definition received :: "'l gw \<Rightarrow> cref \<Rightarrow> bytes list" where
  "received s c = map snd (filter (\<lambda>p. fst p = c) (outbox s))"

definition cache_ok :: "'l env \<Rightarrow> opcode \<Rightarrow> bytes \<Rightarrow> Frame \<Rightarrow> bool" where
  "cache_ok env op d fr \<longleftrightarrow> messageType fr = op \<and> fdata fr = d \<and>
     (\<forall>bs. fcompressed fr = Some bs \<longrightarrow> map_option (serverFrame 4 op) (deflate env d) = Some bs) \<and>
     (\<forall>bs. funcompressed fr = Some bs \<longrightarrow> bs = serverFrame 0 op d)"

lemma cache_ok_new [simp]: "cache_ok env op d (newFrame op d)"
  by (simp add: cache_ok_def newFrame_def)

lemma WriteMessage_eq:
  "WriteMessage env c op d s = (if shut s c then (False, s) else
     case encoded env (heap s c) op d of
       None \<Rightarrow> (False, mark ItemCustomerWriteFailedByte (int (length d)) (mark ItemCustomerWriteFailedCount 1 s))
     | Some bs \<Rightarrow> send_counted env c bs s)"
  by (auto simp: WriteMessage_def WriteTo_def newFrame_def encoded_def shut_def IsClosedOnSafe_def case_prod_unfold Let_def
      split: option.splits)

lemma WriteTo_cached:
  assumes "cache_ok env op d fr"
  shows "cache_ok env op d (fst (snd (WriteTo env c fr s)))" "fst (WriteTo env c fr s) = fst (WriteMessage env c op d s)"
    "snd (snd (WriteTo env c fr s)) = snd (WriteMessage env c op d s)"
  using assms unfolding WriteMessage_eq
  by (auto simp: WriteTo_def encoded_def shut_def IsClosedOnSafe_def cache_ok_def case_prod_unfold Let_def
      split: option.splits)

lemma WriteMessage_frame [simp]:
  "heap (snd (WriteMessage env c op d s)) = heap s" "mgr (snd (WriteMessage env c op d s)) = mgr s"
  "bnd (snd (WriteMessage env c op d s)) = bnd s" "tpc (snd (WriteMessage env c op d s)) = tpc s"
  by (auto simp: WriteMessage_eq send_counted_def AsyncWriteOnSafe_def mark_def case_prod_unfold Let_def split: option.splits)

text \<open>Writing data to connections one after the other.\<close>

definition casts :: "'l env \<Rightarrow> opcode \<Rightarrow> (bytes \<times> cref) list \<Rightarrow> 'l gw \<Rightarrow> 'l gw" where
  "casts env op ps s = fold (\<lambda>(d, c) s. snd (WriteMessage env c op d s)) ps s"

lemma casts_simps [simp]:
  "casts env op [] s = s" "casts env op (ps @ qs) s = casts env op qs (casts env op ps s)"
  "casts env op ((d, c) # ps) s = casts env op ps (snd (WriteMessage env c op d s))"
  by (simp_all add: casts_def)

lemma casts_frame [simp]:
  "heap (casts env op ps s) = heap s" "mgr (casts env op ps s) = mgr s" "bnd (casts env op ps s) = bnd s"
  "tpc (casts env op ps s) = tpc s"
  by (induction ps arbitrary: s) auto

lemma quiet_casts: "quiet a s \<Longrightarrow> quiet a (casts env op ps s)"
  by (induction ps arbitrary: s) (auto simp: quiet_WriteMessage)

lemma WriteToAll_casts:
  assumes "cache_ok env op d fr"
  shows "cache_ok env op d (fst (WriteToAll env cs fr s)) \<and> snd (WriteToAll env cs fr s) = casts env op (map (Pair d) cs) s"
  using assms
proof (induction cs arbitrary: fr s)
  case (Cons c cs)
  obtain ok fr' s' where w: "WriteTo env c fr s = (ok, fr', s')" using prod_cases3 by blast
  have "WriteToAll env (c # cs) fr s = WriteToAll env cs fr' s'" by (simp add: WriteToAll_def w)
  then show ?case
    using Cons.IH [of fr' s'] WriteTo_cached(1,3) [OF Cons.prems, of c s] by (simp add: w)
qed (simp add: WriteToAll_def)

lemma cast_targets:
  assumes L: "\<And>x p. L x (casts env op p s) = L x s" and "cache_ok env op d fr"
  shows "snd (fold (\<lambda>x (fr, s). case L x s of None \<Rightarrow> (fr, s) | Some cs \<Rightarrow> WriteToAll env cs fr s) xs (fr, casts env op qs s))
     = casts env op (qs @ map (Pair d) (concat (map (\<lambda>x. case L x s of None \<Rightarrow> [] | Some cs \<Rightarrow> cs) xs))) s"
  using assms(2)
proof (induction xs arbitrary: fr qs)
  case (Cons x xs)
  show ?case
  proof (cases "L x s")
    case (Some cs)
    note w = WriteToAll_casts [OF Cons.prems, of cs "casts env op qs s"]
    obtain fr' s' where p: "WriteToAll env cs fr (casts env op qs s) = (fr', s')" by fastforce
    then have "cache_ok env op d fr'" "s' = casts env op (qs @ map (Pair d) cs) s" using w by auto
    then show ?thesis using Cons.IH [of fr' "qs @ map (Pair d) cs"] Some by (simp add: L p)
  qed (use Cons in \<open>simp add: L\<close>)
qed simp

lemma casts_received:
  assumes "\<And>n. asyncOk env n" "\<And>d. deflate env d \<noteq> None"
  shows "received (casts env op ps s) c = received s c @
     (if shut s c then [] else map (\<lambda>(d, _). the (encoded env (heap s c) op d)) (filter (\<lambda>p. snd p = c) ps))"
proof (induction ps arbitrary: s)
  case (Cons p ps)
  obtain d x where p: "p = (d, x)" by fastforce
  have "deflate env d \<noteq> None" "asyncOk env (writes s)" using assms by blast+
  then have w: "received (snd (WriteMessage env x op d s)) c = received s c @ (if x = c \<and> \<not> shut s c then [the (encoded env (heap s c) op d)] else [])"
    by (auto simp: WriteMessage_eq encoded_def send_counted_def AsyncWriteOnSafe_def mark_def received_def
        case_prod_unfold Let_def split: option.splits)
  show ?case by (simp add: p Cons.IH w) (auto simp: shut_def)
qed simp

text \<open>The nested loops of the commands that cast data to targets.\<close>

definition castList :: "(string \<Rightarrow> cref list) \<Rightarrow> CastItem list \<Rightarrow> (bytes \<times> cref) list" where
  "castList L items = concat (map (\<lambda>it. concat (map (\<lambda>d. map (Pair d) (concat (map L (ciTargets it))))
     (filter (\<lambda>d. d \<noteq> []) (ciData it)))) items)"

lemma cast_items:
  assumes "\<And>x p s. L x (casts env op p s) = L x s"
  shows "fold (\<lambda>item. fold (\<lambda>d s. if length d = 0 then s
       else snd (fold (\<lambda>x (fr, s). case L x s of None \<Rightarrow> (fr, s) | Some cs \<Rightarrow> WriteToAll env cs fr s)
                 (ciTargets item) (newFrame op d, s))) (ciData item)) items s
     = casts env op (castList (\<lambda>x. case L x s of None \<Rightarrow> [] | Some cs \<Rightarrow> cs) items) s"
proof -
  let ?l = "\<lambda>x. case L x s of None \<Rightarrow> [] | Some cs \<Rightarrow> cs"
  have item: "fold (\<lambda>d s. if length d = 0 then s
       else snd (fold (\<lambda>x (fr, s). case L x s of None \<Rightarrow> (fr, s) | Some cs \<Rightarrow> WriteToAll env cs fr s) xs (newFrame op d, s)))
       ds (casts env op qs s) = casts env op (qs @ concat (map (\<lambda>d. map (Pair d) (concat (map ?l xs))) (filter (\<lambda>d. d \<noteq> []) ds))) s"
    for xs ds qs
  proof (induction ds arbitrary: qs)
    case (Cons d ds)
    have "snd (fold (\<lambda>x (fr, s). case L x s of None \<Rightarrow> (fr, s) | Some cs \<Rightarrow> WriteToAll env cs fr s) xs (newFrame op d, casts env op qs s))
       = casts env op (qs @ map (Pair d) (concat (map ?l xs))) s"
      by (rule cast_targets) (simp_all add: assms)
    then show ?case using Cons.IH [of qs] Cons.IH [of "qs @ map (Pair d) (concat (map ?l xs))"] by simp
  qed simp
  have "fold (\<lambda>item. fold (\<lambda>d s. if length d = 0 then s
       else snd (fold (\<lambda>x (fr, s). case L x s of None \<Rightarrow> (fr, s) | Some cs \<Rightarrow> WriteToAll env cs fr s)
                 (ciTargets item) (newFrame op d, s))) (ciData item)) items (casts env op qs s)
     = casts env op (qs @ castList ?l items) s" for qs
  proof (induction items arbitrary: qs)
    case (Cons it items)
    show ?case
      using Cons.IH [of "qs @ concat (map (\<lambda>d. map (Pair d) (concat (map ?l (ciTargets it)))) (filter (\<lambda>d. d \<noteq> []) (ciData it)))"]
      by (simp add: item castList_def del: length_0_conv)
  qed (simp add: castList_def)
  from this [of "[]"] show ?thesis by simp
qed

lemma castList_to:
  "map f (filter (\<lambda>p. snd p = c) (castList L items)) = concat (map (\<lambda>it. concat (map (\<lambda>d.
     replicate (sum_list (map (\<lambda>x. count_list (L x) c) (ciTargets it))) (f (d, c))) (filter (\<lambda>d. d \<noteq> []) (ciData it)))) items)"
proof -
  have one: "map f (filter (\<lambda>p. snd p = c) (map (Pair d) xs)) = replicate (count_list xs c) (f (d, c))" for d xs
    by (induction xs) auto
  have cnt: "count_list (concat (map L xs)) c = sum_list (map (\<lambda>x. count_list (L x) c) xs)" for xs
    by (induction xs) auto
  have data: "map f (filter (\<lambda>p. snd p = c) (concat (map (\<lambda>d. map (Pair d) (concat (map L xs))) ds)))
     = concat (map (\<lambda>d. replicate (sum_list (map (\<lambda>x. count_list (L x) c) xs)) (f (d, c))) ds)" for xs ds
    by (induction ds) (auto simp: one cnt)
  show ?thesis unfolding castList_def by (induction items) (simp_all add: data)
qed

section \<open>Who is reached\<close>

lemma distinct_count_list: "distinct xs \<Longrightarrow> count_list xs x = (if x \<in> set xs then 1 else 0)"
  by (induction xs) auto

lemma idx_members:
  assumes "idx_wf h S" "exact (idx_get h S) i R"
  shows "count_list (case sh_get h S k of None \<Rightarrow> [] | Some m \<Rightarrow> map snd m) c = (if R c k then 1 else 0)"
proof (cases "sh_get h S k")
  case None
  then show ?thesis using exactD [OF assms(2), of k "i c" c] by (simp add: idx_get_def)
next
  case (Some m)
  have ok: "gm_ok m" using assms(1) Some by (simp add: idx_wf_def)
  have mem: "(j, d) \<in> set m \<longleftrightarrow> R d k \<and> i d = j" for j d
    using exactD [OF assms(2), of k j d] Some by (simp add: idx_get_def map_of_Some_in_set [OF ok])
  then have "inj_on snd (set m)" by (auto intro!: inj_onI)
  then have "distinct (map snd m)" using ok by (simp add: distinct_map)
  moreover have "c \<in> set (map snd m) \<longleftrightarrow> R c k" using mem by force
  ultimately show ?thesis using Some by (simp add: distinct_count_list)
qed

lemma topic_members:
  assumes "gw_ok t s"
  shows "count_list (case Topic_GetConnListByTopic tp (tpc s) of None \<Rightarrow> [] | Some cs \<Rightarrow> cs) c
     = (if online s c \<and> tp \<in> topicSet (inf s c) then 1 else 0)"
proof -
  have "(case Topic_GetConnListByTopic tp (tpc s) of None \<Rightarrow> [] | Some cs \<Rightarrow> cs)
     = (case sh_get hashTopic (tpc s) tp of None \<Rightarrow> [] | Some m \<Rightarrow> map snd m)"
    by (simp add: Topic_GetConnListByTopic_at [OF gw_okD(2) [OF assms]] split: option.splits)
  then show ?thesis
    using idx_members [OF _ gw_okD(8) [OF assms]] gw_okD(2) [OF assms] by (simp add: topic_wf_def)
qed

lemma customer_members:
  assumes "gw_ok t s"
  shows "count_list (case Binder_GetConnListByCustomerId x (bnd s) of None \<Rightarrow> [] | Some cs \<Rightarrow> cs) c
     = (if online s c \<and> x = customerId (inf s c) \<and> x \<noteq> '''' then 1 else 0)"
proof (cases "x = ''''")
  case False
  then have "(case Binder_GetConnListByCustomerId x (bnd s) of None \<Rightarrow> [] | Some cs \<Rightarrow> cs)
     = (case sh_get hashCustomerId (bnd s) x of None \<Rightarrow> [] | Some m \<Rightarrow> map snd m)"
    by (simp add: Binder_GetConnListByCustomerId_at split: option.splits)
  then show ?thesis
    using idx_members [OF _ gw_okD(9) [OF assms], of x c] gw_okD(3) [OF assms] by (simp add: binder_wf_def)
qed (simp add: Binder_GetConnListByCustomerId_at)

lemma manager_members:
  assumes "gw_ok t s" "nextc s < 2 ^ 32"
  shows "count_list (case Manager_GetConnections (mgr s) of None \<Rightarrow> [] | Some cs \<Rightarrow> cs) c = (if online s c then 1 else 0)"
    "Manager_GetConnections (mgr s) = None \<Longrightarrow> \<not> online s c"
proof -
  note wf = gw_okD(1) [OF assms(1)]
  let ?es = "sh_entries (mshards (mgr s))"
  have mem: "(u, d) \<in> set ?es \<longleftrightarrow> Manager_Get u (mgr s) = Some d" for u d using manager_entries [OF wf] .
  have u: "u = uniqId (inf s d)" if "(u, d) \<in> set ?es" for u d
    using gw_okD(6) [OF assms(1)] that by (simp add: mem)
  have inj: "inj_on snd (set ?es)"
  proof (rule inj_onI)
    fix x y
    assume "x \<in> set ?es" "y \<in> set ?es" "snd x = snd y"
    then show "x = y" by (metis prod.collapse u)
  qed
  have ok: "gm_ok ?es" using wf by (simp add: manager_sh.distinct_entries manager_wf_def)
  then have dist: "distinct (map snd ?es)" using inj by (simp add: distinct_map)
  have on: "c \<in> set (map snd ?es) \<longleftrightarrow> online s c" for c
    using online_Get [OF assms(1)] by (force simp: online_def mem [symmetric])
  have "set (map snd ?es) \<subseteq> {..<nextc s}" using on online_lt [OF assms(1)] by auto
  then have "card (set (map snd ?es)) \<le> nextc s" using card_mono [of "{..<nextc s}"] by simp
  then have "length ?es \<le> nextc s" using distinct_card [OF dist] by simp
  then have len: "length ?es < 2 ^ 32" using assms(2) by simp
  have "mlen (mgr s) = of_nat (length ?es)"
    using wf by (simp add: manager_wf_def manager_sh.length_entries)
  moreover have "of_nat (length ?es) = (0 :: u32) \<longleftrightarrow> ?es = []"
    using unat_of_nat_small [where 'a = 32, of "length ?es"] len by (simp add: unat_eq_zero [symmetric])
  ultimately have z: "mlen (mgr s) = 0 \<longleftrightarrow> ?es = []" by simp
  show "count_list (case Manager_GetConnections (mgr s) of None \<Rightarrow> [] | Some cs \<Rightarrow> cs) c = (if online s c then 1 else 0)"
    using dist on [of c] z by (auto simp: Manager_GetConnections_eq distinct_count_list)
  show "Manager_GetConnections (mgr s) = None \<Longrightarrow> \<not> online s c"
    using on [of c] z by (simp add: Manager_GetConnections_eq split: if_splits)
qed

text \<open>The commands in terms of what they write.\<close>

lemma publish_casts: "topicPublishBulk env (Some items) s = casts env (SendMessageType env)
    (castList (\<lambda>tp. case Topic_GetConnListByTopic tp (tpc s) of None \<Rightarrow> [] | Some cs \<Rightarrow> cs) items) s"
  unfolding topicPublishBulk_def option.case by (rule cast_items) simp

lemma byCustomer_casts: "singleCastBulkByCustomerId env (Some items) s = casts env (SendMessageType env)
    (castList (\<lambda>x. case Binder_GetConnListByCustomerId x (bnd s) of None \<Rightarrow> [] | Some cs \<Rightarrow> cs) items) s"
  unfolding singleCastBulkByCustomerId_def option.case by (rule cast_items) simp

lemma broadcast_casts: "broadcastBulk env (Some datas) s = casts env (SendMessageType env)
    (concat (map (\<lambda>d. map (Pair d) (case Manager_GetConnections (mgr s) of None \<Rightarrow> [] | Some cs \<Rightarrow> cs))
       (filter (\<lambda>d. d \<noteq> []) datas))) s"
proof -
  have "fold (\<lambda>d s. if length d = 0 then s else snd (WriteToAll env cs (newFrame op d) s)) ds s
     = casts env op (concat (map (\<lambda>d. map (Pair d) cs) (filter (\<lambda>d. d \<noteq> []) ds))) s" for cs op ds
    by (induction ds arbitrary: s) (auto simp: WriteToAll_casts [OF cache_ok_new, THEN conjunct2])
  moreover have "casts env op (concat (map (\<lambda>d. []) ds)) s = s" for op and ds :: "bytes list" by (induction ds) auto
  ultimately show ?thesis by (auto simp: broadcastBulk_def split: option.splits)
qed

lemma sum_members: "sum_list (map (\<lambda>x. if P x then 1 else 0) xs) = length (filter P xs)"
  by (induction xs) auto

lemma map_concat_filter_pairs:
  "map f (filter (\<lambda>p. snd p = c) (concat (map (\<lambda>d. map (Pair d) cs) ds)))
   = concat (map (\<lambda>d. replicate (count_list cs c) (f (d, c))) ds)"
proof -
  have one: "map f (filter (\<lambda>p. snd p = c) (map (Pair d) xs)) = replicate (count_list xs c) (f (d, c))" for d xs
    by (induction xs) auto
  show ?thesis by (induction ds) (auto simp: one)
qed

text \<open>\<open>sends env\<close>: the event loop takes every write and the compressor never fails.\<close>

definition sends :: "'l env \<Rightarrow> bool" where
  "sends env \<longleftrightarrow> (\<forall>n. asyncOk env n) \<and> (\<forall>d. deflate env d \<noteq> None)"

abbreviation (input) frameFor :: "'l env \<Rightarrow> 'l gw \<Rightarrow> cref \<Rightarrow> bytes \<Rightarrow> bytes" where
  "frameFor env s c d \<equiv> the (encoded env (heap s c) (SendMessageType env) d)"

lemma received_casts:
  "sends env \<Longrightarrow> received (casts env op ps s) c = received s c @
     (if shut s c then [] else map (\<lambda>p. the (encoded env (heap s c) op (fst p))) (filter (\<lambda>p. snd p = c) ps))"
  by (subst casts_received) (auto simp: sends_def case_prod_unfold)

section \<open>Forcing connections offline\<close>

text \<open>A connection that has been shut will be closed: the two-second timer or a close request is pending.\<close>

definition willClose :: "'l gw \<Rightarrow> cref \<Rightarrow> bool" where
  "willClose s c \<longleftrightarrow> CloseIn2s c \<in> set (timers s) \<or> c \<in> set (closeReqs s)"

lemma WriteCloseFrame_state:
  "shut (WriteCloseFrame env c fr s) d \<longleftrightarrow> shut s d \<or> d = c"
  "willClose s d \<Longrightarrow> willClose (WriteCloseFrame env c fr s) d"
  "\<not> shut s c \<Longrightarrow> willClose (WriteCloseFrame env c fr s) c"
  "mgr (WriteCloseFrame env c fr s) = mgr s" "bnd (WriteCloseFrame env c fr s) = bnd s"
  "inf (WriteCloseFrame env c fr s) d = inf s d"
  by (auto simp: WriteCloseFrame_def SetClosedFlagOnSafe_def AsyncWriteOnSafe_def updCodec_def CloseOnSafe_def shut_def
      willClose_def case_prod_unfold Let_def)

lemma WriteTo_state:
  "shut (snd (snd (WriteTo env c fr s))) d = shut s d" "willClose (snd (snd (WriteTo env c fr s))) d = willClose s d"
  "mgr (snd (snd (WriteTo env c fr s))) = mgr s" "bnd (snd (snd (WriteTo env c fr s))) = bnd s"
  "heap (snd (snd (WriteTo env c fr s))) = heap s"
  by (auto simp: WriteTo_def send_counted_def AsyncWriteOnSafe_def mark_def shut_def willClose_def case_prod_unfold Let_def
      split: option.splits)

text \<open>\<open>offs a K s\<close>: from \<open>a\<close> to \<open>s\<close> exactly the connections of \<open>K\<close> were shut, and those not shut before are about to be closed.\<close>

definition offs :: "'l gw \<Rightarrow> cref set \<Rightarrow> 'l gw \<Rightarrow> bool" where
  "offs a K s \<longleftrightarrow> (\<forall>c. shut s c \<longleftrightarrow> shut a c \<or> c \<in> K) \<and> (\<forall>c \<in> K. \<not> shut a c \<longrightarrow> willClose s c) \<and>
     mgr s = mgr a \<and> bnd s = bnd a \<and> (\<forall>c. inf s c = inf a c)"

lemma offs_refl: "offs a {} a"
  by (simp add: offs_def)

lemma offs_close: "offs a K s \<Longrightarrow> offs a (insert c K) (WriteCloseFrame env c fr s)"
  unfolding offs_def by (auto simp: WriteCloseFrame_state)

lemma offs_sendThenClose: "offs a K (snd p) \<Longrightarrow> offs a (insert c K) (snd (sendThenClose env fr c p))"
  unfolding offs_def
  by (auto simp: sendThenClose_def case_prod_unfold Let_def WriteCloseFrame_state WriteTo_state)

lemma offs_fold:
  assumes "\<And>x K p. x \<in> set xs \<Longrightarrow> offs a K (st p) \<Longrightarrow> offs a (K \<union> G x) (st (f x p))" "offs a K (st p)"
  shows "offs a (K \<union> (\<Union>x \<in> set xs. G x)) (st (fold f xs p))"
  using assms
proof (induction xs arbitrary: K p)
  case (Cons x xs)
  have "offs a ((K \<union> G x) \<union> (\<Union>x \<in> set xs. G x)) (st (fold f xs (f x p)))"
    by (rule Cons.IH) (use Cons.prems in auto)
  then show ?case by (simp add: Un_assoc)
qed simp

lemma forceOffline_offs:
  "offs s {c. \<exists>u \<in> set (foTargets p). Manager_Get u (mgr s) = Some c} (forceOffline env (Some p) s)"
proof -
  let ?G = "\<lambda>u. {c. Manager_Get u (mgr s) = Some c}"
  let ?fr = "BuildCloseFrame StatusPolicyViolation ''forceOffline''"
  have m: "offs s K x \<Longrightarrow> mgr x = mgr s" for K x by (simp add: offs_def)
  have 1: "offs s ({} \<union> (\<Union>u \<in> set us. ?G u)) (id (fold (\<lambda>uid s. case Manager_Get uid (mgr s) of
       None \<Rightarrow> s | Some c \<Rightarrow> WriteCloseFrame env c ?fr s) us s))" for us
    by (rule offs_fold) (auto simp: m offs_refl offs_close split: option.splits)
  have 2: "offs s ({} \<union> (\<Union>u \<in> set us. ?G u)) (snd (fold (\<lambda>uid (fr, s). case Manager_Get uid (mgr s) of
       None \<Rightarrow> (fr, s) | Some c \<Rightarrow> sendThenClose env ?fr c (fr, s)) us (fr, s)))" for us fr
    by (rule offs_fold [where st = snd])
      (auto simp: m offs_refl case_prod_unfold intro: offs_sendThenClose split: option.splits)
  have e: "(\<Union>u \<in> set us. ?G u) = {c. \<exists>u \<in> set us. Manager_Get u (mgr s) = Some c}" for us by auto
  show ?thesis using 1 2 unfolding e by (simp add: forceOffline_def Let_def offs_refl)
qed

lemma forceOfflineByCustomerId_offs:
  assumes ok: "gw_ok t s"
  shows "offs s {c. online s c \<and> customerId (inf s c) \<in> set (foTargets p) \<and> customerId (inf s c) \<noteq> ''''}
     (forceOfflineByCustomerId env (Some p) s)"
proof -
  let ?fr = "BuildCloseFrame StatusPolicyViolation ''forceOfflineByCustomerId''"
  let ?L = "Binder_GetConnListByCustomerIds (foTargets p) (bnd s)"
  let ?G = "\<lambda>e. set (snd e)"
  have 1: "offs s ({} \<union> (\<Union>e \<in> set ?L. ?G e)) (id (fold (\<lambda>(_, cs). fold (\<lambda>c. WriteCloseFrame env c ?fr) cs) ?L s))"
  proof (rule offs_fold)
    fix e K x
    assume "offs s K (id x)"
    then have "offs s (K \<union> (\<Union>c \<in> ?G e. {c})) (id (fold (\<lambda>c. WriteCloseFrame env c ?fr) (snd e) x))"
      by (intro offs_fold) (auto simp: offs_close)
    then show "offs s (K \<union> ?G e) (id ((\<lambda>(_, cs). fold (\<lambda>c. WriteCloseFrame env c ?fr) cs) e x))"
      by (simp add: case_prod_unfold)
  qed (simp add: offs_refl)
  have 2: "offs s ({} \<union> (\<Union>e \<in> set ?L. ?G e)) (snd (fold (\<lambda>(_, cs). fold (sendThenClose env ?fr) cs) ?L (fr, s)))" for fr
  proof (rule offs_fold [where st = snd])
    fix e K and x :: "Frame \<times> 'a gw"
    assume "offs s K (snd x)"
    then have "offs s (K \<union> (\<Union>c \<in> ?G e. {c})) (snd (fold (sendThenClose env ?fr) (snd e) x))"
      by (intro offs_fold [where st = snd]) (auto simp: offs_sendThenClose)
    then show "offs s (K \<union> ?G e) (snd ((\<lambda>(_, cs). fold (sendThenClose env ?fr) cs) e x))"
      by (simp add: case_prod_unfold)
  qed (simp add: offs_refl)
  have mem: "(\<exists>cs. map_of ?L x = Some cs \<and> c \<in> set cs) \<longleftrightarrow> x \<in> set (foTargets p) \<and> x \<noteq> '''' \<and> online s c \<and> x = customerId (inf s c)" for x c
  proof (cases "x \<in> set (foTargets p) \<and> x \<noteq> ''''")
    case True
    then have "(\<exists>cs. map_of ?L x = Some cs \<and> c \<in> set cs) \<longleftrightarrow>
        c \<in> set (case Binder_GetConnListByCustomerId x (bnd s) of None \<Rightarrow> [] | Some cs \<Rightarrow> cs)"
      by (cases "sh_get hashCustomerId (bnd s) x") (auto simp: Binder_GetConnListByCustomerIds_at Binder_GetConnListByCustomerId_at)
    also have "\<dots> \<longleftrightarrow> count_list (case Binder_GetConnListByCustomerId x (bnd s) of None \<Rightarrow> [] | Some cs \<Rightarrow> cs) c \<noteq> 0"
      by (simp add: count_list_0_iff)
    finally show ?thesis using True customer_members [OF ok, of x c] by simp
  qed (auto simp: Binder_GetConnListByCustomerIds_at)
  have "c \<in> (\<Union>e \<in> set ?L. ?G e) \<longleftrightarrow> (\<exists>x cs. map_of ?L x = Some cs \<and> c \<in> set cs)" for c
    by (force simp: map_of_Some_in_set [OF Binder_GetConnListByCustomerIds_at(2)])
  then have "(\<Union>e \<in> set ?L. ?G e) = {c. online s c \<and> customerId (inf s c) \<in> set (foTargets p) \<and> customerId (inf s c) \<noteq> ''''}"
    using mem by auto
  then show ?thesis using 1 2 by (simp add: forceOfflineByCustomerId_def Let_def)
qed

lemma guests_offs:
  "offs s {c. (\<exists>u \<in> set (fgUniqIds p). Manager_Get u (mgr s) = Some c) \<and> \<not> IsLoginOnSafe (inf s c)} (guests env p s)"
proof -
  let ?fr = "BuildCloseFrame StatusPolicyViolation ''forceOfflineGuest''"
  let ?G = "\<lambda>u. {c. Manager_Get u (mgr s) = Some c \<and> \<not> IsLoginOnSafe (inf s c)}"
  let ?f = "\<lambda>uid (msg, s). case Manager_Get uid (mgr s) of
                None \<Rightarrow> (msg, s)
              | Some c \<Rightarrow>
                  if IsLoginOnSafe (inf s c) then (msg, s)
                  else case msg of
                         None \<Rightarrow> (msg, WriteCloseFrame env c ?fr s)
                       | Some fr \<Rightarrow> (let (fr, s) = sendThenClose env ?fr c (fr, s) in (Some fr, s))"
  have f: "offs s (K \<union> ?G u) (snd (?f u x))" if "offs s K (snd x)" for u K x
  proof -
    obtain msg s1 where x: "x = (msg, s1)" by fastforce
    have o: "offs s K s1" using that x by simp
    then have m: "mgr s1 = mgr s" "\<And>c. inf s1 c = inf s c"
      by (auto simp: offs_def)
    have G: "?G u = (case Manager_Get u (mgr s) of None \<Rightarrow> {} | Some c \<Rightarrow> if IsLoginOnSafe (inf s c) then {} else {c})"
      by (auto split: option.splits)
    have sc: "offs s (insert c K) (snd (sendThenClose env ?fr c (fr, s1)))" for c fr
      using offs_sendThenClose [of s K "(fr, s1)"] o by simp
    show ?thesis
      unfolding G x using o sc by (auto simp: m case_prod_unfold Let_def offs_close split: option.splits)
  qed
  have "offs s ({} \<union> (\<Union>u \<in> set (fgUniqIds p). ?G u)) (snd (fold ?f (fgUniqIds p) q))" if "snd q = s" for q
    by (rule offs_fold [where st = snd]) (use f that offs_refl in auto)
  moreover have "(\<Union>u \<in> set (fgUniqIds p). ?G u)
     = {c. (\<exists>u \<in> set (fgUniqIds p). Manager_Get u (mgr s) = Some c) \<and> \<not> IsLoginOnSafe (inf s c)}" by auto
  ultimately show ?thesis by (simp add: guests_def Let_def)
qed

section \<open>Casting and closing leave the registries alone\<close>

lemma quiet_snd_fold:
  "(\<And>x p. quiet a (snd p) \<Longrightarrow> quiet a (snd (f x p))) \<Longrightarrow> quiet a (snd p) \<Longrightarrow> quiet a (snd (fold f xs p))"
  by (induction xs arbitrary: p) auto

lemma quiet_sendThenClose: "quiet a (snd p) \<Longrightarrow> quiet a (snd (sendThenClose env fr c p))"
  unfolding sendThenClose_def case_prod_unfold Let_def snd_conv by (intro registry_frame)

lemma quiet_singleCasts: "quiet a s \<Longrightarrow> quiet a (singleCasts env ps s)"
proof (induction ps arbitrary: s)
  case (Cons p ps)
  obtain d u where p: "p = (d, u)" by fastforce
  show ?case
  proof (cases "Manager_Get u (mgr s)")
    case (Some c)
    then show ?thesis
      using Cons.IH quiet_WriteMessage [OF Cons.prems, of env c "SendMessageType env" d]
      by (cases "WriteMessage env c (SendMessageType env) d s") (auto simp: p split: bool.splits)
  qed (use Cons in \<open>simp add: p\<close>)
qed simp

lemma quiet_commands:
  "quiet s (broadcastBulk env p1 s)" "quiet s (singleCastBulk env p2 s)" "quiet s (singleCastBulkByCustomerId env p2 s)"
  "quiet s (topicPublishBulk env p2 s)" "quiet s (forceOffline env p3 s)" "quiet s (forceOfflineByCustomerId env p3 s)"
  "quiet s (guests env g s)" "quiet s (forceOfflineGuest env p4 s)"
proof -
  show "quiet s (broadcastBulk env p1 s)"
    by (cases p1) (auto simp: broadcast_casts quiet_casts, simp add: broadcastBulk_def)
  show "quiet s (singleCastBulk env p2 s)"
    by (auto simp: singleCastBulk_def quiet_singleCasts split: option.splits)
  show "quiet s (singleCastBulkByCustomerId env p2 s)"
    by (cases p2) (auto simp: byCustomer_casts quiet_casts, simp add: singleCastBulkByCustomerId_def)
  show "quiet s (topicPublishBulk env p2 s)"
    by (cases p2) (auto simp: publish_casts quiet_casts, simp add: topicPublishBulk_def)
  show "quiet s (forceOffline env p3 s)"
    by (auto simp: forceOffline_def Let_def split: option.splits
        intro!: quiet_fold quiet_snd_fold quiet_WriteCloseFrame quiet_sendThenClose)
  show "quiet s (forceOfflineByCustomerId env p3 s)"
    by (auto simp: forceOfflineByCustomerId_def Let_def split: option.splits
        intro!: quiet_fold quiet_snd_fold quiet_WriteCloseFrame quiet_sendThenClose)
  show g: "quiet s (guests env g s)" for g
  proof -
    have "quiet s (snd (sendThenClose env fr c (x, y)))" if "quiet s y" for fr c x y
      using quiet_sendThenClose [of s "(x, y)"] that by simp
    then show ?thesis
      by (auto simp: guests_def Let_def case_prod_unfold split: option.splits
          intro!: quiet_snd_fold quiet_WriteCloseFrame)
  qed
  show "quiet s (forceOfflineGuest env p4 s)"
    by (auto simp: forceOfflineGuest_def g split: option.splits intro!: quiet_fields)
qed

text \<open>Sequences of single casts: they end at the first connection that cannot be written to.\<close>

definition resolved :: "'l gw \<Rightarrow> (bytes \<times> string) list \<Rightarrow> (bytes \<times> cref) list" where
  "resolved s ps = concat (map (\<lambda>(d, u). case Manager_Get u (mgr s) of None \<Rightarrow> [] | Some c \<Rightarrow> [(d, c)]) ps)"

lemma singleCasts_eq:
  assumes "sends env"
  shows "singleCasts env ps s = casts env (SendMessageType env) (takeWhile (\<lambda>p. \<not> shut s (snd p)) (resolved s ps)) s"
proof (induction ps arbitrary: s)
  case (Cons p ps)
  obtain d u where p: "p = (d, u)" by fastforce
  show ?case
  proof (cases "Manager_Get u (mgr s)")
    case (Some c)
    let ?w = "WriteMessage env c (SendMessageType env) d s"
    have sh: "shut (snd ?w) = shut s" by (simp add: fun_eq_iff shut_def)
    have res: "resolved (snd ?w) ps = resolved s ps" by (simp add: resolved_def)
    have "asyncOk env (writes s)" "deflate env d \<noteq> None" using assms by (auto simp: sends_def)
    then have "fst ?w \<longleftrightarrow> \<not> shut s c" "shut s c \<Longrightarrow> snd ?w = s"
      by (auto simp: WriteMessage_eq encoded_def send_counted_def AsyncWriteOnSafe_def case_prod_unfold Let_def split: option.splits)
    then have "singleCasts env (p # ps) s = (if shut s c then s else singleCasts env ps (snd ?w))"
      using Some by (cases ?w) (auto simp: p split: bool.splits)
    moreover have "resolved s (p # ps) = (d, c) # resolved s ps" by (simp add: p resolved_def Some)
    ultimately show ?thesis using Cons.IH [of "snd ?w", unfolded sh res] by simp
  qed (use Cons in \<open>simp add: p resolved_def\<close>)
qed (simp add: resolved_def)

end
