(* ===== verification/TaskQueries.thy ===== *)
theory TaskQueries
  imports Delivery
begin

text \<open>
  The commands that ask the gateway something and get an answer on the connection they came on:
  \<^verbatim>\<open>src/internal/task/process\<close>, the handlers of the table \<^verbatim>\<open>getCallback\<close>, with \<^verbatim>\<open>send\<close>, and the three
  functions of \<^verbatim>\<open>src/internal/customer/func.go\<close> that they use. A handler takes the unmarshalled payload,
  \<open>None\<close> when unmarshalling failed, and the state together with the connection. A query locks the
  shards it visits one after another; here it reads one state.
\<close>

section \<open>Answering\<close>

record ConnInfosReq = ConnInfoReq +
  ReqIds :: "string list"

datatype query_resp =
    CheckOnlineResp "string list"
  | ConnInfoResp "(string, ConnInfoRespItem) gomap"
  | ConnInfoByCustomerIdResp "(string, ConnInfoRespItem list) gomap"
  | CustomerIdCountResp i32
  | CustomerIdListResp "string list"
  | LimitResp LimitReq
  | MetricsResp "(i32, MetricsRespItem) gomap"
  | TopicCountResp i32
  | TopicCustomerIdCountResp "(string, i32) gomap"
  | TopicCustomerIdListResp "(string, string list) gomap"
  | TopicCustomerIdToUniqIdsListResp "(string, (string, string list) gomap) gomap"
  | TopicListResp "string list"
  | TopicUniqIdCountResp "(string, i32) gomap"
  | TopicUniqIdListResp "(string, string list) gomap"
  | UniqIdCountResp i32
  | UniqIdListResp "string list"

definition Cmd_CheckOnline :: cmd where "Cmd_CheckOnline = 900003003"
definition Cmd_CustomerIdList :: cmd where "Cmd_CustomerIdList = 900003004"
definition Cmd_CustomerIdCount :: cmd where "Cmd_CustomerIdCount = 900003005"
definition Cmd_UniqIdList :: cmd where "Cmd_UniqIdList = 900003006"
definition Cmd_UniqIdCount :: cmd where "Cmd_UniqIdCount = 900003007"
definition Cmd_TopicList :: cmd where "Cmd_TopicList = 900003008"
definition Cmd_TopicCount :: cmd where "Cmd_TopicCount = 900003009"
definition Cmd_TopicUniqIdList :: cmd where "Cmd_TopicUniqIdList = 900003010"
definition Cmd_TopicUniqIdCount :: cmd where "Cmd_TopicUniqIdCount = 900003011"
definition Cmd_TopicCustomerIdList :: cmd where "Cmd_TopicCustomerIdList = 900003012"
definition Cmd_TopicCustomerIdToUniqIdsList :: cmd where "Cmd_TopicCustomerIdToUniqIdsList = 900003013"
definition Cmd_TopicCustomerIdCount :: cmd where "Cmd_TopicCustomerIdCount = 900003014"
definition Cmd_ConnInfo :: cmd where "Cmd_ConnInfo = 900003015"
definition Cmd_ConnInfoByCustomerId :: cmd where "Cmd_ConnInfoByCustomerId = 900003016"
definition Cmd_Metrics :: cmd where "Cmd_Metrics = 900003017"
definition Cmd_Limit :: cmd where "Cmd_Limit = 900003018"

text \<open>
  The connection a query came on: what has been written to it, how often, and whether the gateway has closed it.
  Serialization and the outcome of each write are parameters.
\<close>

record tconn =
  tcWire :: bytes
  tcWrites :: nat
  tcClosed :: bool

record query_env =
  qmarshal :: "query_resp \<Rightarrow> bytes option"
  qwrite :: "nat \<Rightarrow> write_outcome"

definition send :: "query_env \<Rightarrow> query_resp \<Rightarrow> cmd \<Rightarrow> tconn \<Rightarrow> tconn" where
  "send qe message c k = (case packet_set (qmarshal qe) message c of
      None \<Rightarrow> k
    | Some p \<Rightarrow>
        let res = qwrite qe (tcWrites k); k = k\<lparr>tcWrites := tcWrites k + 1\<rparr>
        in case res of
             WDeadline \<Rightarrow> k\<lparr>tcClosed := True\<rparr>
           | WOk \<Rightarrow> k\<lparr>tcWire := tcWire k @ wire p\<rparr>
           | WErr writeLen \<Rightarrow>
               let k = k\<lparr>tcWire := tcWire k @ take writeLen (wire p)\<rparr>
               in if writeLen = 0 then k else k\<lparr>tcClosed := True\<rparr>)"

section \<open>Collecting customer ids and ids\<close>

definition customerIdSet :: "'l gw \<Rightarrow> cref list \<Rightarrow> string list" where
  "customerIdSet s connList = fold (\<lambda>c acc. let x = customerId (inf s c)
     in if x \<noteq> '''' then (if x \<in> set acc then acc else acc @ [x]) else acc) connList []"

definition CountCustomerIds :: "'l gw \<Rightarrow> cref list \<Rightarrow> nat" where
  "CountCustomerIds s connList = length (customerIdSet s connList)"

text \<open>A map's keys in the order one \<^verbatim>\<open>range\<close> visits them; nil when the map is empty.\<close>

definition GetCustomerIds :: "'l gw \<Rightarrow> cref list \<Rightarrow> string list" where
  "GetCustomerIds s connList =
     (let m = customerIdSet s connList
      in if length m = 0 then [] else fold (\<lambda>x customerIds. customerIds @ [x]) m [])"

definition GetUniqIds :: "'l gw \<Rightarrow> cref list \<Rightarrow> string list" where
  "GetUniqIds s connList = fold (\<lambda>c uniqIds. uniqIds @ [uniqId (inf s c)]) connList []"

section \<open>The handlers\<close>

definition checkOnline :: "query_env \<Rightarrow> string list option \<Rightarrow> 'l gw \<times> tconn \<Rightarrow> 'l gw \<times> tconn" where
  "checkOnline qe payload = (\<lambda>(s, k). case payload of None \<Rightarrow> (s, k) | Some us \<Rightarrow>
     let uniqIds = fold (\<lambda>u acc. if Manager_Has u (mgr s) then acc @ [u] else acc) us []
     in (s, send qe (CheckOnlineResp uniqIds) Cmd_CheckOnline k))"

definition connInfo :: "query_env \<Rightarrow> ConnInfosReq option \<Rightarrow> 'l gw \<times> tconn \<Rightarrow> 'l gw \<times> tconn" where
  "connInfo qe payload = (\<lambda>(s, k). case payload of None \<Rightarrow> (s, k) | Some p \<Rightarrow>
     let items = fold (\<lambda>u items. case Manager_Get u (mgr s) of
                          None \<Rightarrow> items
                        | Some c \<Rightarrow> AList.update u (GetConnInfoOnSafe (ConnInfoReq.truncate p) (inf s c) emptyItem) items)
                      (ReqIds p) []
     in (s, send qe (ConnInfoResp items) Cmd_ConnInfo k))"

definition connInfoByCustomerId :: "query_env \<Rightarrow> ConnInfosReq option \<Rightarrow> 'l gw \<times> tconn \<Rightarrow> 'l gw \<times> tconn" where
  "connInfoByCustomerId qe payload = (\<lambda>(s, k). case payload of None \<Rightarrow> (s, k) | Some p \<Rightarrow>
     let customerIdConnList = Binder_GetConnListByCustomerIds (ReqIds p) (bnd s);
         ret = fold (\<lambda>(customerId, connList) ret.
                  let items = fold (\<lambda>c items. items @ [GetConnInfoByCustomerIdOnSafe (ConnInfoReq.truncate p) (inf s c) emptyItem]) connList []
                  in if length items > 0 then AList.update customerId items ret else ret)
                 customerIdConnList []
     in (s, send qe (ConnInfoByCustomerIdResp ret) Cmd_ConnInfoByCustomerId k))"

definition customerIdCount :: "query_env \<Rightarrow> 'l gw \<times> tconn \<Rightarrow> 'l gw \<times> tconn" where
  "customerIdCount qe = (\<lambda>(s, k).
     (s, send qe (CustomerIdCountResp (of_nat (Binder_Len (bnd s)))) Cmd_CustomerIdCount k))"

definition customerIdList :: "query_env \<Rightarrow> 'l gw \<times> tconn \<Rightarrow> 'l gw \<times> tconn" where
  "customerIdList qe = (\<lambda>(s, k).
     (s, send qe (CustomerIdListResp (Binder_GetCustomerIds (bnd s))) Cmd_CustomerIdList k))"

text \<open>The only query that also changes something: the limits are updated before they are reported.\<close>

definition limit :: "'l env \<Rightarrow> query_env \<Rightarrow> LimitReq option \<Rightarrow> 'l gw \<times> tconn \<Rightarrow> 'l gw \<times> tconn" where
  "limit env qe payload = (\<lambda>(s, k). case payload of None \<Rightarrow> (s, k) | Some p \<Rightarrow>
     let s = s\<lparr>lims := Limit_Update (rateOps env) p (lims s)\<rparr>
     in (s, send qe (LimitResp (Limit_Get (rateOps env) (lims s))) Cmd_Limit k))"

definition metrics :: "query_env \<Rightarrow> 'l gw \<times> tconn \<Rightarrow> 'l gw \<times> tconn" where
  "metrics qe = (\<lambda>(s, k).
     let items = fold (\<lambda>item items. case ToStatusResp item (reg s item) of
                          None \<Rightarrow> items
                        | Some tmp \<Rightarrow> AList.update (mItem tmp) tmp items) allItems []
     in (s, send qe (MetricsResp items) Cmd_Metrics k))"

definition topicCount :: "query_env \<Rightarrow> 'l gw \<times> tconn \<Rightarrow> 'l gw \<times> tconn" where
  "topicCount qe = (\<lambda>(s, k). (s, send qe (TopicCountResp (of_nat (Topic_Len (tpc s)))) Cmd_TopicCount k))"

text \<open>\<^verbatim>\<open>range\<close> over a nil map does nothing; a nil map is sent as the empty one.\<close>

abbreviation nilMap :: "('k, 'v) gomap option \<Rightarrow> ('k, 'v) gomap" where
  "nilMap m \<equiv> (case m of None \<Rightarrow> [] | Some m \<Rightarrow> m)"

text \<open>\<^verbatim>\<open>for tpc, connList := range topicConnList { ret.Items[tpc] = ... }\<close>\<close>

definition perTopic :: "('v \<Rightarrow> 'w) \<Rightarrow> (string, 'v) gomap \<Rightarrow> (string, 'w) gomap" where
  "perTopic f m = fold (\<lambda>(tp, connList) items. AList.update tp (f connList) items) m []"

definition topicCustomerIdCount :: "query_env \<Rightarrow> string list option \<Rightarrow> 'l gw \<times> tconn \<Rightarrow> 'l gw \<times> tconn" where
  "topicCustomerIdCount qe payload = (\<lambda>(s, k). case payload of None \<Rightarrow> (s, k) | Some ts \<Rightarrow>
     let topicConnList = (if length ts = 0 then Topic_GetConnList (tpc s)
                          else nilMap (Topic_GetConnListByTopics ts (tpc s)));
         items = perTopic (\<lambda>connList. of_nat (CountCustomerIds s connList)) topicConnList
     in (s, send qe (TopicCustomerIdCountResp items) Cmd_TopicCustomerIdCount k))"

definition topicCustomerIdList :: "query_env \<Rightarrow> string list option \<Rightarrow> 'l gw \<times> tconn \<Rightarrow> 'l gw \<times> tconn" where
  "topicCustomerIdList qe payload = (\<lambda>(s, k). case payload of None \<Rightarrow> (s, k) | Some ts \<Rightarrow>
     let items = perTopic (GetCustomerIds s) (nilMap (Topic_GetConnListByTopics ts (tpc s)))
     in (s, send qe (TopicCustomerIdListResp items) Cmd_TopicCustomerIdList k))"

definition topicCustomerIdToUniqIdsList :: "query_env \<Rightarrow> string list option \<Rightarrow> 'l gw \<times> tconn \<Rightarrow> 'l gw \<times> tconn" where
  "topicCustomerIdToUniqIdsList qe payload = (\<lambda>(s, k). case payload of None \<Rightarrow> (s, k) | Some ts \<Rightarrow>
     let items = perTopic (\<lambda>connList.
                   perTopic (GetUniqIds s) (Binder_GetConnListByCustomerIds (GetCustomerIds s connList) (bnd s)))
                   (nilMap (Topic_GetConnListByTopics ts (tpc s)))
     in (s, send qe (TopicCustomerIdToUniqIdsListResp items) Cmd_TopicCustomerIdToUniqIdsList k))"

definition topicList :: "query_env \<Rightarrow> 'l gw \<times> tconn \<Rightarrow> 'l gw \<times> tconn" where
  "topicList qe = (\<lambda>(s, k). (s, send qe (TopicListResp (Topic_Get (tpc s))) Cmd_TopicList k))"

definition topicUniqIdCount :: "query_env \<Rightarrow> string list option \<Rightarrow> 'l gw \<times> tconn \<Rightarrow> 'l gw \<times> tconn" where
  "topicUniqIdCount qe payload = (\<lambda>(s, k). case payload of None \<Rightarrow> (s, k) | Some ts \<Rightarrow>
     let items = (if length ts = 0 then Topic_CountConn (tpc s) else nilMap (Topic_CountConnByTopic ts (tpc s)))
     in (s, send qe (TopicUniqIdCountResp items) Cmd_TopicUniqIdCount k))"

definition topicUniqIdList :: "query_env \<Rightarrow> string list option \<Rightarrow> 'l gw \<times> tconn \<Rightarrow> 'l gw \<times> tconn" where
  "topicUniqIdList qe payload = (\<lambda>(s, k). case payload of None \<Rightarrow> (s, k) | Some ts \<Rightarrow>
     let items = perTopic (GetUniqIds s) (nilMap (Topic_GetConnListByTopics ts (tpc s)))
     in (s, send qe (TopicUniqIdListResp items) Cmd_TopicUniqIdList k))"

definition uniqIdCount :: "query_env \<Rightarrow> 'l gw \<times> tconn \<Rightarrow> 'l gw \<times> tconn" where
  "uniqIdCount qe = (\<lambda>(s, k). (s, send qe (UniqIdCountResp (of_nat (Manager_Len (mgr s)))) Cmd_UniqIdCount k))"

definition uniqIdList :: "query_env \<Rightarrow> 'l gw \<times> tconn \<Rightarrow> 'l gw \<times> tconn" where
  "uniqIdList qe = (\<lambda>(s, k).
     (s, send qe (UniqIdListResp (case Manager_GetUniqIds (mgr s) of None \<Rightarrow> [] | Some us \<Rightarrow> us)) Cmd_UniqIdList k))"

section \<open>What the loops collect\<close>

text \<open>A list without repetition of the elements of a set: how an answer lists what it should.\<close>

definition exactly :: "'a list \<Rightarrow> 'a set \<Rightarrow> bool" where
  "exactly xs S \<longleftrightarrow> distinct xs \<and> set xs = S"

lemma exactly_length: "exactly xs S \<Longrightarrow> length xs = card S"
  by (auto simp: exactly_def distinct_card)

lemma exactly_map: "exactly xs S \<Longrightarrow> inj_on f S \<Longrightarrow> exactly (map f xs) (f ` S)"
  by (auto simp: exactly_def distinct_map)

lemma exactly_count: "(\<And>c. count_list xs c = (if c \<in> S then 1 else 0)) \<Longrightarrow> exactly xs S"
proof -
  assume a: "\<And>c. count_list xs c = (if c \<in> S then 1 else 0)"
  have s: "c \<in> set xs \<longleftrightarrow> c \<in> S" for c using a [of c] count_list_0_iff [of xs c] by (auto split: if_splits)
  have "count (mset xs) c = (if c \<in> set xs then 1 else 0)" for c
    using a [of c] s [of c] by (simp add: count_mset)
  then have "distinct xs" by (simp add: distinct_count_atmost_1)
  with s show ?thesis by (auto simp: exactly_def)
qed

lemma customerIdSet_exactly:
  "exactly (customerIdSet s cs) {x. x \<noteq> '''' \<and> (\<exists>c \<in> set cs. customerId (inf s c) = x)}"
proof -
  let ?f = "\<lambda>c acc. let x = customerId (inf s c) in if x \<noteq> '''' then (if x \<in> set acc then acc else acc @ [x]) else acc"
  have "distinct acc \<Longrightarrow> exactly (fold ?f cs acc) (set acc \<union> {x. x \<noteq> '''' \<and> (\<exists>c \<in> set cs. customerId (inf s c) = x)})" for acc
  proof (induction cs arbitrary: acc)
    case (Cons c cs)
    have "distinct (?f c acc)" using Cons.prems by (simp add: Let_def)
    moreover have "set (?f c acc) \<union> {x. x \<noteq> '''' \<and> (\<exists>c \<in> set cs. customerId (inf s c) = x)}
       = set acc \<union> {x. x \<noteq> '''' \<and> (\<exists>c \<in> set (c # cs). customerId (inf s c) = x)}" by (auto simp: Let_def)
    ultimately show ?case using Cons.IH [of "?f c acc"] by simp
  qed (simp add: exactly_def)
  from this [of "[]"] show ?thesis by (simp add: customerIdSet_def)
qed

lemma fold_snoc_id: "fold (\<lambda>x xs. xs @ [f x]) ys zs = zs @ map f ys"
  by (induction ys arbitrary: zs) auto

lemma GetCustomerIds_eq: "GetCustomerIds s cs = customerIdSet s cs"
  using fold_snoc_id [of "\<lambda>x. x" "customerIdSet s cs" "[]"] by (simp add: GetCustomerIds_def Let_def)

lemma GetUniqIds_eq: "GetUniqIds s cs = map (\<lambda>c. uniqId (inf s c)) cs"
  by (simp add: GetUniqIds_def fold_snoc_id)

lemma perTopic_at: "gm_ok m \<Longrightarrow> map_of (perTopic f m) k = map_option f (map_of m k)"
proof -
  have "gm_ok m \<Longrightarrow> map_of (fold (\<lambda>(tp, l) items. AList.update tp (f l) items) m acc) k
      = (case map_of m k of None \<Rightarrow> map_of acc k | Some l \<Rightarrow> Some (f l))" for acc
  proof (induction m arbitrary: acc)
    case (Cons x m)
    then show ?case by (cases x) (auto split: option.splits simp: map_of_eq_None_iff rev_image_eqI dest: map_of_SomeD)
  qed simp
  from this [of "[]"] show "gm_ok m \<Longrightarrow> ?thesis" by (auto simp: perTopic_def split: option.splits)
qed

lemma perTopic_ok [simp]: "gm_ok (perTopic f m)"
proof -
  have "gm_ok acc \<Longrightarrow> gm_ok (fold (\<lambda>(tp, l) items. AList.update tp (f l) items) m acc)" for acc
    by (induction m arbitrary: acc) auto
  then show ?thesis by (simp add: perTopic_def)
qed

section \<open>What the registries hold, seen from a query\<close>

definition subscribers :: "'l gw \<Rightarrow> string \<Rightarrow> cref set" where
  "subscribers s tp = {c. online s c \<and> tp \<in> topicSet (inf s c)}"

definition boundTo :: "'l gw \<Rightarrow> string \<Rightarrow> cref set" where
  "boundTo s x = {c. online s c \<and> x = customerId (inf s c) \<and> x \<noteq> ''''}"

text \<open>One entry of an index: absent when nobody has the name, otherwise its members, each once.\<close>

definition entry_of :: "'a list option \<Rightarrow> 'a set \<Rightarrow> bool" where
  "entry_of x S \<longleftrightarrow> (case x of None \<Rightarrow> S = {} | Some xs \<Rightarrow> S \<noteq> {} \<and> exactly xs S)"

lemma idx_entry:
  assumes "idx_wf h S" "exact (idx_get h S) i R"
  shows "entry_of (map_option (map snd) (sh_get h S k)) {c. R c k}"
proof -
  have e: "exactly (case sh_get h S k of None \<Rightarrow> [] | Some m \<Rightarrow> map snd m) {c. R c k}"
    by (rule exactly_count) (simp add: idx_members [OF assms])
  show ?thesis
  proof (cases "sh_get h S k")
    case (Some m)
    then have "set (map snd m) \<noteq> {}" using assms(1) by (simp add: idx_wf_def)
    moreover have ex: "exactly (map snd m) {c. R c k}" using e Some by simp
    ultimately have "{c. R c k} \<noteq> {}" unfolding exactly_def by metis
    with ex show ?thesis unfolding entry_of_def Some option.map option.case by blast
  next
    case None
    then have "exactly [] {c. R c k}" using e by simp
    then show ?thesis unfolding entry_of_def None exactly_def by simp
  qed
qed

lemma topic_entry: "gw_ok t s \<Longrightarrow> entry_of (map_option (map snd) (sh_get hashTopic (tpc s) tp)) (subscribers s tp)"
  unfolding subscribers_def by (rule idx_entry [OF _ gw_okD(8)]) (auto dest: gw_okD(2) simp: topic_wf_def)

lemma customer_entry: "gw_ok t s \<Longrightarrow> entry_of (map_option (map snd) (sh_get hashCustomerId (bnd s) x)) (boundTo s x)"
  unfolding boundTo_def by (rule idx_entry [OF _ gw_okD(9)]) (auto dest: gw_okD(3) simp: binder_wf_def)

lemma entry_dom: "entry_of x S \<Longrightarrow> x = None \<longleftrightarrow> S = {}"
  by (auto simp: entry_of_def split: option.splits)

lemma uniqIds_inj: "gw_ok t s \<Longrightarrow> inj_on (\<lambda>c. uniqId (inf s c)) {c. online s c}"
  by (rule inj_onI) (metis gen_distinct(2) gw_okD(4) mem_Collect_eq online_lt)

lemma topic_names:
  assumes "gw_ok t s"
  shows "exactly (Topic_Get (tpc s)) {tp. subscribers s tp \<noteq> {}}" "Topic_Len (tpc s) = card {tp. subscribers s tp \<noteq> {}}"
proof -
  have wf: "sh_wf hashTopic (tpc s)" using gw_okD(2) [OF assms] by (simp add: topic_wf_def idx_wf_def)
  have "set (Topic_Get (tpc s)) = dom (sh_get hashTopic (tpc s))"
    by (simp add: Topic_Get_eq topic_sh.map_of_entries [OF wf, symmetric] dom_map_of_conv_image_fst)
  moreover have "dom (sh_get hashTopic (tpc s)) = {tp. subscribers s tp \<noteq> {}}"
    using entry_dom [OF topic_entry [OF assms]] by (simp add: dom_def)
  ultimately show "exactly (Topic_Get (tpc s)) {tp. subscribers s tp \<noteq> {}}"
    using topic_sh.distinct_entries [OF wf] by (simp add: exactly_def Topic_Get_eq)
  from exactly_length [OF this] show "Topic_Len (tpc s) = card {tp. subscribers s tp \<noteq> {}}"
    by (simp add: Topic_Get_eq Topic_Len_eq)
qed

lemma customer_names:
  assumes "gw_ok t s"
  shows "exactly (Binder_GetCustomerIds (bnd s)) {x. boundTo s x \<noteq> {}}" "Binder_Len (bnd s) = card {x. boundTo s x \<noteq> {}}"
proof -
  have wf: "sh_wf hashCustomerId (bnd s)" using gw_okD(3) [OF assms] by (simp add: binder_wf_def idx_wf_def)
  have "set (Binder_GetCustomerIds (bnd s)) = dom (sh_get hashCustomerId (bnd s))"
    by (simp add: Binder_GetCustomerIds_eq binder_sh.map_of_entries [OF wf, symmetric] dom_map_of_conv_image_fst)
  moreover have "dom (sh_get hashCustomerId (bnd s)) = {x. boundTo s x \<noteq> {}}"
    using entry_dom [OF customer_entry [OF assms]] by (simp add: dom_def)
  ultimately show "exactly (Binder_GetCustomerIds (bnd s)) {x. boundTo s x \<noteq> {}}"
    using binder_sh.distinct_entries [OF wf] by (simp add: exactly_def Binder_GetCustomerIds_eq)
  from exactly_length [OF this] show "Binder_Len (bnd s) = card {x. boundTo s x \<noteq> {}}"
    by (simp add: Binder_GetCustomerIds_eq Binder_Len_eq)
qed

lemma manager_names:
  assumes "gw_ok t s" "nextc s < 2 ^ 32"
  shows "exactly (case Manager_GetUniqIds (mgr s) of None \<Rightarrow> [] | Some us \<Rightarrow> us) ((\<lambda>c. uniqId (inf s c)) ` {c. online s c})"
    "Manager_Len (mgr s) = card {c. online s c}"
proof -
  note wf = gw_okD(1) [OF assms(1)]
  let ?es = "sh_entries (mshards (mgr s))"
  let ?cs = "case Manager_GetConnections (mgr s) of None \<Rightarrow> [] | Some cs \<Rightarrow> cs"
  have cs: "exactly ?cs {c. online s c}"
    by (rule exactly_count) (simp add: manager_members(1) [OF assms])
  have u: "fst e = uniqId (inf s (snd e))" if "e \<in> set ?es" for e
    using gw_okD(6) [OF assms(1)] that manager_entries [OF wf, of "fst e" "snd e"] by simp
  have "keys ?es = map (\<lambda>c. uniqId (inf s c)) (map snd ?es)" using u by simp
  then have "(case Manager_GetUniqIds (mgr s) of None \<Rightarrow> [] | Some us \<Rightarrow> us) = map (\<lambda>c. uniqId (inf s c)) ?cs"
    by (simp add: Manager_GetUniqIds_eq Manager_GetConnections_eq)
  then show "exactly (case Manager_GetUniqIds (mgr s) of None \<Rightarrow> [] | Some us \<Rightarrow> us) ((\<lambda>c. uniqId (inf s c)) ` {c. online s c})"
    using exactly_map [OF cs uniqIds_inj [OF assms(1)]] by simp
  have "card {c. online s c} \<le> nextc s"
    using card_mono [of "{..<nextc s}" "{c. online s c}"] online_lt [OF assms(1)] by auto
  then have lt: "card {c. online s c} < 2 ^ 32" using assms(2) by simp
  have "set (map snd ?es) = {c. online s c}"
  proof -
    have "c \<in> set (map snd ?es) \<longleftrightarrow> online s c" for c
      using online_Get [OF assms(1)] manager_entries [OF wf] by (force simp: online_def)
    then show ?thesis by blast
  qed
  moreover have "distinct (map snd ?es)"
  proof -
    have "distinct (keys ?es)" using wf by (simp add: manager_sh.distinct_entries manager_wf_def)
    then have "distinct (map (\<lambda>c. uniqId (inf s c)) (map snd ?es))" using \<open>keys ?es = _\<close> by metis
    then show ?thesis by (metis distinct_map)
  qed
  ultimately have "length ?es = card {c. online s c}" by (metis distinct_card length_map)
  moreover have "mlen (mgr s) = of_nat (length ?es)"
    using wf by (simp add: manager_wf_def manager_sh.length_entries)
  ultimately show "Manager_Len (mgr s) = card {c. online s c}"
    using lt unat_of_nat_small [where 'a = 32, of "length ?es"] by (simp add: Manager_Len_def)
qed

end
