(* ===== verification/Upgrade.thy ===== *)
theory Upgrade
  imports Codec
begin

text \<open>
  The HTTP handshake: \<^verbatim>\<open>upgrade\<close> of \<^verbatim>\<open>src/internal/wsServer/codec.go\<close> with the check \<^verbatim>\<open>OnUpgradeCheck\<close> that
  \<^verbatim>\<open>src/internal/customer/websocket.go\<close> installs. The request parser of \<^verbatim>\<open>net/http\<close>, the option parser of
  \<^verbatim>\<open>httphead\<close> and the digest (SHA-1 in base64) are parameters, as is whether gnet discards and writes;
  what the code does with their results is modelled branch by branch.
\<close>

section \<open>Requests, responses and their headers\<close>

text \<open>Keys of \<^verbatim>\<open>Header\<close> are in canonical form, a key may have several values.\<close>

record http_request =
  Method :: string
  RequestURI :: string
  URLRawQuery :: string
  Header :: "(string, string list) gomap"

record http_response =
  StatusCode :: int
  RespHeader :: "(string \<times> string) list"
  Body :: string

definition upChar :: "char \<Rightarrow> char" where
  "upChar c = (if 97 \<le> (of_char c :: nat) \<and> of_char c \<le> (122 :: nat) then char_of (of_char c - 32 :: nat) else c)"

definition lowChar :: "char \<Rightarrow> char" where
  "lowChar c = (if 65 \<le> (of_char c :: nat) \<and> of_char c \<le> (90 :: nat) then char_of (of_char c + 32 :: nat) else c)"

text \<open>\<^verbatim>\<open>textproto.CanonicalMIMEHeaderKey\<close> on valid names: capitals at the start and after a hyphen, else lower case.\<close>

fun canonical :: "bool \<Rightarrow> string \<Rightarrow> string" where
  "canonical upper [] = []"
| "canonical upper (c # r) = (if upper then upChar c else lowChar c) # canonical (c = CHR ''-'') r"

text \<open>\<^verbatim>\<open>Header.Get\<close>: the first value of the key, the empty string when there is none.\<close>

definition Header_Get :: "http_request \<Rightarrow> string \<Rightarrow> string" where
  "Header_Get req k = (case map_of (Header req) (canonical True k) of Some (v # _) \<Rightarrow> v | _ \<Rightarrow> [])"

text \<open>
  \<^verbatim>\<open>strings.EqualFold\<close> against a lower-case ASCII word: ASCII letters fold to lower case, and so do the two
  characters outside ASCII that fold into it, the long s and the Kelvin sign (here as their UTF-8 bytes).
\<close>

fun foldWord :: "string \<Rightarrow> string" where
  "foldWord [] = []"
| "foldWord (a # r) =
     (if of_char a = (0xC5 :: nat) \<and> map of_char (take 1 r) = [0xBF :: nat] then CHR ''s'' # foldWord (drop 1 r)
      else if of_char a = (0xE2 :: nat) \<and> map of_char (take 2 r) = [0x84, 0xAA :: nat] then CHR ''k'' # foldWord (drop 2 r)
      else lowChar a # foldWord r)"

text \<open>\<^verbatim>\<open>strings.Contains\<close>.\<close>

definition contains :: "string \<Rightarrow> string \<Rightarrow> bool" where
  "contains s v = list_ex (\<lambda>i. take (length v) (drop i s) = v) [0..<Suc (length s)]"

definition respond :: "int \<Rightarrow> string \<Rightarrow> http_response" where
  "respond code body = \<lparr>StatusCode = code, RespHeader = [], Body = body\<rparr>"

section \<open>The check before the handshake\<close>

definition OnUpgradeCheck :: "string \<Rightarrow> string list \<Rightarrow> http_request \<Rightarrow> http_response option" where
  "OnUpgradeCheck HandlePattern AllowOrigin req =
     (if RequestURI req \<noteq> HandlePattern then Some (respond 404 ''Not Found'')
      else if length AllowOrigin > 0 \<and> \<not> list_ex (contains (Header_Get req ''Origin'')) AllowOrigin
      then Some (respond 403 ''Forbidden'')
      else None)"

section \<open>The handshake\<close>

record http_env =
  ReadRequest :: "bytes \<Rightarrow> http_request option"
  ParseOptions :: "string \<Rightarrow> string list option"
  acceptDigest :: "string \<Rightarrow> string"

text \<open>What gnet does while one handshake runs: the buffer it shows, and whether it discards and writes.\<close>

record gnet_io =
  peeked :: "bytes option"
  discardOk :: bool
  respWriteOk :: bool

datatype action = ActNone | ActClose | ActPanic

definition crlf2 :: bytes where "crlf2 = [13, 10, 13, 10]"

definition websocketGUID :: string where "websocketGUID = ''258EAFA5-E914-47DA-95CA-C5AB0DC85B11''"

text \<open>The checks of the request, in the order of the code; \<open>Inl\<close> is the response that refuses it.\<close>

definition check_request :: "(http_request \<Rightarrow> http_response option) \<Rightarrow> http_request \<Rightarrow> http_response + unit" where
  "check_request onUpgradeCheck req =
     (if map_of (Header req) ''Upgrade'' = None then Inl (respond 200 ''Hello netsvr'')
      else if Method req \<noteq> ''GET'' then Inl (respond 405 ''Method Not Allowed'')
      else case onUpgradeCheck req of
        Some resp \<Rightarrow> Inl resp
      | None \<Rightarrow>
          if foldWord (Header_Get req ''Upgrade'') \<noteq> ''websocket'' then Inl (respond 400 ''invalid Upgrade header'')
          else if Header_Get req ''Connection'' \<noteq> ''Upgrade'' \<and> Header_Get req ''Connection'' \<noteq> ''upgrade''
          then Inl (respond 400 ''invalid Connection header'')
          else if Header_Get req ''Sec-WebSocket-Version'' \<noteq> ''13''
          then Inl \<lparr>StatusCode = 426, RespHeader = [(''Sec-WebSocket-Version'', ''13'')], Body = ''Upgrade Required''\<rparr>
          else Inr ())"

text \<open>Negotiating compression: \<open>None\<close> when the extensions header does not parse.\<close>

definition negotiate :: "http_env \<Rightarrow> http_request \<Rightarrow> codec \<Rightarrow> codec option" where
  "negotiate he req r =
     (let ext = Header_Get req ''Sec-WebSocket-Extensions''
      in if ext = [] then Some r
         else case ParseOptions he ext of
                None \<Rightarrow> None
              | Some options \<Rightarrow>
                  Some (if list_ex (\<lambda>name. name = ''permessage-deflate'') options then setCompression True r else r))"

definition switching :: "http_env \<Rightarrow> string \<Rightarrow> codec \<Rightarrow> http_response" where
  "switching he key r =
     \<lparr>StatusCode = 101,
      RespHeader = [(''Upgrade'', ''websocket''), (''Connection'', ''Upgrade''),
         (''Sec-WebSocket-Accept'', acceptDigest he (key @ websocketGUID))] @
         (if IsCompressOnSafe r then [(''sec-websocket-extensions'',
            ''permessage-deflate; server_no_context_takeover; client_no_context_takeover'')] else []),
      Body = []\<rparr>"

text \<open>
  \<^verbatim>\<open>upgrade\<close>: the request when the connection is upgraded, the response written, the action for gnet and the
  codec.
\<close>

definition upgrade :: "http_env \<Rightarrow> (http_request \<Rightarrow> http_response option) \<Rightarrow> gnet_io \<Rightarrow> codec \<Rightarrow>
    http_request option \<times> http_response option \<times> action \<times> codec" where
  "upgrade he onUpgradeCheck io r =
     (case peeked io of None \<Rightarrow> (None, None, ActClose, r)
      | Some peek \<Rightarrow>
          if length peek < 4 \<or> drop (length peek - 4) peek \<noteq> crlf2 then (None, None, ActNone, r)
          else case ReadRequest he peek of
            None \<Rightarrow> (None, Some (respond 400 ''Bad Request''), ActClose, r)
          | Some req \<Rightarrow>
              (case check_request onUpgradeCheck req of
                 Inl resp \<Rightarrow> (None, Some resp, ActClose, r)
               | Inr _ \<Rightarrow>
                   (case negotiate he req r of
                      None \<Rightarrow> (None, Some (respond 400 ''invalid Sec-WebSocket-Extensions header''), ActClose, r)
                    | Some r \<Rightarrow>
                        let key = Header_Get req ''Sec-WebSocket-Key''
                        in if key = [] then (None, Some (respond 400 ''missing Sec-WebSocket-Key''), ActClose, r)
                           else if \<not> discardOk io then (None, None, ActClose, r)
                           else if \<not> respWriteOk io then (None, Some (switching he key r), ActClose, r)
                           else (Some req, Some (switching he key r), ActNone, setUpgraded True r))))"


section \<open>What an accepted handshake is\<close>

text \<open>The request is one that the code accepts, whatever gnet does.\<close>

definition acceptable :: "http_env \<Rightarrow> (http_request \<Rightarrow> http_response option) \<Rightarrow> http_request \<Rightarrow> bool" where
  "acceptable he onUpgradeCheck req \<longleftrightarrow>
     map_of (Header req) ''Upgrade'' \<noteq> None \<and> Method req = ''GET'' \<and> onUpgradeCheck req = None \<and>
     foldWord (Header_Get req ''Upgrade'') = ''websocket'' \<and>
     Header_Get req ''Connection'' \<in> {''Upgrade'', ''upgrade''} \<and>
     Header_Get req ''Sec-WebSocket-Version'' = ''13'' \<and>
     (Header_Get req ''Sec-WebSocket-Extensions'' = [] \<or> ParseOptions he (Header_Get req ''Sec-WebSocket-Extensions'') \<noteq> None) \<and>
     Header_Get req ''Sec-WebSocket-Key'' \<noteq> []"

definition offersDeflate :: "http_env \<Rightarrow> http_request \<Rightarrow> bool" where
  "offersDeflate he req \<longleftrightarrow> Header_Get req ''Sec-WebSocket-Extensions'' \<noteq> [] \<and>
     (\<exists>os. ParseOptions he (Header_Get req ''Sec-WebSocket-Extensions'') = Some os \<and> ''permessage-deflate'' \<in> set os)"

lemma check_request_ok:
  "check_request chk req = Inr u \<longleftrightarrow> map_of (Header req) ''Upgrade'' \<noteq> None \<and> Method req = ''GET'' \<and> chk req = None \<and>
     foldWord (Header_Get req ''Upgrade'') = ''websocket'' \<and> Header_Get req ''Connection'' \<in> {''Upgrade'', ''upgrade''} \<and>
     Header_Get req ''Sec-WebSocket-Version'' = ''13''"
  unfolding check_request_def by (auto split: if_splits option.splits)

lemma negotiate_ok:
  "negotiate he req r = None \<longleftrightarrow> Header_Get req ''Sec-WebSocket-Extensions'' \<noteq> [] \<and>
     ParseOptions he (Header_Get req ''Sec-WebSocket-Extensions'') = None"
  "negotiate he req r = Some r' \<Longrightarrow> r' = (if offersDeflate he req then setCompression True r else r)"
  by (auto simp: negotiate_def offersDeflate_def Let_def list_ex_iff split: if_splits option.splits)

lemma upgrade_Some:
  assumes "upgrade he chk io r = (Some req, resp, act, r')"
  shows "acceptable he chk req" "act = ActNone" "discardOk io" "respWriteOk io"
    "\<exists>peek. peeked io = Some peek \<and> 4 \<le> length peek \<and> drop (length peek - 4) peek = crlf2 \<and> ReadRequest he peek = Some req"
    "r' = setUpgraded True (if offersDeflate he req then setCompression True r else r)"
    "resp = Some (switching he (Header_Get req ''Sec-WebSocket-Key'') (if offersDeflate he req then setCompression True r else r))"
proof -
  obtain peek where p: "peeked io = Some peek" "\<not> (length peek < 4 \<or> drop (length peek - 4) peek \<noteq> crlf2)"
    using assms by (auto simp: upgrade_def split: option.splits if_splits)
  obtain u k where q: "ReadRequest he peek = Some req" "check_request chk req = Inr u" "negotiate he req r = Some k"
    using assms p by (auto simp: upgrade_def Let_def split: option.splits if_splits sum.splits)
  note k = negotiate_ok(2) [OF q(3)]
  have e: "Header_Get req ''Sec-WebSocket-Key'' \<noteq> []" "discardOk io" "respWriteOk io" "act = ActNone" "r' = setUpgraded True k"
      "resp = Some (switching he (Header_Get req ''Sec-WebSocket-Key'') k)"
    using assms p q by (auto simp: upgrade_def Let_def split: if_splits)
  show "acceptable he chk req"
    using q(2,3) e(1) negotiate_ok(1) [of he req r] by (auto simp: acceptable_def check_request_ok)
  show "act = ActNone" "discardOk io" "respWriteOk io"
    "r' = setUpgraded True (if offersDeflate he req then setCompression True r else r)"
    "resp = Some (switching he (Header_Get req ''Sec-WebSocket-Key'') (if offersDeflate he req then setCompression True r else r))"
    using e k by simp_all
  show "\<exists>peek. peeked io = Some peek \<and> 4 \<le> length peek \<and> drop (length peek - 4) peek = crlf2 \<and> ReadRequest he peek = Some req"
    using p q(1) by (auto simp: not_less)
qed

lemma closed_flags [simp]: "closed (setCompression b r) = closed r" "closed (setUpgraded b r) = closed r"
  by (simp_all add: setCompression_def setUpgraded_def)

lemma negotiate_keeps: "negotiate he req r = Some r' \<Longrightarrow> isUpgraded r' = isUpgraded r \<and> closed r' = closed r"
  using negotiate_ok(2) [of he req r r'] by auto

lemma upgrade_None:
  assumes "upgrade he chk io r = (None, resp, act, r')"
  shows "isUpgraded r' = isUpgraded r \<and> closed r' = closed r"
  using assms by (auto simp: upgrade_def Let_def dest: negotiate_keeps split: option.splits if_splits sum.splits)

lemma upgrade_accepting:
  assumes "peeked io = Some peek" "4 \<le> length peek" "drop (length peek - 4) peek = crlf2" "ReadRequest he peek = Some req"
    and "acceptable he chk req" "discardOk io" "respWriteOk io"
  shows "fst (upgrade he chk io r) = Some req"
proof -
  have "check_request chk req = Inr ()" "negotiate he req r \<noteq> None" "Header_Get req ''Sec-WebSocket-Key'' \<noteq> []"
    using assms(5) by (auto simp: acceptable_def check_request_ok negotiate_ok)
  then show ?thesis using assms(1-4,6,7) by (auto simp: upgrade_def Let_def)
qed


definition sample_request :: http_request where
  "sample_request = \<lparr>Method = ''GET'', RequestURI = ''/netsvr'', URLRawQuery = [], Header = [
     (''Upgrade'', [''WebSocket'']), (''Connection'', [''Upgrade'']), (''Sec-Websocket-Version'', [''13'']),
     (''Sec-Websocket-Key'', [''k'']), (''Sec-Websocket-Extensions'', [''permessage-deflate''])]\<rparr>"

definition sample_http :: "http_request \<Rightarrow> http_env" where
  "sample_http q = \<lparr>ReadRequest = (\<lambda>_. Some q), ParseOptions = (\<lambda>e. Some [e]), acceptDigest = (\<lambda>k. k)\<rparr>"

definition sample_io :: gnet_io where
  "sample_io = \<lparr>peeked = Some crlf2, discardOk = True, respWriteOk = True\<rparr>"

lemma newCodec_flags: "\<not> isUpgraded newCodec" "\<not> IsCompressOnSafe newCodec"
  by (simp_all add: isUpgraded_def IsCompressOnSafe_def newCodec_def)

lemma char_codes: "char_of (115 :: nat) = CHR ''s''" "char_of (119 :: nat) = CHR ''w''"
  by code_simp+

lemma sample_acceptable: "acceptable (sample_http sample_request) (OnUpgradeCheck ''/netsvr'' []) sample_request"
  by (simp add: acceptable_def sample_request_def sample_http_def OnUpgradeCheck_def Header_Get_def upChar_def lowChar_def char_codes)


text \<open>
  The comment asks for a \<^verbatim>\<open>Connection\<close> header that contains \<^verbatim>\<open>Upgrade\<close>, the code compares the whole value:
  the header \<^verbatim>\<open>keep-alive, Upgrade\<close>, which a browser may send, is refused.
\<close>

theorem connection_token_list_refused:
  assumes "Header_Get req ''Connection'' = ''keep-alive, Upgrade''" "ReadRequest he peek = Some req" "peeked io = Some peek"
  shows "fst (upgrade he chk io r) = None \<and> (isUpgraded (snd (snd (snd (upgrade he chk io r)))) \<longleftrightarrow> isUpgraded r)"
proof (cases "upgrade he chk io r")
  case (fields q resp act r')
  have "q = None"
    using upgrade_Some(1,5) [of he chk io r _ resp act r'] assms fields by (cases q) (auto simp: acceptable_def)
  then show ?thesis using upgrade_None [of he chk io r resp act r'] fields by simp
qed

theorem connection_token_list_refused_witness:
  "fst (upgrade (sample_http (sample_request\<lparr>Header := [(''Connection'', [''keep-alive, Upgrade''])]\<rparr>)) (\<lambda>_. None) sample_io newCodec) = None"
  using connection_token_list_refused [of "sample_request\<lparr>Header := [(''Connection'', [''keep-alive, Upgrade''])]\<rparr>"
      "sample_http (sample_request\<lparr>Header := [(''Connection'', [''keep-alive, Upgrade''])]\<rparr>)" crlf2 sample_io "\<lambda>_. None" newCodec]
  by (simp add: Header_Get_def sample_http_def sample_io_def upChar_def lowChar_def)

text \<open>
  The path check compares \<^verbatim>\<open>RequestURI\<close>, which carries the query: with a pattern without a question mark,
  every request with a query is answered with 404, so the \<^verbatim>\<open>RawQuery\<close> that is sent to the business with
  \<^verbatim>\<open>ConnOpen\<close> is always empty.
\<close>

theorem query_refused:
  assumes "RequestURI req = path @ ''?'' @ URLRawQuery req" "CHR ''?'' \<notin> set pattern"
  shows "OnUpgradeCheck pattern origins req = Some (respond 404 ''Not Found'')"
  using assms by (auto simp: OnUpgradeCheck_def)

theorem query_refused_witness:
  "OnUpgradeCheck ''/netsvr'' [] (sample_request\<lparr>RequestURI := ''/netsvr?a=1'', URLRawQuery := ''a=1''\<rparr>) = Some (respond 404 ''Not Found'')"
  by (rule query_refused [where path = "''/netsvr''"]) simp_all

end
