(* ===== verification/CustomerEvents.thy ===== *)
theory CustomerEvents
  imports Delivery Upgrade
begin

text \<open>
  The life of a client connection: the event handlers of gnet (\<^verbatim>\<open>src/internal/wsServer/server.go\<close>), the callbacks
  they invoke (\<^verbatim>\<open>src/internal/customer/websocket.go\<close>), the closures that these submit to the goroutine pool
  and the timers. The handlers of one connection run in one event loop; the closures, the timers and the
  commands of the business run beside them, so each is a step of its own in \<open>gw_step\<close>.
\<close>

section \<open>Configuration and circumstances\<close>

record srv =
  httpEnv :: http_env
  HandlePattern :: string
  AllowOrigin :: "string list"
  inflate :: "bytes \<Rightarrow> bytes option"

text \<open>What the environment of an event is: the clock, gnet's count of connections, whether the process is
  quitting, whether the pool takes a task, the peer's address and gnet's side of a handshake.\<close>

record circ =
  evNow :: int
  evOnlineNum :: int
  evQuit :: bool
  evPool :: bool
  evRemote :: string
  evIo :: gnet_io

definition StatusGoingAway :: status where "StatusGoingAway = 1001"
definition StatusMessageTooBig :: status where "StatusMessageTooBig = 1009"
definition StatusInternalServerError :: status where "StatusInternalServerError = 1011"

section \<open>Connections appear\<close>

definition server_OnOpen :: "'l env \<Rightarrow> int \<Rightarrow> 'l gw \<Rightarrow> 'l gw" where
  "server_OnOpen env now s =
     (let ((uid, i), incr) = NewId (idTemplate env) now (incrId s)
      in s\<lparr>heap := (heap s)(nextc s := \<lparr>ccodec = newCodec, cinfo = newInfo (limitCfg env) uid i now\<rparr>),
           nextc := nextc s + 1, incrId := incr\<rparr>)"

section \<open>Opening\<close>

datatype open_res = OpenOk | OpenErr status string | OpenPanic

definition OnWebsocketOpen :: "'l env \<Rightarrow> circ \<Rightarrow> cref \<Rightarrow> httpReq \<Rightarrow> 'l gw \<Rightarrow> open_res \<times> 'l gw" where
  "OnWebsocketOpen env ev c req s =
     (if evQuit ev then (OpenErr 1012 ''service restart'', s)
      else if evOnlineNum ev > MaxOnlineNum env then (OpenErr 1013 ''open rate limited, try again later'', s)
      else case Limit_Allow (rateOps env) (evNow ev) Event_OnOpen (lims s) of
        None \<Rightarrow> (OpenPanic, s)
      | Some (ok, l) \<Rightarrow>
          let s = s\<lparr>lims := l\<rparr>
          in if \<not> ok then (OpenErr 1013 ''open rate limited, try again later'', mark ItemOpenRateLimitCount 1 s)
             else if evPool ev then (OpenOk, s\<lparr>tasks := tasks s @ [TOpen c req]\<rparr>)
             else (OpenErr StatusInternalServerError ''submit'', s))"

text \<open>The closure up to the callback.\<close>

definition open_begin :: "'l env \<Rightarrow> cref \<Rightarrow> httpReq \<Rightarrow> 'l gw \<Rightarrow> 'l gw" where
  "open_begin env c req s =
     (if IsClosedOnSafe (ccodec (heap s c)) then s
      else let co = \<lparr>coUniqId = uniqId (inf s c), coRawQuery = RawQuery req, coXForwardedFor = XForwardedFor req,
                     coXRealIp = XRealIp req, coRemoteAddr = RemoteAddr req\<rparr>
           in if onOpenApi env
              then let (r, s) = callback_OnOpen env co s in s\<lparr>tasks := tasks s @ [TAnswer c co r]\<rparr>
              else s\<lparr>tasks := tasks s @ [TReg c co None]\<rparr>)"

text \<open>The decision after the callback.\<close>

definition open_answer :: "'l env \<Rightarrow> cref \<Rightarrow> ConnOpen \<Rightarrow> string + ConnOpenResp \<Rightarrow> 'l gw \<Rightarrow> 'l gw" where
  "open_answer env c co r s =
     (if IsClosedOnSafe (ccodec (heap s c)) then s
      else case r of
        Inl err \<Rightarrow> WriteClose env c StatusInternalServerError err s
      | Inr resp \<Rightarrow>
          if \<not> orAllow resp
          then let s = (if length (orData resp) > 0 then snd (WriteMessage env c (SendMessageType env) (orData resp) s) else s)
               in WriteClose env c StatusPolicyViolation ''unauthorized'' s
          else s\<lparr>tasks := tasks s @ [TReg c co (Some resp)]\<rparr>)"

text \<open>The rest: the connection enters the registries, gets its heartbeat check, and the event goes to the sinks.\<close>

definition openInfo :: "ConnOpenResp option \<Rightarrow> info \<Rightarrow> info" where
  "openInfo r i = (case r of None \<Rightarrow> i | Some resp \<Rightarrow>
     let i = (if orNewSession resp \<noteq> '''' then SetSession (orNewSession resp) i else i);
         i = (if orNewCustomerId resp \<noteq> '''' then SetCustomerId (orNewCustomerId resp) i else i)
     in if length (orNewTopics resp) > 0 then SubscribeTopics (orNewTopics resp) i else i)"

definition entered :: "cref \<Rightarrow> ConnOpenResp option \<Rightarrow> 'l gw \<Rightarrow> 'l gw" where
  "entered c r s =
     (let s = mark ItemCustomerConnOpenCount 1 s;
          s = updInfo (openInfo r) c s;
          s = s\<lparr>mgr := Manager_Set (uniqId (inf s c)) c (mgr s)\<rparr>
      in case r of None \<Rightarrow> s | Some resp \<Rightarrow>
           let s = (if orNewCustomerId resp \<noteq> '''' then s\<lparr>bnd := Binder_SetRelation (orNewCustomerId resp) (ids s c) c (bnd s)\<rparr> else s)
           in if length (orNewTopics resp) > 0 then s\<lparr>tpc := Topic_SetRelation (orNewTopics resp) (Some (ids s c, c)) (tpc s)\<rparr> else s)"

definition open_register :: "'l env \<Rightarrow> cref \<Rightarrow> ConnOpen \<Rightarrow> ConnOpenResp option \<Rightarrow> 'l gw \<Rightarrow> 'l gw" where
  "open_register env c co r s =
     (let s = entered c r s;
          s = (case r of None \<Rightarrow> s | Some resp \<Rightarrow>
                 if length (orData resp) > 0 then snd (WriteMessage env c (SendMessageType env) (orData resp) s) else s);
          s = s\<lparr>timers := timers s @ [HeartbeatEvery c]\<rparr>
      in forward env Event_OnOpen (MConnOpen co) Cmd_ConnOpen s)"

section \<open>Closing\<close>

definition OnWebsocketClose :: "cref \<Rightarrow> 'l gw \<Rightarrow> 'l gw" where
  "OnWebsocketClose c s =
     (let s = s\<lparr>mgr := Manager_Del (uniqId (inf s c)) (mgr s)\<rparr>;
          (uid, cid, sess, ts) = SnapshotOnSafe (inf s c);
          s = (if cid \<noteq> '''' then s\<lparr>bnd := Binder_DelRelation cid (ids s c) (bnd s)\<rparr> else s);
          s = s\<lparr>tpc := Topic_DelRelationBySlice ts (ids s c) (tpc s)\<rparr>
      in s\<lparr>tasks := tasks s @ [TClose \<lparr>clUniqId = uid, clCustomerId = cid, clSession = sess, clTopics = ts\<rparr>]\<rparr>)"

definition close_event :: "'l env \<Rightarrow> ConnClose \<Rightarrow> 'l gw \<Rightarrow> 'l gw" where
  "close_event env cl s =
     (let s = mark ItemCustomerConnCloseCount 1 s;
          s = (if onCloseApi env then callback_OnClose env cl s else s)
      in forward env Event_OnClose (MConnClose cl) Cmd_ConnClose s)"

definition server_OnClose :: "cref \<Rightarrow> 'l gw \<Rightarrow> 'l gw" where
  "server_OnClose c s =
     (if isUpgraded (ccodec (heap s c))
      then OnWebsocketClose c (updCodec (\<lambda>k. snd (SetClosedFlagOnSafe k)) c s)
      else s)"

section \<open>Messages\<close>

definition OnWebsocketPing :: "int \<Rightarrow> cref \<Rightarrow> 'l gw \<Rightarrow> 'l gw" where
  "OnWebsocketPing now c s = mark ItemCustomerHeartbeatCount 1 (updInfo (UpdateLastActiveTimeOnSafe now) c s)"

definition OnWebsocketMessage :: "'l env \<Rightarrow> int \<Rightarrow> cref \<Rightarrow> bytes \<Rightarrow> 'l gw \<Rightarrow> 'l gw" where
  "OnWebsocketMessage env now c d s =
     (let s = updInfo (UpdateLastActiveTimeOnSafe now) c s
      in if d = HeartbeatMessage env then mark ItemCustomerHeartbeatCount 1 s
         else let allow = fst (Allow (limitCfg env) now (inf s c));
                  s = updInfo (\<lambda>r. snd (Allow (limitCfg env) now r)) c s
              in s\<lparr>tasks := tasks s @ [TMsg c d allow]\<rparr>)"

definition message_event :: "'l env \<Rightarrow> int \<Rightarrow> cref \<Rightarrow> bytes \<Rightarrow> bool \<Rightarrow> 'l gw \<Rightarrow> 'l gw" where
  "message_event env now c d allow s =
     (let (uid, cid, sess, ts) = SnapshotOnSafe (inf s c)
      in if length d > ReceivePackLimit env then WriteClose env c StatusMessageTooBig ''message too big'' s
         else if \<not> allow then mark ItemConnectionMessageRateLimitCount 1 s
         else case Limit_Allow (rateOps env) now Event_OnMessage (lims s) of
           None \<Rightarrow> s
         | Some (ok, l) \<Rightarrow>
             let s = s\<lparr>lims := l\<rparr>
             in if \<not> ok then mark ItemMessageRateLimitCount 1 s
                else let tf = \<lparr>tfUniqId = uid, tfCustomerId = cid, tfSession = sess, tfTopics = ts, tfData = d\<rparr>;
                         s = (if onMessageApi env then callback_OnMessage env tf s else s)
                     in forward env Event_OnMessage (MTransfer tf) Cmd_Transfer s)"

section \<open>Bytes arrive\<close>

lemma enter_frame_flags: "enter_frame rsv op r = (e, r') \<Longrightarrow> closed r' = closed r \<and> cflags r' = cflags r"
  by (auto simp: enter_frame_def split: if_splits)

lemma first_frame_flags: "first_frame rsv op r = (e, r') \<Longrightarrow> closed r' = closed r \<and> cflags r' = cflags r"
  by (auto simp: first_frame_def Let_def split: if_splits)

lemma decode_payload_flags: "decode_payload fin rsv op L p r = (x, r') \<Longrightarrow> closed r' = closed r \<and> cflags r' = cflags r"
  unfolding decode_payload_def Let_def
  by (cases "first_frame rsv op r") (auto dest: first_frame_flags split: if_splits option.splits)

lemma decode_length_flags: "decode_length fin rsv op p r = (x, r') \<Longrightarrow> closed r' = closed r \<and> cflags r' = cflags r"
proof -
  assume d: "decode_length fin rsv op p r = (x, r')"
  have cases: "snd (if a then (y, r) else if b then (z, r) else if c then f else if g then if h then (v, r) else f' else f'') = r' \<Longrightarrow>
      r' = r \<or> r' = snd f \<or> r' = snd f' \<or> r' = snd f''"
    for a b c g h and y z v and f f' f'' :: "frame_res \<times> codec" by (auto split: if_splits)
  have pay: "closed (snd (decode_payload fin rsv op L q r)) = closed r \<and> cflags (snd (decode_payload fin rsv op L q r)) = cflags r" for L q
    by (cases "decode_payload fin rsv op L q r") (use decode_payload_flags in auto)
  have "snd (decode_length fin rsv op p r) = r'" using d by simp
  then show ?thesis unfolding decode_length_def Let_def using cases pay by metis
qed

lemma decode_frame_flags: "decode_frame r p = (x, r') \<Longrightarrow> closed r' = closed r \<and> cflags r' = cflags r"
proof -
  assume d: "decode_frame r p = (x, r')"
  obtain e k where k: "enter_frame (head_Rsv (p ! 0)) (head_OpCode (p ! 0)) r = (e, k)" by fastforce
  from d show ?thesis
    using enter_frame_flags [OF k] decode_length_flags [of "head_Fin (p ! 0)" "head_Rsv (p ! 0)" "head_OpCode (p ! 0)" p k x r']
    unfolding decode_frame_def Let_def k by (auto split: if_splits option.splits)
qed

lemma decode_flags:
  "decode inf' r buf = (x, r', rest) \<Longrightarrow> closed r' = closed r \<and> cflags r' = cflags r"
proof (induction inf' r buf arbitrary: x r' rest rule: decode.induct)
  case (1 f r buf)
  obtain y k where d: "decode_frame r buf = (y, k)" by fastforce
  note k = decode_frame_flags [OF d]
  show ?case
  proof (cases y)
    case (FFrame fin more)
    then show ?thesis
      using "1.IH" [of y k fin more x r' rest] "1.prems" d k
      by (subst (asm) decode.simps) (auto split: if_splits sum.splits)
  qed (use "1.prems" d k in \<open>auto simp: decode.simps [of f r buf]\<close>)
qed

lemma decode_consumes: "decode f r buf = (DMsg m, r', rest) \<Longrightarrow> length rest < length buf"
proof (induction f r buf arbitrary: m r' rest rule: decode.induct)
  case (1 f r buf)
  obtain y k where d: "decode_frame r buf = (y, k)" by fastforce
  show ?case
  proof (cases y)
    case (FFrame fin more)
    note s = decode_frame_shorter [OF d [unfolded FFrame]]
    show ?thesis
    proof (cases fin)
      case True
      then show ?thesis
        using "1.prems" d FFrame s by (subst (asm) decode.simps) (auto split: sum.splits)
    next
      case False
      then have "decode f k more = (DMsg m, r', rest)"
        using "1.prems" d FFrame by (subst (asm) decode.simps) simp
      then show ?thesis using "1.IH" [of y k fin more m r' rest] d FFrame False s by simp
    qed
  qed (use "1.prems" d in \<open>auto simp: decode.simps [of f r buf]\<close>)
qed

lemma resetCurrMessage_flags [simp]: "closed (resetCurrMessage r) = closed r" "cflags (resetCurrMessage r) = cflags r"
  by (simp_all add: resetCurrMessage_def Let_def)

text \<open>\<^verbatim>\<open>wsutil.WriteServerMessage\<close>, inside the event loop.\<close>

definition WriteServerMessage :: "'l env \<Rightarrow> cref \<Rightarrow> opcode \<Rightarrow> bytes \<Rightarrow> 'l gw \<Rightarrow> bool \<times> 'l gw" where
  "WriteServerMessage env c op payload s = AsyncWriteOnSafe env c (serverFrame 0 op payload) s"

abbreviation (input) setClosed :: "cref \<Rightarrow> 'l gw \<Rightarrow> 'l gw" where
  "setClosed c s \<equiv> updCodec (\<lambda>k. snd (SetClosedFlagOnSafe k)) c s"

text \<open>Sending a close frame inside the event loop, after which gnet closes the connection.\<close>

definition refuse :: "'l env \<Rightarrow> cref \<Rightarrow> status \<Rightarrow> string \<Rightarrow> 'l gw \<Rightarrow> 'l gw" where
  "refuse env c st e s = snd (WriteServerMessage env c OpClose (NewCloseFrameBody st e) (setClosed c s))"

function traffic_loop :: "'l env \<Rightarrow> srv \<Rightarrow> int \<Rightarrow> cref \<Rightarrow> bytes \<Rightarrow> 'l gw \<Rightarrow> action \<times> bytes \<times> 'l gw" where
  "traffic_loop env sv now c buf s =
     (case decode (inflate sv) (ccodec (heap s c)) buf of
        (DErr st e, k, rest) \<Rightarrow>
          (ActClose, rest, if st \<noteq> 0 then refuse env c st e (updCodec (\<lambda>_. k) c s) else updCodec (\<lambda>_. k) c s)
      | (DShort, k, rest) \<Rightarrow> (ActNone, rest, updCodec (\<lambda>_. k) c s)
      | (DPanic, k, rest) \<Rightarrow> (ActPanic, rest, updCodec (\<lambda>_. k) c s)
      | (DMsg m, k, rest) \<Rightarrow>
          let s = updCodec (\<lambda>_. k) c s; op = currMessageOpCode k;
              next = (\<lambda>s. let s = updCodec resetCurrMessage c s
                          in if length rest > 0 then traffic_loop env sv now c rest s else (ActNone, rest, s))
          in if IsData op then next (OnWebsocketMessage env now c m s)
             else if op = OpClose
             then (ActClose, rest, if fst (SetClosedFlagOnSafe (ccodec (heap s c)))
                                   then snd (WriteServerMessage env c OpClose m (setClosed c s)) else s)
             else if op = OpPing
             then let (ok, s) = WriteServerMessage env c OpPong m s
                  in if \<not> ok then (ActClose, rest, s) else next (OnWebsocketPing now c s)
             else if op = OpPong then next s
             else if IsReserved op then (ActClose, rest, refuse env c StatusUnsupportedData ''unsupported opcode'' s)
             else next s)"
  by pat_completeness auto
termination
  by (relation "measure (\<lambda>(_, _, _, _, buf, _). length buf)") (auto dest: decode_consumes [OF sym])

declare traffic_loop.simps [simp del]

definition OnTraffic :: "'l env \<Rightarrow> srv \<Rightarrow> circ \<Rightarrow> cref \<Rightarrow> bytes \<Rightarrow> 'l gw \<Rightarrow> action \<times> bytes \<times> 'l gw" where
  "OnTraffic env sv ev c buf s =
     (if \<not> isUpgraded (ccodec (heap s c))
      then case upgrade (httpEnv sv) (OnUpgradeCheck (HandlePattern sv) (AllowOrigin sv)) (evIo ev) (ccodec (heap s c)) of
             (req, _, act, k) \<Rightarrow>
               let s = updCodec (\<lambda>_. k) c s
               in case req of
                    None \<Rightarrow> (act, buf, s)
                  | Some q \<Rightarrow>
                      (case OnWebsocketOpen env ev c \<lparr>RawQuery = URLRawQuery q, XForwardedFor = Header_Get q ''X-Forwarded-For'',
                              XRealIp = Header_Get q ''X-Real-IP'', RemoteAddr = evRemote ev\<rparr> s of
                         (OpenOk, s) \<Rightarrow> (act, [], s)
                       | (OpenErr st e, s) \<Rightarrow> (ActClose, [], refuse env c st e s)
                       | (OpenPanic, s) \<Rightarrow> (ActPanic, [], s))
      else traffic_loop env sv (evNow ev) c buf s)"

section \<open>Timers and pool tasks\<close>

text \<open>The heartbeat check: \<^verbatim>\<open>uint32(time.Now().Unix())-lastActiveTime\<close> is a 32-bit difference.\<close>

definition heartbeat_tick :: "'l env \<Rightarrow> int \<Rightarrow> cref \<Rightarrow> 'l gw \<Rightarrow> 'l gw" where
  "heartbeat_tick env now c s =
     (let stop = (\<lambda>s. s\<lparr>timers := remove1 (HeartbeatEvery c) (timers s)\<rparr>)
      in if IsClosedOnSafe (ccodec (heap s c)) then stop s
         else if of_int now - lastActiveTime (inf s c) > HeartbeatIntervalSecond env
         then WriteClose env c StatusGoingAway ''heartbeat timeout'' (stop s)
         else s)"

definition run_timer :: "'l env \<Rightarrow> int \<Rightarrow> timerReq \<Rightarrow> 'l gw \<Rightarrow> 'l gw" where
  "run_timer env now t s = (case t of
      CloseIn2s c \<Rightarrow> CloseOnSafe c (s\<lparr>timers := remove1 t (timers s)\<rparr>)
    | HeartbeatEvery c \<Rightarrow> heartbeat_tick env now c s
    | GuestIn _ p \<Rightarrow> guests env p (s\<lparr>timers := remove1 t (timers s)\<rparr>))"

definition run_task :: "'l env \<Rightarrow> int \<Rightarrow> task \<Rightarrow> 'l gw \<Rightarrow> 'l gw" where
  "run_task env now t s = (case t of
      TOpen c req \<Rightarrow> open_begin env c req s
    | TAnswer c co r \<Rightarrow> open_answer env c co r s
    | TReg c co r \<Rightarrow> open_register env c co r s
    | TClose cl \<Rightarrow> close_event env cl s
    | TMsg c d allow \<Rightarrow> message_event env now c d allow s)"

end
