(* ===== verification/GatewaySteps.thy ===== *)
theory GatewaySteps
  imports CustomerEvents
begin

text \<open>
  The gateway as a transition system: every handler, pool task, timer and command of the business is a step.
  The invariant of \<open>Gateway\<close>, together with what is known of connections that are still opening, holds
  in every reachable state.
\<close>

section \<open>The steps of the gateway\<close>

datatype command =
    CmdConnInfoUpdate "ConnInfoUpdate option" | CmdConnInfoDelete "ConnInfoDelete option"
  | CmdTopicSubscribe "TopicSubscribe option" | CmdTopicUnsubscribe "TopicSubscribe option" | CmdTopicDelete "TopicDelete option"
  | CmdBroadcastBulk "bytes list option" | CmdSingleCastBulk "CastItem list option"
  | CmdSingleCastBulkByCustomerId "CastItem list option" | CmdTopicPublishBulk "CastItem list option"
  | CmdForceOffline "ForceOffline option" | CmdForceOfflineByCustomerId "ForceOffline option"
  | CmdForceOfflineGuest "ForceOfflineGuest option"

definition run_command :: "'l env \<Rightarrow> command \<Rightarrow> 'l gw \<Rightarrow> 'l gw" where
  "run_command env k s = (case k of
      CmdConnInfoUpdate p \<Rightarrow> connInfoUpdate env p s
    | CmdConnInfoDelete p \<Rightarrow> connInfoDelete env p s
    | CmdTopicSubscribe p \<Rightarrow> topicSubscribe env p s
    | CmdTopicUnsubscribe p \<Rightarrow> topicUnsubscribe env p s
    | CmdTopicDelete p \<Rightarrow> topicDelete env p s
    | CmdBroadcastBulk p \<Rightarrow> broadcastBulk env p s
    | CmdSingleCastBulk p \<Rightarrow> singleCastBulk env p s
    | CmdSingleCastBulkByCustomerId p \<Rightarrow> singleCastBulkByCustomerId env p s
    | CmdTopicPublishBulk p \<Rightarrow> topicPublishBulk env p s
    | CmdForceOffline p \<Rightarrow> forceOffline env p s
    | CmdForceOfflineByCustomerId p \<Rightarrow> forceOfflineByCustomerId env p s
    | CmdForceOfflineGuest p \<Rightarrow> forceOfflineGuest env p s)"

text \<open>The state after the packages' \<^verbatim>\<open>init\<close> functions; \<open>k\<close> fills the heap cells nobody has allocated.\<close>

definition gw_init :: "u32 \<Rightarrow> 'l limManager \<Rightarrow> workers \<Rightarrow> metricsRegistry \<Rightarrow> 'l gw" where
  "gw_init incr l w m =
     \<lparr>heap = (\<lambda>_. \<lparr>ccodec = newCodec, cinfo = \<lparr>iid = 0, limitWindowStart = 0, uniqId = '''', customerId = '''', session = '''',
        topics = None, limitWindowRequests = 0, lastActiveTime = 0\<rparr>\<rparr>),
      nextc = 0, incrId = incr, mgr = Manager_init, bnd = Binder_init, tpc = Topic_init, reg = m, lims = l, wk = w,
      writes = 0, outbox = [], closeReqs = [], timers = [], tasks = [], forwarded = []\<rparr>"

text \<open>
  One step: gnet accepts a connection (the counter of identifiers has \<open>2 ^ 32\<close> values), delivers bytes or
  reports the end of a connection; a pool task or a timer runs; a command of the business is executed.
  gnet reports the end of a connection once, which is why \<open>ended\<close> is part of the step's source.
\<close>

inductive gw_step :: "'l env \<Rightarrow> srv \<Rightarrow> 'l gw \<times> cref set \<Rightarrow> 'l gw \<times> cref set \<Rightarrow> bool" for env sv where
  accept: "nextc s < 2 ^ 32 \<Longrightarrow> gw_step env sv (s, ended) (server_OnOpen env now s, ended)"
| traffic: "c < nextc s \<Longrightarrow> c \<notin> ended \<Longrightarrow> gw_step env sv (s, ended) (snd (snd (OnTraffic env sv ev c buf s)), ended)"
| end_conn: "c < nextc s \<Longrightarrow> c \<notin> ended \<Longrightarrow> gw_step env sv (s, ended) (server_OnClose c s, insert c ended)"
| task: "tasks s = xs @ t # ys \<Longrightarrow> gw_step env sv (s, ended) (run_task env now t (s\<lparr>tasks := xs @ ys\<rparr>), ended)"
| timer: "t \<in> set (timers s) \<Longrightarrow> gw_step env sv (s, ended) (run_timer env now t s, ended)"
| command: "gw_step env sv (s, ended) (run_command env k s, ended)"
| limits: "gw_step env sv (s, ended) (s\<lparr>lims := l\<rparr>, ended)"

inductive gw_reach :: "'l env \<Rightarrow> srv \<Rightarrow> 'l gw \<times> cref set \<Rightarrow> bool" for env sv where
  start: "gw_reach env sv (gw_init incr l w m, {})"
| step: "gw_reach env sv p \<Longrightarrow> gw_step env sv p p' \<Longrightarrow> gw_reach env sv p'"

inductive_cases gw_stepE: "gw_step env sv (s, ended) p'"

section \<open>Connections that are opening\<close>

definition opening1 :: "task \<Rightarrow> cref list" where
  "opening1 t = (case t of TOpen c _ \<Rightarrow> [c] | TAnswer c _ _ \<Rightarrow> [c] | TReg c _ _ \<Rightarrow> [c] | _ \<Rightarrow> [])"

definition openings :: "'l gw \<Rightarrow> cref list" where
  "openings s = concat (map opening1 (tasks s))"

definition blank :: "'l gw \<Rightarrow> cref \<Rightarrow> bool" where
  "blank s c \<longleftrightarrow> \<not> online s c \<and> customerId (inf s c) = '''' \<and> getTopics (inf s c) = []"

text \<open>
  \<open>life_ok\<close>: at most one opening is pending per connection, of an upgraded connection that is in no registry and has
  no customer id and no topics yet; a connection that is not upgraded is blank too.
\<close>

definition life_ok :: "'l gw \<Rightarrow> bool" where
  "life_ok s \<longleftrightarrow> distinct (openings s) \<and>
     (\<forall>c \<in> set (openings s). c < nextc s \<and> isUpgraded (ccodec (heap s c)) \<and> blank s c) \<and>
     (\<forall>c. \<not> isUpgraded (ccodec (heap s c)) \<longrightarrow> blank s c)"

text \<open>\<open>calm a s\<close>: as \<open>quiet\<close>, but closures that open nothing may have been submitted.\<close>

definition calm :: "'l gw \<Rightarrow> 'l gw \<Rightarrow> bool" where
  "calm a s \<longleftrightarrow> core s = core a \<and> (\<forall>c. shut a c \<longrightarrow> shut s c) \<and> openings s = openings a \<and>
     (\<forall>c. isUpgraded (ccodec (heap s c)) = isUpgraded (ccodec (heap a c)))"

lemma calm_refl [simp, intro]: "calm a a"
  by (simp add: calm_def)

lemma calm_trans: "calm a b \<Longrightarrow> calm b s \<Longrightarrow> calm a s"
  by (simp add: calm_def)

lemma quiet_calm: "quiet a s \<Longrightarrow> calm a s"
  by (simp add: quiet_def calm_def openings_def isUpgraded_def)

lemma calm_quiet: "calm a s \<Longrightarrow> quiet s s' \<Longrightarrow> calm a s'"
  using calm_trans quiet_calm by blast

lemma blank_core: "core s = core a \<Longrightarrow> blank s c = blank a c"
  unfolding blank_def using online_core core_fields by metis

lemma life_ok_calm: "calm a s \<Longrightarrow> life_ok a \<Longrightarrow> life_ok s"
  unfolding life_ok_def calm_def using blank_core core_fields(5) by metis

lemma gw_ok_calm: "calm a s \<Longrightarrow> gw_ok t a \<Longrightarrow> gw_ok t s"
  unfolding calm_def using gw_ok_core by blast

lemma life_ok_keeps: "keeps a s \<Longrightarrow> life_ok a \<Longrightarrow> life_ok s"
proof -
  assume k: "keeps a s" and l: "life_ok a"
  have "blank s c" if "blank a c" for c
    using that keeps_online [OF k, of c] keepsD(9) [OF k, of c] by (auto simp: blank_def ident_def)
  then show ?thesis
    using l by (simp add: life_ok_def openings_def keepsD [OF k] isUpgraded_def)
qed

lemma openings_snoc [simp]: "openings (s\<lparr>tasks := tasks s' @ ts\<rparr>) = openings s' @ concat (map opening1 ts)"
  by (simp add: openings_def)

section \<open>Every step keeps the registries exact\<close>

definition inv :: "string \<Rightarrow> 'l gw \<Rightarrow> bool" where
  "inv t s \<longleftrightarrow> gw_ok t s \<and> life_ok s"

lemma inv_calm: "calm a s \<Longrightarrow> inv t a \<Longrightarrow> inv t s"
  by (simp add: inv_def gw_ok_calm life_ok_calm)

lemma inv_quiet: "quiet a s \<Longrightarrow> inv t a \<Longrightarrow> inv t s"
  using inv_calm quiet_calm by blast

lemma inv_good: "inv t a \<Longrightarrow> (gw_ok t a \<Longrightarrow> good t a s) \<Longrightarrow> inv t s"
  using life_ok_keeps by (auto simp: inv_def good_def)

text \<open>Commands.\<close>

lemma inv_command: "inv t s \<Longrightarrow> inv t (run_command env k s)"
  by (cases k) (auto simp: run_command_def intro: inv_good inv_quiet
      connInfoUpdate_good connInfoDelete_good topicSubscribe_good topicUnsubscribe_good topicDelete_good quiet_commands)

text \<open>Timers.\<close>

lemma quiet_timer: "quiet s (run_timer env now tm s)"
proof (cases tm)
  case (GuestIn d p)
  let ?s = "s\<lparr>timers := remove1 tm (timers s)\<rparr>"
  have "quiet s ?s" by (rule quiet_fields(3)) simp
  then show ?thesis using quiet_trans quiet_commands(7) [of ?s env p] GuestIn by (simp add: run_timer_def) blast
qed (auto simp: run_timer_def heartbeat_tick_def Let_def intro!: quiet_fields quiet_WriteClose)

lemma inv_timer: "inv t s \<Longrightarrow> inv t (run_timer env now tm s)"
  using inv_quiet quiet_timer by blast

text \<open>A connection is accepted.\<close>

lemma inv_accept:
  assumes "inv (idTemplate env) s" "nextc s < 2 ^ 32"
  shows "inv (idTemplate env) (server_OnOpen env now s)"
proof -
  let ?s = "server_OnOpen env now s" and ?n = "nextc s"
  let ?id = "NewId (idTemplate env) now (incrId s)"
  let ?k = "\<lparr>ccodec = newCodec, cinfo = newInfo (limitCfg env) (fst (fst ?id)) (snd (fst ?id)) now\<rparr>"
  have ok: "gw_ok (idTemplate env) s" and l: "life_ok s" using assms(1) by (auto simp: inv_def)
  have f: "heap ?s = (heap s)(?n := ?k)" "nextc ?s = ?n + 1" "incrId ?s = snd ?id" "mgr ?s = mgr s" "bnd ?s = bnd s" "tpc ?s = tpc s"
    "tasks ?s = tasks s"
    by (simp_all add: server_OnOpen_def case_prod_unfold Let_def)
  have k: "uniqId (cinfo ?k) = fst (fst ?id)" "iid (cinfo ?k) = snd (fst ?id)" "info_wf (cinfo ?k)"
    by (simp_all add: newInfo_def info_wf_def getTopics_def)
  have ok': "gw_ok (idTemplate env) ?s" and on: "online ?s d = online s d" for d
    using gw_ok_alloc [OF ok assms(2) k f(1-6)] by blast+
  have off: "\<not> online s ?n" using online_lt [OF ok, of ?n] by auto
  have bl: "blank ?s d \<longleftrightarrow> blank s d" if "d \<noteq> ?n" for d using that by (simp add: blank_def on f(1))
  have bn: "blank ?s ?n" using off by (simp add: blank_def on f(1) newInfo_def getTopics_def)
  have "life_ok ?s"
    unfolding life_ok_def openings_def f(2,7)
  proof (intro conjI ballI allI impI)
    show "distinct (concat (map opening1 (tasks s)))" using l by (simp add: life_ok_def openings_def)
    fix c assume "c \<in> set (concat (map opening1 (tasks s)))"
    then have c: "c < ?n" "isUpgraded (ccodec (heap s c))" "blank s c" using l by (auto simp: life_ok_def openings_def)
    then show "c < ?n + 1" "isUpgraded (ccodec (heap ?s c))" "blank ?s c" using bl [of c] by (auto simp: f(1))
  next
    fix c assume "\<not> isUpgraded (ccodec (heap ?s c))"
    then show "blank ?s c" using bl [of c] bn l by (cases "c = ?n") (auto simp: life_ok_def f(1))
  qed
  then show ?thesis using ok' by (simp add: inv_def)
qed

text \<open>A connection ends.\<close>

lemma online_anti: "\<lbrakk>\<And>d. online s' d \<Longrightarrow> online s d; \<And>d. inf s' d = inf s d; blank s c\<rbrakk> \<Longrightarrow> blank s' c"
  by (auto simp: blank_def)

lemma server_OnClose_state:
  assumes ok: "gw_ok t s" and c: "c < nextc s" and u: "isUpgraded (ccodec (heap s c))"
  shows "gw_ok t (server_OnClose c s)" "online (server_OnClose c s) d \<longleftrightarrow> online s d \<and> d \<noteq> c" "shut (server_OnClose c s) c"
    "inf (server_OnClose c s) d = inf s d" "isUpgraded (ccodec (heap (server_OnClose c s) d)) = isUpgraded (ccodec (heap s d))"
    "openings (server_OnClose c s) = openings s" "nextc (server_OnClose c s) = nextc s" "shut s d \<Longrightarrow> shut (server_OnClose c s) d"
proof -
  let ?a = "setClosed c s" and ?s = "server_OnClose c s"
  have qa: "quiet s ?a" by (rule quiet_setClosed) simp
  have oka: "gw_ok t ?a" using gw_ok_quiet [OF qa ok] .
  have a: "inf ?a e = inf s e" "nextc ?a = nextc s" "tasks ?a = tasks s" for e by (simp_all add: updCodec_def)
  have s': "heap ?s = heap ?a" "nextc ?s = nextc ?a" "incrId ?s = incrId ?a"
    "mgr ?s = Manager_Del (uniqId (inf ?a c)) (mgr ?a)"
    "bnd ?s = (if customerId (inf ?a c) \<noteq> '''' then Binder_DelRelation (customerId (inf ?a c)) (ids ?a c) (bnd ?a) else bnd ?a)"
    "tpc ?s = Topic_DelRelationBySlice (getTopics (inf ?a c)) (ids ?a c) (tpc ?a)" "openings ?s = openings ?a"
    using u by (simp_all add: server_OnClose_def OnWebsocketClose_def SnapshotOnSafe_def Let_def openings_def opening1_def)
  note cl = gw_ok_close [OF oka _ s'(1-6)]
  show "gw_ok t ?s" using cl(1) c a(2) by simp
  show "online ?s d \<longleftrightarrow> online s d \<and> d \<noteq> c"
    using cl(2) [of d] c a(2) online_core [of ?a s d] qa by (simp add: quiet_def)
  show "inf ?s d = inf s d" "openings ?s = openings s" "nextc ?s = nextc s" using a s' by (simp_all add: openings_def)
  show "isUpgraded (ccodec (heap ?s d)) = isUpgraded (ccodec (heap s d))"
    unfolding s'(1) using qa by (simp add: quiet_def isUpgraded_def)
  show "shut ?s c" unfolding shut_def s'(1) by (simp add: updCodec_def SetClosedFlagOnSafe_def)
  show "shut s d \<Longrightarrow> shut ?s d" unfolding shut_def s'(1) by (simp add: updCodec_def SetClosedFlagOnSafe_def)
qed

lemma inv_end:
  assumes "inv t s" "c < nextc s"
  shows "inv t (server_OnClose c s)"
proof (cases "isUpgraded (ccodec (heap s c))")
  case True
  have ok: "gw_ok t s" and l: "life_ok s" using assms(1) by (auto simp: inv_def)
  note st = server_OnClose_state [OF ok assms(2) True]
  have "blank (server_OnClose c s) d" if "blank s d" for d
    using online_anti [OF _ st(4) that] st(2) by blast
  then have "life_ok (server_OnClose c s)" using l unfolding life_ok_def st(5-7) by blast
  then show ?thesis using st(1) by (simp add: inv_def)
qed (use assms in \<open>simp add: server_OnClose_def\<close>)

text \<open>Bytes arrive: the decoding loop is calm.\<close>

lemma calm_codec:
  "calm a s \<Longrightarrow> closed k = closed (ccodec (heap s c)) \<Longrightarrow> isUpgraded k = isUpgraded (ccodec (heap s c)) \<Longrightarrow> calm a (updCodec (\<lambda>_. k) c s)"
  by (auto simp: calm_def core_def shut_def openings_def updCodec_def fun_eq_iff)

lemma calm_reset: "calm a s \<Longrightarrow> calm a (updCodec resetCurrMessage c s)"
  by (auto simp: calm_def core_def shut_def openings_def updCodec_def fun_eq_iff isUpgraded_def)

lemma calm_info:
  "calm a s \<Longrightarrow> ident (f (inf s c)) = ident (inf s c) \<Longrightarrow> calm a (updInfo f c s)"
  by (auto simp: calm_def core_def shut_def openings_def updInfo_def fun_eq_iff)

lemma calm_fields:
  "calm a s \<Longrightarrow> calm a (mark i n s)" "calm a s \<Longrightarrow> opening1 t = [] \<Longrightarrow> calm a (s\<lparr>tasks := tasks s @ [t]\<rparr>)"
  by (simp_all add: calm_def core_def shut_def openings_def mark_def)

lemma calm_OnWebsocketMessage: "calm a s \<Longrightarrow> calm a (OnWebsocketMessage env now c m s)"
proof -
  assume c: "calm a s"
  let ?s = "updInfo (UpdateLastActiveTimeOnSafe now) c s"
  let ?u = "updInfo (\<lambda>r. snd (Allow (limitCfg env) now r)) c ?s"
  have 1: "calm a ?s" by (rule calm_info [OF c]) (simp add: ident_def)
  have 2: "calm a ?u" by (rule calm_info [OF 1]) (simp add: ident_def)
  have "calm a (?u\<lparr>tasks := tasks ?u @ [TMsg c m x]\<rparr>)" for x by (rule calm_fields(2) [OF 2]) (simp add: opening1_def)
  then show ?thesis using calm_fields(1) [OF 1] by (simp add: OnWebsocketMessage_def Let_def)
qed

lemma calm_OnWebsocketPing: "calm a s \<Longrightarrow> calm a (OnWebsocketPing now c s)"
  unfolding OnWebsocketPing_def by (intro calm_fields calm_info) (simp_all add: ident_def)

lemma calm_server_writes:
  "calm a s \<Longrightarrow> calm a (snd (WriteServerMessage env c op m s))" "calm a s \<Longrightarrow> calm a (setClosed c s)"
  "calm a s \<Longrightarrow> calm a (refuse env c st e s)"
  unfolding WriteServerMessage_def refuse_def
  by (blast intro: calm_quiet quiet_AsyncWrite quiet_setClosed quiet_refl)+

lemma calm_traffic: "calm a s \<Longrightarrow> calm a (snd (snd (traffic_loop env sv now c buf s)))"
proof (induction env sv now c buf s rule: traffic_loop.induct)
  case (1 env sv now c buf s)
  obtain res k rest where d: "decode (inflate sv) (ccodec (heap s c)) buf = (res, k, rest)" using prod_cases3 by blast
  have k: "calm a (updCodec (\<lambda>_. k) c s)"
    using calm_codec [OF "1.prems"] decode_flags [OF d] by (simp add: isUpgraded_def)
  show ?case
  proof (cases res)
    case (DMsg m)
    let ?s = "updCodec (\<lambda>_. k) c s" and ?op = "currMessageOpCode k"
    let ?next = "\<lambda>s. let s = updCodec resetCurrMessage c s
                     in if length rest > 0 then traffic_loop env sv now c rest s else (ActNone, rest, s)"
    have nxt: "calm a (snd (snd (?next x)))" if "calm a x" for x
      using "1.IH" [OF d [symmetric] DMsg refl refl refl refl] calm_reset [OF that] by (simp add: Let_def)
    show ?thesis
      unfolding traffic_loop.simps [of env sv now c buf s] d prod.case DMsg decode_res.case
      using nxt [OF calm_OnWebsocketMessage [OF k]] nxt [OF k] nxt [OF calm_OnWebsocketPing [OF calm_server_writes(1) [OF k]]]
        calm_server_writes [OF k] calm_server_writes(1) [OF calm_server_writes(2) [OF k]] k
      by (simp add: Let_def case_prod_unfold)
  qed (use d k calm_server_writes(3) [OF k] in \<open>simp_all add: traffic_loop.simps [of env sv now c buf s]\<close>)
qed

text \<open>A handshake succeeds.\<close>

lemma life_ok_upgrade:
  assumes "life_ok s" "\<not> isUpgraded (ccodec (heap s c))"
  shows "life_ok (updCodec (\<lambda>_. k) c s)" "blank (updCodec (\<lambda>_. k) c s) c" "c \<notin> set (openings (updCodec (\<lambda>_. k) c s))"
proof -
  let ?s = "updCodec (\<lambda>_. k) c s"
  have core: "core ?s = core s" by (simp add: core_def updCodec_def fun_eq_iff)
  have op: "openings ?s = openings s" by (simp add: openings_def updCodec_def)
  have b: "blank s c" and c: "c \<notin> set (openings s)" using assms by (auto simp: life_ok_def)
  show "blank ?s c" "c \<notin> set (openings ?s)" using b c by (simp_all add: blank_core [OF core] op)
  show "life_ok ?s"
    unfolding life_ok_def op blank_core [OF core] core_fields(5) [OF core]
  proof (intro conjI ballI allI impI)
    show "distinct (openings s)" using assms(1) by (simp add: life_ok_def)
    fix d assume "d \<in> set (openings s)"
    then show "d < nextc s" "blank s d" "isUpgraded (ccodec (heap ?s d))" using assms(1) c by (auto simp: life_ok_def updCodec_def)
  next
    fix d assume "\<not> isUpgraded (ccodec (heap ?s d))"
    then show "blank s d" using assms(1) b by (cases "d = c") (auto simp: life_ok_def updCodec_def)
  qed
qed

lemma core_tasks [simp]: "core (s\<lparr>tasks := ts\<rparr>) = core s" "core (updCodec f c s) = core s"
  by (simp_all add: core_def updCodec_def fun_eq_iff)

lemma inv_add_opening:
  assumes "inv t s" "opening1 tk = [c]" "c < nextc s" "isUpgraded (ccodec (heap s c))" "blank s c" "c \<notin> set (openings s)"
  shows "inv t (s\<lparr>tasks := tasks s @ [tk]\<rparr>)"
proof -
  let ?s = "s\<lparr>tasks := tasks s @ [tk]\<rparr>"
  have "openings ?s = openings s @ [c]" using assms(2) by simp
  moreover have "blank ?s d = blank s d" for d by (rule blank_core) simp
  ultimately have "life_ok ?s" using assms unfolding inv_def life_ok_def by auto
  then show ?thesis using assms(1) gw_ok_core [of ?s s] by (simp add: inv_def)
qed

lemma inv_traffic:
  assumes "inv t s" "c < nextc s"
  shows "inv t (snd (snd (OnTraffic env sv ev c buf s)))"
proof (cases "isUpgraded (ccodec (heap s c))")
  case True
  then show ?thesis using inv_calm [OF calm_traffic [OF calm_refl] assms(1)] by (simp add: OnTraffic_def)
next
  case False
  let ?chk = "OnUpgradeCheck (HandlePattern sv) (AllowOrigin sv)"
  obtain req resp act k where u: "upgrade (httpEnv sv) ?chk (evIo ev) (ccodec (heap s c)) = (req, resp, act, k)"
    using prod_cases4 by blast
  let ?s = "updCodec (\<lambda>_. k) c s"
  have l: "life_ok ?s" "blank ?s c" "c \<notin> set (openings ?s)"
    using life_ok_upgrade [OF _ False, of k] assms(1) by (auto simp: inv_def)
  have i: "inv t ?s" using l(1) assms(1) gw_ok_core [of ?s s] by (simp add: inv_def)
  show ?thesis
  proof (cases req)
    case None
    then show ?thesis using i u False by (simp add: OnTraffic_def Let_def)
  next
    case (Some q)
    have up: "isUpgraded (ccodec (heap ?s c))" using upgrade_Some(6) [OF u [unfolded Some]] by (simp add: updCodec_def)
    have n: "c < nextc ?s" using assms(2) by (simp add: updCodec_def)
    let ?q = "\<lparr>RawQuery = URLRawQuery q, XForwardedFor = Header_Get q ''X-Forwarded-For'',
                              XRealIp = Header_Get q ''X-Real-IP'', RemoteAddr = evRemote ev\<rparr>"
    have q1: "inv t (x\<lparr>lims := y\<rparr>)" if "inv t x" for x :: "'a gw" and y
      using inv_quiet [OF quiet_fields(7) [OF quiet_refl] that] .
    have q2: "inv t (mark it m x)" if "inv t x" for x :: "'a gw" and it m
      using inv_quiet [OF quiet_fields(1) [OF quiet_refl] that] .
    have q3: "inv t (refuse env c st e x)" if "inv t x" for x st e
      using inv_calm [OF calm_server_writes(3) [OF calm_refl] that] .
    have "inv t ((?s\<lparr>lims := y\<rparr>)\<lparr>tasks := tasks (?s\<lparr>lims := y\<rparr>) @ [TOpen c ?q]\<rparr>)" for y
    proof (rule inv_add_opening [OF q1 [OF i]])
      have core: "core (?s\<lparr>lims := y\<rparr>) = core ?s" by (simp add: core_def)
      show "blank (?s\<lparr>lims := y\<rparr>) c" using l(2) blank_core [OF core] by blast
      show "c \<notin> set (openings (?s\<lparr>lims := y\<rparr>))" using l(3) by (simp add: openings_def)
    qed (use n up in \<open>simp_all add: opening1_def\<close>)
    then have o: "case OnWebsocketOpen env ev c ?q ?s of (r, x) \<Rightarrow> inv t x"
      using i q1 [OF i] q2 [OF q1 [OF i]]
      by (simp add: OnWebsocketOpen_def Let_def split: option.splits prod.splits)
    obtain r x where rx: "OnWebsocketOpen env ev c ?q ?s = (r, x)" by fastforce
    then have "inv t x" using o by simp
    then show ?thesis using u Some False rx q3 by (cases r) (simp_all add: OnTraffic_def Let_def)
  qed
qed

text \<open>A pool task runs.\<close>

lemma inv_remove_task:
  assumes "inv t s" "tasks s = xs @ tk # ys"
  shows "inv t (s\<lparr>tasks := xs @ ys\<rparr>)"
    "c \<in> set (opening1 tk) \<Longrightarrow> c < nextc s \<and> isUpgraded (ccodec (heap s c)) \<and> blank s c \<and> c \<notin> set (openings (s\<lparr>tasks := xs @ ys\<rparr>))"
proof -
  let ?s = "s\<lparr>tasks := xs @ ys\<rparr>"
  have bl: "blank ?s d = blank s d" for d by (rule blank_core) simp
  have op: "openings s = concat (map opening1 xs) @ opening1 tk @ concat (map opening1 ys)"
    "openings ?s = concat (map opening1 xs) @ concat (map opening1 ys)" using assms(2) by (simp_all add: openings_def)
  have l: "life_ok s" using assms(1) by (simp add: inv_def)
  then have "life_ok ?s" unfolding life_ok_def bl using op by auto
  then show "inv t ?s" using assms(1) gw_ok_core [of ?s s] by (simp add: inv_def)
  show "c \<in> set (opening1 tk) \<Longrightarrow> c < nextc s \<and> isUpgraded (ccodec (heap s c)) \<and> blank s c \<and> c \<notin> set (openings ?s)"
    using l op unfolding life_ok_def by auto
qed

lemma inv_open_begin:
  assumes i: "inv t s" and c: "c < nextc s" "isUpgraded (ccodec (heap s c))" "blank s c" "c \<notin> set (openings s)"
  shows "inv t (open_begin env c req s)"
proof -
  have add: "inv t (x\<lparr>tasks := tasks x @ [tk]\<rparr>)" if x: "quiet s x" and o: "opening1 tk = [c]" for x tk
  proof (rule inv_add_opening [OF inv_quiet [OF x i] o])
    have core: "core x = core s" using x by (simp add: quiet_def)
    show "c < nextc x" "blank x c" using c core_fields(5) [OF core] blank_core [OF core] by simp_all
    show "isUpgraded (ccodec (heap x c))" "c \<notin> set (openings x)"
      using x c by (simp_all add: quiet_def isUpgraded_def openings_def)
  qed
  show ?thesis
    using i add [OF quiet_refl] add [OF quiet_callbacks(1) [OF quiet_refl]]
    by (simp add: open_begin_def Let_def case_prod_unfold opening1_def)
qed

lemma inv_open_answer:
  assumes i: "inv t s" and c: "c < nextc s" "isUpgraded (ccodec (heap s c))" "blank s c" "c \<notin> set (openings s)"
  shows "inv t (open_answer env c co r s)"
proof (cases r)
  case (Inl e)
  then show ?thesis using i inv_quiet [OF quiet_WriteClose [OF quiet_refl] i] by (simp add: open_answer_def)
next
  case (Inr resp)
  have "inv t (s\<lparr>tasks := tasks s @ [TReg c co (Some resp)]\<rparr>)" by (rule inv_add_opening [OF i _ c]) (simp add: opening1_def)
  moreover have "inv t (WriteClose env c x y s)" "inv t (WriteClose env c x y (snd (WriteMessage env c op d s)))" for x y op d
    using inv_quiet [OF quiet_WriteClose [OF quiet_refl] i] inv_quiet [OF quiet_WriteClose [OF quiet_WriteMessage [OF quiet_refl]] i] .
  ultimately show ?thesis using i Inr by (simp add: open_answer_def Let_def)
qed

text \<open>What the answer of the callback gives the connection.\<close>

definition respTopicsOf :: "ConnOpenResp option \<Rightarrow> string list" where
  "respTopicsOf r = (case r of None \<Rightarrow> [] | Some resp \<Rightarrow> orNewTopics resp)"

definition respCustomer :: "ConnOpenResp option \<Rightarrow> string" where
  "respCustomer r = (case r of None \<Rightarrow> '''' | Some resp \<Rightarrow> orNewCustomerId resp)"

lemma openInfo_frame [simp]: "iid (openInfo r i) = iid i" "uniqId (openInfo r i) = uniqId i"
  by (auto simp: openInfo_def Let_def split: option.splits)

lemma Topic_SetRelation_Nil [simp]: "Topic_SetRelation [] conn r = r"
  by (simp add: Topic_SetRelation_def)

lemma open_register_quiet: "quiet (entered c r s) (open_register env c co r s)"
  unfolding open_register_def Let_def by (cases r) (auto intro!: registry_frame)

lemma entered_state:
  "heap (entered c r s) = heap (updInfo (openInfo r) c s)" "nextc (entered c r s) = nextc s" "incrId (entered c r s) = incrId s"
  "mgr (entered c r s) = Manager_Set (uniqId (inf s c)) c (mgr s)" "tasks (entered c r s) = tasks s"
  "bnd (entered c r s) = (if respCustomer r \<noteq> '''' then Binder_SetRelation (respCustomer r) (ids s c) c (bnd s) else bnd s)"
  "tpc (entered c r s) = Topic_SetRelation (respTopicsOf r) (Some (ids s c, c)) (tpc s)"
  by (simp_all add: entered_def Let_def mark_def updInfo_def respCustomer_def respTopicsOf_def split: option.split)

lemma inv_open_register:
  assumes i: "inv t s" and c: "c < nextc s" "isUpgraded (ccodec (heap s c))" "blank s c" "c \<notin> set (openings s)"
  shows "inv t (open_register env c co r s)" "online (open_register env c co r s) c"
proof -
  let ?e = "entered c r s"
  have ok: "gw_ok t s" and l: "life_ok s" using i by (auto simp: inv_def)
  have off: "\<not> online s c" and cid: "customerId (inf s c) = ''''" and ts: "getTopics (inf s c) = []" using c(3) by (auto simp: blank_def)
  have f: "info_wf (openInfo r (inf s c))" "topicSet (openInfo r (inf s c)) = {k \<in> set (respTopicsOf r). k \<noteq> ''''}"
    "customerId (openInfo r (inf s c)) = respCustomer r"
    using gw_okD(5) [OF ok, of c] ts cid
    by (auto simp: openInfo_def Let_def respTopicsOf_def respCustomer_def info_wf_simple info_wf_Subscribe split: option.splits)
  note e = entered_state [of c r s]
  note g = gw_ok_open [OF ok c(1) off openInfo_frame f(1,2) e(1-4) e(6) [folded f(3)] e(7)]
  have other: "blank ?e d" if "blank s d" "d \<noteq> c" for d
    using that g(2) [of d] by (simp add: blank_def e(1) updInfo_def)
  have up: "isUpgraded (ccodec (heap ?e d)) = isUpgraded (ccodec (heap s d))" for d by (simp add: e(1) updInfo_def)
  have "life_ok ?e"
    unfolding life_ok_def openings_def e(2,5) up
  proof (intro conjI ballI allI impI)
    show "distinct (concat (map opening1 (tasks s)))" using l by (simp add: life_ok_def openings_def)
    fix d assume "d \<in> set (concat (map opening1 (tasks s)))"
    then have d: "d \<in> set (openings s)" by (simp add: openings_def)
    then show "d < nextc s" "isUpgraded (ccodec (heap s d))" using l by (auto simp: life_ok_def)
    have "d \<noteq> c" using c(4) d by blast
    then show "blank ?e d" using other l d by (auto simp: life_ok_def)
  next
    fix d assume "\<not> isUpgraded (ccodec (heap s d))"
    then show "blank ?e d" using other l c(2) by (metis life_ok_def)
  qed
  then have "inv t ?e" using g(1) by (simp add: inv_def)
  then show "inv t (open_register env c co r s)" using inv_quiet [OF open_register_quiet] by blast
  show "online (open_register env c co r s) c"
    using g(2) [of c] online_core [of "open_register env c co r s" ?e c] open_register_quiet [of c r s env co]
    by (simp add: quiet_def)
qed

lemma quiet_events: "quiet s (close_event env cl s)" "quiet s (message_event env now c d allow s)"
  unfolding close_event_def message_event_def Let_def SnapshotOnSafe_def
  by (auto intro!: registry_frame split: option.split prod.split)

lemma inv_task:
  assumes "inv t s" "tasks s = xs @ tk # ys"
  shows "inv t (run_task env now tk (s\<lparr>tasks := xs @ ys\<rparr>))"
proof -
  let ?s = "s\<lparr>tasks := xs @ ys\<rparr>"
  note i = inv_remove_task(1) [OF assms]
  have o: "c < nextc ?s" "isUpgraded (ccodec (heap ?s c))" "blank ?s c" "c \<notin> set (openings ?s)" if "c \<in> set (opening1 tk)" for c
    using inv_remove_task(2) [OF assms that] blank_core [of ?s s c] by simp_all
  show ?thesis
  proof (cases tk)
    case (TOpen c q)
    then show ?thesis using inv_open_begin [OF i o [of c]] by (simp add: run_task_def opening1_def)
  next
    case (TAnswer c co r)
    then show ?thesis using inv_open_answer [OF i o [of c]] by (simp add: run_task_def opening1_def)
  next
    case (TReg c co r)
    then show ?thesis using inv_open_register(1) [OF i o [of c]] by (simp add: run_task_def opening1_def)
  qed (use inv_quiet [OF quiet_events(1) i] inv_quiet [OF quiet_events(2) i] in \<open>simp_all add: run_task_def\<close>)
qed

lemma inv_step: "gw_step env sv p p' \<Longrightarrow> inv (idTemplate env) (fst p) \<Longrightarrow> inv (idTemplate env) (fst p')"
  by (induction rule: gw_step.induct)
    (auto intro: inv_accept inv_traffic inv_end inv_task inv_timer inv_command inv_quiet quiet_fields)

lemma inv_init: "inv t (gw_init incr l w m)"
proof -
  let ?s = "gw_init incr l w m"
  have on: "\<not> online ?s c" for c by (simp add: online_def gw_init_def Manager_Get_def Manager_init_def)
  have "exact (idx_get hashTopic (tpc ?s)) (ids ?s) (\<lambda>c t. online ?s c \<and> t \<in> topicSet (inf ?s c))"
    "exact (idx_get hashCustomerId (bnd ?s)) (ids ?s) (\<lambda>c x. online ?s c \<and> x = customerId (inf ?s c) \<and> x \<noteq> '''')"
    using on by (simp_all add: exact_def idx_get_def gw_init_def Topic_init_def Binder_init_def)
  moreover have "gen_ok t ?s" unfolding gen_ok_def by (simp add: gw_init_def)
  moreover have "manager_wf (mgr ?s)" by (simp add: gw_init_def manager_wf_init)
  moreover have "topic_wf (tpc ?s)" "binder_wf (bnd ?s)" "info_wf (inf ?s c)" "Manager_Get u (mgr ?s) = None" for u c
    by (simp_all add: gw_init_def topic_wf_def binder_wf_def idx_wf_def Topic_init_def Binder_init_def
        info_wf_def getTopics_def Manager_Get_def Manager_init_def)
  ultimately have "gw_ok t ?s" unfolding gw_ok_def by simp
  moreover have "life_ok ?s" using on by (simp add: life_ok_def openings_def blank_def gw_init_def getTopics_def)
  ultimately show ?thesis by (simp add: inv_def)
qed

lemma reach_inv: "gw_reach env sv p \<Longrightarrow> inv (idTemplate env) (fst p)"
  by (induction rule: gw_reach.induct) (auto simp: inv_init intro: inv_step)

end
