(* ===== verification/GatewayProps.thy ===== *)
theory GatewayProps
  imports GatewaySteps
begin

text \<open>
  The properties of the gateway as a whole that rest on the registries being exact: who receives what, who is
  closed, who enters and leaves. A concrete gateway with two registered connections serves as the witness.
\<close>


section \<open>A concrete gateway\<close>

definition sample_env :: "unit env" where
  "sample_env = \<lparr>limitCfg = \<lparr>LimitWindowSizeSeconds = 1, LimitWindowMaxRequests = 10, LimitZeroWindowMaxRequests = 5\<rparr>,
     rateOps = \<lparr>NewLimiter = (\<lambda>_ _. ()), Limiter_Allow = (\<lambda>_ l. (True, l)), Limiter_Limit = (\<lambda>_. 0), Limiter_SetLimit = (\<lambda>_ l. l)\<rparr>,
     idTemplate = ''7f00000117710ff3'', asyncOk = (\<lambda>_. True), deflate = Some, compressingValue = 100, SendMessageType = OpText,
     HeartbeatMessage = [112], ReceivePackLimit = 1000, MaxOnlineNum = 10, HeartbeatIntervalSecond = 55,
     workerOn = False, amqpOn = (\<lambda>_. False), redisOn = (\<lambda>_. False), onOpenApi = True, onCloseApi = False, onMessageApi = False,
     httpPost = (\<lambda>_. HttpErr ''e''), uConnOpenResp = (\<lambda>_. None), wenv = sample_wenv\<rparr>"

definition sample_resp :: "string \<Rightarrow> string list \<Rightarrow> ConnOpenResp option" where
  "sample_resp x ts = Some \<lparr>orAllow = True, orNewSession = '''', orNewCustomerId = x, orNewTopics = ts, orData = []\<rparr>"

definition sample_co :: ConnOpen where
  "sample_co = \<lparr>coUniqId = ''u'', coRawQuery = '''', coXForwardedFor = '''', coXRealIp = '''', coRemoteAddr = ''127.0.0.1''\<rparr>"

text \<open>Two upgraded connections that are not registered yet, and the gateway once they are.\<close>

definition sample_start :: "unit gw" where
  "sample_start = updCodec (\<lambda>_. setUpgraded True newCodec) 1 (updCodec (\<lambda>_. setUpgraded True newCodec) 0
     (server_OnOpen sample_env 6 (server_OnOpen sample_env 5 (gw_init 7 (\<lambda>_. nilLimit) sample_workers (Metrics_init None)))))"

definition sample_gw :: "unit gw" where
  "sample_gw = open_register sample_env 1 sample_co (sample_resp '''' [''a''])
     (open_register sample_env 0 sample_co (sample_resp ''u'' [''a'', ''b'']) sample_start)"

lemma sample_start_nextc: "nextc sample_start = 2" "tasks sample_start = []"
  by (simp_all add: sample_start_def updCodec_def server_OnOpen_def gw_init_def case_prod_unfold Let_def)

lemma sample_start_up: "c < 2 \<Longrightarrow> ccodec (heap sample_start c) = setUpgraded True newCodec"
  by (auto simp: sample_start_def updCodec_def less_2_cases_iff)

lemma inv_upgrade: "inv t s \<Longrightarrow> \<not> isUpgraded (ccodec (heap s c)) \<Longrightarrow> inv t (updCodec (\<lambda>_. k) c s)"
  using life_ok_upgrade(1) [of s c k] gw_ok_core [of "updCodec (\<lambda>_. k) c s" s t] by (simp add: inv_def)

lemma sample_start_inv: "inv (idTemplate sample_env) sample_start"
proof -
  let ?i = "gw_init 7 (\<lambda>_. nilLimit) sample_workers (Metrics_init None)"
  let ?a = "server_OnOpen sample_env 5 ?i" and ?t = "idTemplate sample_env"
  let ?b = "server_OnOpen sample_env 6 ?a"
  have 1: "inv ?t ?a" by (rule inv_accept [OF inv_init]) (simp add: gw_init_def)
  have 2: "inv ?t ?b" by (rule inv_accept [OF 1]) (simp add: server_OnOpen_def gw_init_def case_prod_unfold Let_def)
  have 3: "inv ?t (updCodec (\<lambda>_. setUpgraded True newCodec) 0 ?b)"
    by (rule inv_upgrade [OF 2]) (simp add: server_OnOpen_def gw_init_def case_prod_unfold Let_def newCodec_flags)
  show ?thesis unfolding sample_start_def
    by (rule inv_upgrade [OF 3]) (simp add: server_OnOpen_def gw_init_def case_prod_unfold Let_def newCodec_flags updCodec_def)
qed

lemma sample_register:
  "heap (open_register sample_env c sample_co (sample_resp x ts) s) = heap (updInfo (openInfo (sample_resp x ts)) c s)"
  "tasks (open_register sample_env c sample_co (sample_resp x ts) s) = tasks s"
  "nextc (open_register sample_env c sample_co (sample_resp x ts) s) = nextc s"
  "timers (open_register sample_env c sample_co (sample_resp x ts) s) = timers s @ [HeartbeatEvery c]"
  "outbox (open_register sample_env c sample_co (sample_resp x ts) s) = outbox s"
  by (simp_all add: open_register_def forward_def sample_env_def sample_resp_def WManager_Get_def Let_def entered_def updInfo_def mark_def)

lemma sample_info:
  "inf sample_gw 0 = openInfo (sample_resp ''u'' [''a'', ''b'']) (inf sample_start 0)"
  "inf sample_gw 1 = openInfo (sample_resp '''' [''a'']) (inf sample_start 1)"
  "ccodec (heap sample_gw c) = ccodec (heap sample_start c)" "nextc sample_gw = 2" "tasks sample_gw = []" "outbox sample_gw = []"
  by (simp_all add: sample_gw_def sample_register updInfo_def sample_start_nextc)
    (simp add: sample_start_def updCodec_def server_OnOpen_def gw_init_def case_prod_unfold Let_def)

lemma sample_start_blank: "c < 2 \<Longrightarrow> blank sample_start c"
proof -
  assume "c < 2"
  let ?i = "server_OnOpen sample_env 6 (server_OnOpen sample_env 5 (gw_init 7 (\<lambda>_. nilLimit) sample_workers (Metrics_init None)))"
  have "inv (idTemplate sample_env) ?i"
    by (intro inv_accept inv_init) (simp_all add: gw_init_def server_OnOpen_def case_prod_unfold Let_def)
  moreover have "\<not> isUpgraded (ccodec (heap ?i c))"
    by (simp add: gw_init_def server_OnOpen_def case_prod_unfold Let_def newCodec_flags)
  ultimately have "blank ?i c" by (simp add: inv_def life_ok_def)
  then show ?thesis unfolding sample_start_def using blank_core core_tasks(2) by metis
qed

lemma open_register_core: "core (open_register env c co r s) = core (entered c r s)"
  using open_register_quiet [of c r s env co] by (simp add: quiet_def)

lemma sample_gw_ok: "inv (idTemplate sample_env) sample_gw" "online sample_gw 0" "online sample_gw 1"
proof -
  let ?a = "open_register sample_env 0 sample_co (sample_resp ''u'' [''a'', ''b'']) sample_start" and ?t = "idTemplate sample_env"
  have up: "isUpgraded (ccodec (heap sample_start c))" if "c < 2" for c using sample_start_up [OF that] by simp
  have e: "openings sample_start = []" "openings ?a = []" by (simp_all add: openings_def sample_start_nextc sample_register)
  have a: "inv ?t ?a" "online ?a 0"
    using inv_open_register [OF sample_start_inv, of 0] up [of 0] sample_start_blank [of 0] e by (auto simp: sample_start_nextc)
  have b1: "blank ?a 1"
  proof -
    have "online ?a 1 \<Longrightarrow> False"
    proof -
      assume "online ?a 1"
      have g: "gw_ok ?t sample_start" using sample_start_inv by (simp add: inv_def)
      let ?r = "sample_resp ''u'' [''a'', ''b'']"
      have "online (entered 0 ?r sample_start) 1" using \<open>online ?a 1\<close> online_core [OF open_register_core] by blast
      then have "Manager_Get (uniqId (inf sample_start 1)) (Manager_Set (uniqId (inf sample_start 0)) 0 (mgr sample_start)) = Some 1"
        by (simp add: online_def entered_state updInfo_def)
      moreover have "Manager_Get (uniqId (inf sample_start 1)) (mgr sample_start) \<noteq> Some 1"
        using sample_start_blank [of 1] by (simp add: blank_def online_def)
      ultimately show False using Manager_Get_Set [OF gw_okD(1) [OF g]] by (auto split: if_splits)
    qed
    then show ?thesis using sample_start_blank [of 1] by (auto simp: blank_def sample_register updInfo_def)
  qed
  have b: "inv ?t sample_gw" "online sample_gw 1"
    unfolding sample_gw_def
    using inv_open_register [OF a(1), of 1] up [of 1] b1 e by (auto simp: sample_start_nextc sample_register updInfo_def)
  show "inv ?t sample_gw" "online sample_gw 1" using b by blast+
  have g: "gw_ok ?t ?a" using a(1) by (simp add: inv_def)
  have "core sample_gw = core (entered 1 (sample_resp '''' [''a'']) ?a)"
    unfolding sample_gw_def by (rule open_register_core)
  moreover have "online (entered 1 (sample_resp '''' [''a'']) ?a) 0"
    using a(2) Manager_Get_Set [OF gw_okD(1) [OF g]] gen_distinct(2) [OF gw_okD(4) [OF g], of 0 1]
    by (simp add: online_def entered_state updInfo_def sample_register(3) sample_start_nextc)
  ultimately show "online sample_gw 0" using online_core by blast
qed

lemma sample_topics:
  "topicSet (inf sample_gw 0) = {''a'', ''b''}" "topicSet (inf sample_gw 1) = {''a''}" "customerId (inf sample_gw 0) = ''u''"
  "customerId (inf sample_gw 1) = ''''" "c < 2 \<Longrightarrow> \<not> shut sample_gw c" "c < 2 \<Longrightarrow> \<not> IsCompressOnSafe (ccodec (heap sample_gw c))"
proof -
  have b: "customerId (inf sample_start c) = ''''" "getTopics (inf sample_start c) = []" if "c < 2" for c
    using sample_start_blank [OF that] by (simp_all add: blank_def)
  show "topicSet (inf sample_gw 0) = {''a'', ''b''}" "topicSet (inf sample_gw 1) = {''a''}" "customerId (inf sample_gw 0) = ''u''"
    "customerId (inf sample_gw 1) = ''''"
    unfolding sample_info(1,2) using b [of 0] b [of 1] by (auto simp: openInfo_def sample_resp_def)
  show "\<not> shut sample_gw c" "\<not> IsCompressOnSafe (ccodec (heap sample_gw c))" if "c < 2"
    using sample_start_up [OF that] by (simp_all add: shut_def sample_info(3) newCodec_flags newCodec_def [THEN arg_cong [of _ _ closed]])
qed

section \<open>Who receives what\<close>

text \<open>
  C27. Writing one frame to many connections with the encoding cached in the frame sends each of them exactly what
  encoding the message afresh for it would send, whatever writes and compressions fail.
\<close>

theorem frame_cache_transparent:
  "snd (WriteToAll env cs (newFrame op d) s) = fold (\<lambda>c s. snd (WriteMessage env c op d s)) cs s"
proof -
  have "casts env op (map (Pair d) cs) s = fold (\<lambda>c s. snd (WriteMessage env c op d s)) cs s"
    by (induction cs arbitrary: s) auto
  then show ?thesis using WriteToAll_casts [OF cache_ok_new, of env op d cs s] by simp
qed

text \<open>
  C16. Publishing: when writes succeed, every connection that is in the manager and not closed receives each non-empty
  message of each item, in order, once for every published topic it is subscribed to; nobody else receives anything.
\<close>

theorem topicPublishBulk_delivers:
  assumes "gw_ok t s" "sends env"
  shows "received (topicPublishBulk env (Some items) s) c = received s c @
     (if shut s c then [] else concat (map (\<lambda>it. concat (map (\<lambda>d.
        replicate (length (filter (\<lambda>tp. online s c \<and> tp \<in> topicSet (inf s c)) (ciTargets it))) (frameFor env s c d))
        (filter (\<lambda>d. d \<noteq> []) (ciData it)))) items))"
  unfolding publish_casts received_casts [OF assms(2)] castList_to topic_members [OF assms(1)] sum_members
  by simp

lemma sample_sends: "sends sample_env"
  by (simp add: sends_def sample_env_def)

lemma sample_gwok: "gw_ok (idTemplate sample_env) sample_gw"
  using sample_gw_ok(1) by (simp add: inv_def)

lemma sample_frame: "c < 2 \<Longrightarrow> the (encoded sample_env (heap sample_gw c) (SendMessageType sample_env) d) = serverFrame 0 OpText d"
  using sample_topics(6) by (simp add: encoded_def sample_env_def)

lemma sample_received: "received sample_gw c = []"
  by (simp add: received_def sample_info(6))

theorem topicPublishBulk_delivers_witness:
  "received (topicPublishBulk sample_env (Some [\<lparr>ciTargets = [''a'', ''b''], ciData = [[1], [], [2]]\<rparr>]) sample_gw) 0
     = [serverFrame 0 OpText [1], serverFrame 0 OpText [1], serverFrame 0 OpText [2], serverFrame 0 OpText [2]]"
  using topicPublishBulk_delivers [OF sample_gwok sample_sends, of "[\<lparr>ciTargets = [''a'', ''b''], ciData = [[1], [], [2]]\<rparr>]" 0]
    sample_gw_ok(2) sample_topics(5) [of 0]
  by (simp add: sample_topics sample_frame sample_received numeral_2_eq_2)

text \<open>
  C17. Broadcasting: when writes succeed, every connection that is in the manager and not closed receives each non-empty
  message exactly once, in order; nobody else receives anything.
\<close>

theorem broadcastBulk_delivers:
  assumes "gw_ok t s" "nextc s < 2 ^ 32" "sends env"
  shows "received (broadcastBulk env (Some datas) s) c = received s c @
     (if shut s c \<or> \<not> online s c then [] else map (frameFor env s c) (filter (\<lambda>d. d \<noteq> []) datas))"
proof -
  have "concat (map (\<lambda>d. if b then [f d] else []) ds) = (if b then map f ds else [])" for b and f :: "bytes \<Rightarrow> bytes" and ds
    by (induction ds) auto
  then show ?thesis
    unfolding broadcast_casts received_casts [OF assms(3)] map_concat_filter_pairs manager_members(1) [OF assms(1,2)]
    by (simp add: if_distrib [of "\<lambda>n. replicate n _"] cong: if_cong)
qed

theorem broadcastBulk_delivers_witness:
  "received (broadcastBulk sample_env (Some [[], [7]]) sample_gw) 1 = [serverFrame 0 OpText [7]]"
  using broadcastBulk_delivers [OF sample_gwok _ sample_sends, of "[[], [7]]" 1] sample_gw_ok(3) sample_topics(5) [of 1] sample_frame [of 1]
  by (simp add: sample_info(4) sample_received)

text \<open>
  Casting by customer id: when writes succeed, every connection that is in the manager, not closed and bound to a
  customer id receives each non-empty message of each item, in order, once for every occurrence of its
  customer id among the targets.
\<close>

theorem singleCastBulkByCustomerId_delivers:
  assumes "gw_ok t s" "sends env"
  shows "received (singleCastBulkByCustomerId env (Some items) s) c = received s c @
     (if shut s c then [] else concat (map (\<lambda>it. concat (map (\<lambda>d.
        replicate (length (filter (\<lambda>x. online s c \<and> x = customerId (inf s c) \<and> x \<noteq> '''') (ciTargets it))) (frameFor env s c d))
        (filter (\<lambda>d. d \<noteq> []) (ciData it)))) items))"
  unfolding byCustomer_casts received_casts [OF assms(2)] castList_to customer_members [OF assms(1)] sum_members
  by simp

theorem singleCastBulkByCustomerId_delivers_witness:
  "received (singleCastBulkByCustomerId sample_env (Some [\<lparr>ciTargets = [''v'', ''u''], ciData = [[1]]\<rparr>]) sample_gw) 0 = [serverFrame 0 OpText [1]]"
  using singleCastBulkByCustomerId_delivers [OF sample_gwok sample_sends, of "[\<lparr>ciTargets = [''v'', ''u''], ciData = [[1]]\<rparr>]" 0]
    sample_gw_ok(2) sample_topics(5) [of 0]
  by (simp add: sample_topics sample_frame sample_received)

text \<open>
  Casting by connection id stops at the first target that is closed: the messages before it, in the order of the
  nested loops, are written, everything after it is dropped, for other connections too.
\<close>

theorem singleCastBulk_stops:
  assumes "sends env"
  shows "received (singleCastBulk env (Some items) s) c = received s c @
     map (\<lambda>p. frameFor env s c (fst p)) (filter (\<lambda>p. snd p = c)
       (takeWhile (\<lambda>p. \<not> shut s (snd p)) (resolved s (castPairs items))))"
proof -
  have "x \<notin> set (takeWhile (\<lambda>p. \<not> shut s (snd p)) ps)" if "shut s c" "snd x = c" for x and ps :: "(bytes \<times> cref) list"
    using that by (auto dest: set_takeWhileD)
  then have "filter (\<lambda>p. snd p = c) (takeWhile (\<lambda>p. \<not> shut s (snd p)) ps) = []" if "shut s c" for ps :: "(bytes \<times> cref) list"
    using that by (auto simp: filter_empty_conv)
  then show ?thesis
    by (simp add: singleCastBulk_def singleCasts_eq [OF assms] received_casts [OF assms])
qed

theorem singleCastBulk_stops_witness:
  "received (singleCastBulk sample_env (Some [\<lparr>ciTargets = [uniqId (inf sample_gw 0), uniqId (inf sample_gw 1)], ciData = [[1]]\<rparr>])
      (setClosed 0 sample_gw)) 1 = []"
proof -
  let ?u0 = "uniqId (inf sample_gw 0)" and ?u1 = "uniqId (inf sample_gw 1)" and ?s = "setClosed 0 sample_gw"
  have g: "Manager_Get ?u0 (mgr ?s) = Some 0" "Manager_Get ?u1 (mgr ?s) = Some 1"
    using sample_gw_ok(2,3) by (simp_all add: online_def updCodec_def)
  have s: "shut ?s 0" "received ?s 1 = []"
    by (simp_all add: shut_def updCodec_def SetClosedFlagOnSafe_def received_def sample_info(6))
  show ?thesis
    using singleCastBulk_stops [OF sample_sends, of "[\<lparr>ciTargets = [?u0, ?u1], ciData = [[1]]\<rparr>]" ?s 1] s g
    by (simp add: resolved_def castPairs_def)
qed

text \<open>
  C29. Deleting topics: afterwards no connection of the manager is subscribed to any of them, neither in its own topic set nor
  in the index, everybody keeps his other topics, and when writes succeed each open connection that lost a topic
  receives the message exactly once and nobody else receives anything.
\<close>

theorem topicDelete_unsubscribes:
  assumes "gw_ok t s" "sends env" "tdData p \<noteq> []"
  shows "(online s c \<longrightarrow> topicSet (inf (topicDelete env (Some p) s) c) = topicSet (inf s c) - set (tdTopics p)) \<and>
    (tp \<in> set (tdTopics p) \<and> tp \<noteq> '''' \<longrightarrow> Topic_GetConnListByTopic tp (tpc (topicDelete env (Some p) s)) = None) \<and>
    received (topicDelete env (Some p) s) c = received s c @
      (if online s c \<and> topicSet (inf s c) \<inter> set (tdTopics p) \<noteq> {} \<and> \<not> shut s c then [frameFor env s c (tdData p)] else [])"
proof (intro conjI impI)
  let ?ts = "tdTopics p" and ?d = "dropTopics (tdTopics p) s" and ?op = "SendMessageType env"
  let ?s = "topicDelete env (Some p) s"
  let ?l = "toldConns (tdTopics p) s"
  have e: "?s = casts env ?op (map (Pair (tdData p)) ?l) ?d"
    using WriteToAll_casts [OF cache_ok_new, of env ?op "tdData p" ?l ?d] assms(3) unfolding topicDelete_eq by simp
  show "online s c \<Longrightarrow> topicSet (inf ?s c) = topicSet (inf s c) - set ?ts" by (simp add: e dropTopics_topics [OF assms(1)])
  show "Topic_GetConnListByTopic tp (tpc ?s) = None" if "tp \<in> set ?ts \<and> tp \<noteq> ''''"
    using that topic_wf_Del [OF gw_okD(2) [OF assms(1)], of ?ts]
    by (simp add: e dropTopics_def Topic_GetConnListByTopic_at Topic_Del_at)
  have k: "ccodec (heap ?d c) = ccodec (heap s c)" by (simp add: dropTopics_def unsubHeap_at)
  then have enc: "encoded env (heap ?d c) ?op x = encoded env (heap s c) ?op x" for x by (simp add: encoded_def)
  have "distinct l \<Longrightarrow> filter (\<lambda>p. snd p = c) (map (Pair (tdData p)) l) = (if c \<in> set l then [(tdData p, c)] else [])" for l
    by (induction l) (auto simp: filter_empty_conv)
  note one = this [OF toldConns_set(2) [OF assms(1), of ?ts]]
  have "received ?d c = received s c" by (simp add: received_def dropTopics_def)
  moreover have "shut ?d c = shut s c" using k by (simp add: shut_def)
  moreover have "c \<in> set ?l \<longleftrightarrow> online s c \<and> topicSet (inf s c) \<inter> set ?ts \<noteq> {}" using toldConns_set(1) [OF assms(1), of c ?ts] by auto
  ultimately show "received ?s c = received s c @
      (if online s c \<and> topicSet (inf s c) \<inter> set ?ts \<noteq> {} \<and> \<not> shut s c then [frameFor env s c (tdData p)] else [])"
    unfolding e received_casts [OF assms(2)] one enc by auto
qed

theorem topicDelete_unsubscribes_witness:
  "topicSet (inf (topicDelete sample_env (Some \<lparr>tdTopics = [''a''], tdData = [9]\<rparr>) sample_gw) 0) = {''b''} \<and>
   received (topicDelete sample_env (Some \<lparr>tdTopics = [''a''], tdData = [9]\<rparr>) sample_gw) 0 = [serverFrame 0 OpText [9]]"
  using topicDelete_unsubscribes [OF sample_gwok sample_sends, of "\<lparr>tdTopics = [''a''], tdData = [9]\<rparr>" 0] sample_gw_ok(2)
    sample_topics(5) [of 0]
  by (simp add: sample_topics sample_frame sample_received)

text \<open>
  Forcing connections offline by their ids marks exactly the connections that the manager has under these ids as closed,
  and each of those that was open has its closing under way: the two-second timer runs or the close was
  requested at once.
\<close>

theorem forceOffline_closes:
  "(shut (forceOffline env (Some p) s) c \<longleftrightarrow> shut s c \<or> (\<exists>u \<in> set (foTargets p). Manager_Get u (mgr s) = Some c)) \<and>
   ((\<exists>u \<in> set (foTargets p). Manager_Get u (mgr s) = Some c) \<and> \<not> shut s c \<longrightarrow> willClose (forceOffline env (Some p) s) c)"
  using forceOffline_offs [of s p env] unfolding offs_def by blast

theorem forceOffline_closes_witness:
  "shut (forceOffline sample_env (Some \<lparr>foTargets = [uniqId (inf sample_gw 1)], foData = []\<rparr>) sample_gw) 1 \<and>
   willClose (forceOffline sample_env (Some \<lparr>foTargets = [uniqId (inf sample_gw 1)], foData = []\<rparr>) sample_gw) 1"
  using forceOffline_closes [of sample_env "\<lparr>foTargets = [uniqId (inf sample_gw 1)], foData = []\<rparr>" sample_gw 1]
    sample_gw_ok(3) sample_topics(5) [of 1]
  by (simp add: online_def)

text \<open>
  Forcing connections offline by customer id reaches exactly the connections of the manager that are bound to one of the
  given non-empty customer ids.
\<close>

theorem forceOfflineByCustomerId_closes:
  assumes "gw_ok t s"
  shows "(shut (forceOfflineByCustomerId env (Some p) s) c \<longleftrightarrow> shut s c \<or>
       online s c \<and> customerId (inf s c) \<in> set (foTargets p) \<and> customerId (inf s c) \<noteq> '''') \<and>
     (online s c \<and> customerId (inf s c) \<in> set (foTargets p) \<and> customerId (inf s c) \<noteq> '''' \<and> \<not> shut s c \<longrightarrow>
       willClose (forceOfflineByCustomerId env (Some p) s) c)"
  using forceOfflineByCustomerId_offs [OF assms, of p env] unfolding offs_def by blast

theorem forceOfflineByCustomerId_closes_witness:
  "shut (forceOfflineByCustomerId sample_env (Some \<lparr>foTargets = [''u'', ''''], foData = [1]\<rparr>) sample_gw) 0 \<and>
   \<not> shut (forceOfflineByCustomerId sample_env (Some \<lparr>foTargets = [''u'', ''''], foData = [1]\<rparr>) sample_gw) 1"
  using forceOfflineByCustomerId_closes [OF sample_gwok, of sample_env "\<lparr>foTargets = [''u'', ''''], foData = [1]\<rparr>" 0]
    forceOfflineByCustomerId_closes [OF sample_gwok, of sample_env "\<lparr>foTargets = [''u'', ''''], foData = [1]\<rparr>" 1]
    sample_gw_ok(2) sample_topics(5) [of 1] sample_topics(3,4)
  by simp

text \<open>
  Forcing guests offline spares logged-in connections: of the connections named, exactly those with neither session nor
  customer id are closed, at once without a delay and not before the timer with one.
\<close>

theorem forceOfflineGuest_closes:
  "(fgDelay p \<le> 0 \<longrightarrow> (shut (forceOfflineGuest env (Some p) s) c \<longleftrightarrow> shut s c \<or>
       (\<exists>u \<in> set (fgUniqIds p). Manager_Get u (mgr s) = Some c) \<and> session (inf s c) = '''' \<and> customerId (inf s c) = '''')) \<and>
   (fgDelay p > 0 \<longrightarrow> shut (forceOfflineGuest env (Some p) s) c = shut s c) \<and>
   (fgDelay p > 0 \<and> fgUniqIds p \<noteq> [] \<longrightarrow> (shut (run_timer env now (GuestIn (fgDelay p) p) (forceOfflineGuest env (Some p) s)) c \<longleftrightarrow>
       shut s c \<or> (\<exists>u \<in> set (fgUniqIds p). Manager_Get u (mgr s) = Some c) \<and> session (inf s c) = '''' \<and> customerId (inf s c) = ''''))"
proof -
  have g: "shut (guests env p x) c \<longleftrightarrow> shut x c \<or>
       (\<exists>u \<in> set (fgUniqIds p). Manager_Get u (mgr x) = Some c) \<and> session (inf x c) = '''' \<and> customerId (inf x c) = ''''" for x
    using guests_offs [of x p env] unfolding offs_def by (auto simp: IsLoginOnSafe_def)
  show ?thesis by (auto simp: forceOfflineGuest_def run_timer_def g) (auto simp: shut_def)
qed

theorem forceOfflineGuest_closes_witness:
  "\<not> shut (forceOfflineGuest sample_env (Some \<lparr>fgUniqIds = [uniqId (inf sample_gw 0)], fgDelay = 0, fgData = []\<rparr>) sample_gw) 0"
  using forceOfflineGuest_closes [of "\<lparr>fgUniqIds = [uniqId (inf sample_gw 0)], fgDelay = 0, fgData = []\<rparr>" sample_env sample_gw 0 0]
    sample_topics(5) [of 0]
  by (simp add: sample_topics)

text \<open>
  The heartbeat check closes an open connection exactly when its last activity is more than the configured interval ago,
  as long as the clock has not been set back; a clock one second behind the last activity makes the 32-bit
  difference wrap around and closes the connection at once.
\<close>

theorem heartbeat_closes:
  assumes "\<not> shut s c" "lastActiveTime (inf s c) = of_int seen" "0 \<le> seen" "seen < 2 ^ 32" "0 \<le> now" "now < 2 ^ 32"
  shows "(seen \<le> now \<longrightarrow> (shut (heartbeat_tick env now c s) c \<longleftrightarrow> now - seen > uint (HeartbeatIntervalSecond env))) \<and>
    (now = seen - 1 \<and> HeartbeatIntervalSecond env \<noteq> - 1 \<longrightarrow> shut (heartbeat_tick env now c s) c)"
proof -
  let ?stop = "s\<lparr>timers := remove1 (HeartbeatEvery c) (timers s)\<rparr>"
  have tick: "shut (heartbeat_tick env now c s) c \<longleftrightarrow> of_int now - of_int seen > HeartbeatIntervalSecond env"
    using assms(1,2) shut_after_WriteCloseFrame [of env c "BuildCloseFrame StatusGoingAway ''heartbeat timeout''" ?stop]
    by (auto simp: heartbeat_tick_def Let_def shut_def [of s] IsClosedOnSafe_def WriteClose_def)
  have "uint (of_int now - of_int seen :: u32) = now - seen" if "seen \<le> now"
  proof -
    have "(of_int now - of_int seen :: u32) = of_int (now - seen)" by simp
    moreover have "uint (of_int (now - seen) :: u32) = now - seen"
      using that assms(3-6) by (simp add: unsigned_of_int take_bit_int_eq_self del: of_int_diff)
    ultimately show ?thesis by (simp only:)
  qed
  then have a: "seen \<le> now \<longrightarrow> (shut (heartbeat_tick env now c s) c \<longleftrightarrow> now - seen > uint (HeartbeatIntervalSecond env))"
    unfolding tick word_less_def by simp
  have "of_int now - of_int seen = (- 1 :: u32)" if "now = seen - 1" by (simp add: that)
  then have "now = seen - 1 \<and> HeartbeatIntervalSecond env \<noteq> - 1 \<longrightarrow> shut (heartbeat_tick env now c s) c"
    unfolding tick by (metis word_n1_ge word_order.not_eq_extremum linorder_not_le order_antisym)
  with a show ?thesis by blast
qed

theorem heartbeat_closes_witness:
  "shut (heartbeat_tick sample_env 100 0 sample_gw) 0"
proof -
  have "lastActiveTime (inf sample_gw 0) = of_int 5"
    unfolding sample_info(1)
    by (simp add: openInfo_def sample_resp_def sample_start_def updCodec_def server_OnOpen_def gw_init_def case_prod_unfold Let_def
        newInfo_def SubscribeTopics_def SetCustomerId_def)
  then show ?thesis
    using heartbeat_closes [of sample_gw 0 5 100 sample_env] sample_topics(5) [of 0] by (simp add: sample_env_def)
qed

section \<open>Who comes and goes\<close>

text \<open>
  \<open>moves E E' s s'\<close>: a connection enters the manager only through its pending opening and leaves it only when gnet
  reports its end; a new opening is never that of a connection that has ended.
\<close>

definition moves :: "cref set \<Rightarrow> cref set \<Rightarrow> 'l gw \<Rightarrow> 'l gw \<Rightarrow> bool" where
  "moves E E' s s' \<longleftrightarrow> (\<forall>c. online s' c \<longrightarrow> online s c \<or> c \<in> set (openings s)) \<and>
     (\<forall>c. online s c \<longrightarrow> online s' c \<or> c \<in> E' - E) \<and>
     (\<forall>c \<in> set (openings s'). c \<in> set (openings s) \<or> c \<notin> E) \<and> E \<subseteq> E'"

lemma moves_calm: "calm s s' \<Longrightarrow> moves E E s s'"
  using online_core by (auto simp: moves_def calm_def)

lemma moves_quiet: "quiet s s' \<Longrightarrow> moves E E s s'"
  using moves_calm quiet_calm by blast

lemma moves_keeps: "keeps s s' \<Longrightarrow> moves E E s s'"
  using keeps_online [of s s'] keepsD(4) [of s s'] by (auto simp: moves_def openings_def)

lemma moves_command: "gw_ok t s \<Longrightarrow> moves E E s (run_command env k s)"
proof (cases k)
  case (CmdConnInfoUpdate p)
  assume "gw_ok t s"
  then show ?thesis using connInfoUpdate_good [of t s env p] CmdConnInfoUpdate by (simp add: run_command_def good_def moves_keeps)
next
  case (CmdConnInfoDelete p)
  assume "gw_ok t s"
  then show ?thesis using connInfoDelete_good [of t s env p] CmdConnInfoDelete by (simp add: run_command_def good_def moves_keeps)
next
  case (CmdTopicSubscribe p)
  assume "gw_ok t s"
  then show ?thesis using topicSubscribe_good [of t s env p] CmdTopicSubscribe by (simp add: run_command_def good_def moves_keeps)
next
  case (CmdTopicUnsubscribe p)
  assume "gw_ok t s"
  then show ?thesis using topicUnsubscribe_good [of t s env p] CmdTopicUnsubscribe by (simp add: run_command_def good_def moves_keeps)
next
  case (CmdTopicDelete p)
  assume "gw_ok t s"
  then show ?thesis using topicDelete_good [of t s env p] CmdTopicDelete by (simp add: run_command_def good_def moves_keeps)
qed (simp_all add: run_command_def moves_quiet quiet_commands)

lemma moves_accept:
  assumes "inv (idTemplate env) s" "nextc s < 2 ^ 32"
  shows "moves E E s (server_OnOpen env now s)"
proof -
  let ?s = "server_OnOpen env now s" and ?id = "NewId (idTemplate env) now (incrId s)"
  let ?k = "\<lparr>ccodec = newCodec, cinfo = newInfo (limitCfg env) (fst (fst ?id)) (snd (fst ?id)) now\<rparr>"
  have ok: "gw_ok (idTemplate env) s" using assms(1) by (simp add: inv_def)
  have f: "heap ?s = (heap s)(nextc s := ?k)" "nextc ?s = nextc s + 1" "incrId ?s = snd ?id" "mgr ?s = mgr s" "bnd ?s = bnd s" "tpc ?s = tpc s"
    "tasks ?s = tasks s"
    by (simp_all add: server_OnOpen_def case_prod_unfold Let_def)
  have k: "uniqId (cinfo ?k) = fst (fst ?id)" "iid (cinfo ?k) = snd (fst ?id)" "info_wf (cinfo ?k)"
    by (simp_all add: newInfo_def info_wf_def getTopics_def)
  show ?thesis using gw_ok_alloc(2) [OF ok assms(2) k f(1-6)] f(7) by (simp add: moves_def openings_def)
qed

lemma core_of_online: "core s' = core s \<Longrightarrow> openings s' = openings s \<Longrightarrow> moves E E s s'"
  using online_core by (auto simp: moves_def)

lemma moves_traffic:
  assumes "c \<notin> E"
  shows "moves E E s (snd (snd (OnTraffic env sv ev c buf s)))"
proof (cases "isUpgraded (ccodec (heap s c))")
  case True
  then show ?thesis using moves_calm [OF calm_traffic [OF calm_refl]] by (simp add: OnTraffic_def)
next
  case False
  let ?P = "\<lambda>x. core x = core s \<and> set (openings x) \<subseteq> insert c (set (openings s))"
  have P: "?P x \<Longrightarrow> moves E E s x" for x
    using online_core [of x s] assms by (auto simp: moves_def)
  have ref: "?P x \<Longrightarrow> ?P (refuse env c st e x)" for x st e
  proof -
    have "calm x (refuse env c st e x)" by (rule calm_server_writes) simp
    then show "?P x \<Longrightarrow> ?P (refuse env c st e x)" by (simp add: calm_def)
  qed
  have cod: "?P (updCodec (\<lambda>_. k) c s)" for k
  proof -
    have "openings (updCodec (\<lambda>_. k) c s) = openings s" by (simp add: openings_def updCodec_def)
    then show ?thesis by auto
  qed
  have lim: "?P x \<Longrightarrow> ?P (x\<lparr>lims := y\<rparr>)" "?P x \<Longrightarrow> ?P (mark i n x)" for x y i n
    by (simp_all add: core_def openings_def mark_def)
  have add: "?P x \<Longrightarrow> ?P (x\<lparr>tasks := tasks x @ [TOpen c q]\<rparr>)" for x q by (auto simp: opening1_def)
  have op: "?P (snd (OnWebsocketOpen env ev c q x))" if "?P x" for q x
    using that lim(1) [OF that] lim(2) [OF lim(1) [OF that]] add [OF lim(1) [OF that]]
    unfolding OnWebsocketOpen_def Let_def by (auto split: option.splits)
  obtain req resp act k where u: "upgrade (httpEnv sv) (OnUpgradeCheck (HandlePattern sv) (AllowOrigin sv)) (evIo ev) (ccodec (heap s c)) = (req, resp, act, k)"
    using prod_cases4 by blast
  have "?P (snd (snd (OnTraffic env sv ev c buf s)))"
  proof (cases req)
    case None
    then show ?thesis using cod u False by (simp add: OnTraffic_def Let_def)
  next
    case (Some q)
    let ?q = "\<lparr>RawQuery = URLRawQuery q, XForwardedFor = Header_Get q ''X-Forwarded-For'',
                              XRealIp = Header_Get q ''X-Real-IP'', RemoteAddr = evRemote ev\<rparr>"
    obtain r x where rx: "OnWebsocketOpen env ev c ?q (updCodec (\<lambda>_. k) c s) = (r, x)" by fastforce
    then have "?P x" using op [OF cod, of ?q k] by simp
    then show ?thesis using u Some False rx ref by (cases r) (simp_all add: OnTraffic_def Let_def)
  qed
  then show ?thesis by (rule P)
qed

lemma moves_end:
  assumes "gw_ok t s" "c < nextc s" "c \<notin> E"
  shows "moves E (insert c E) s (server_OnClose c s)"
proof (cases "isUpgraded (ccodec (heap s c))")
  case True
  note st = server_OnClose_state [OF assms(1,2) True]
  show ?thesis unfolding moves_def st(2,6) using assms(3) by auto
qed (use assms(3) in \<open>auto simp: server_OnClose_def moves_def\<close>)

lemma moves_task:
  assumes i: "inv t s" and ts: "tasks s = xs @ tk # ys"
  shows "moves E E s (run_task env now tk (s\<lparr>tasks := xs @ ys\<rparr>))"
proof -
  let ?s = "s\<lparr>tasks := xs @ ys\<rparr>"
  have on: "online ?s d = online s d" for d by (rule online_core) simp
  have op: "set (openings s) = set (openings ?s) \<union> set (opening1 tk)" using ts by (auto simp: openings_def)
  have P: "moves E E s x" if "core x = core ?s" "set (openings x) \<subseteq> set (openings s)" for x
    using online_core [OF that(1)] that(2) on by (auto simp: moves_def)
  have q: "core x = core ?s \<and> tasks x = xs @ ys" if "quiet ?s x" for x using that by (simp add: quiet_def)
  have O: "set (openings x) \<subseteq> set (openings s)" if "tasks x = xs @ ys \<or> (\<exists>t'. tasks x = (xs @ ys) @ [t'] \<and> opening1 t' = opening1 tk)" for x :: "'a gw"
    using that ts by (auto simp: openings_def)
  show ?thesis
  proof (cases tk)
    case (TOpen c r)
    have "core (open_begin env c r ?s) = core ?s" "tasks (open_begin env c r ?s) = xs @ ys \<or>
        (\<exists>t'. tasks (open_begin env c r ?s) = (xs @ ys) @ [t'] \<and> opening1 t' = [c])"
      using q [OF quiet_callbacks(1) [OF quiet_refl]] by (auto simp: open_begin_def Let_def case_prod_unfold opening1_def)
    then show ?thesis using P O TOpen by (simp add: run_task_def opening1_def)
  next
    case (TAnswer c co r)
    have "core (open_answer env c co r ?s) = core ?s \<and> (tasks (open_answer env c co r ?s) = xs @ ys \<or>
        (\<exists>t'. tasks (open_answer env c co r ?s) = (xs @ ys) @ [t'] \<and> opening1 t' = [c]))"
      using q [OF quiet_WriteClose [OF quiet_refl]] q [OF quiet_WriteClose [OF quiet_WriteMessage [OF quiet_refl]]]
      by (auto simp: open_answer_def Let_def opening1_def split: sum.splits)
    then show ?thesis using P O TAnswer by (simp add: run_task_def opening1_def)
  next
    case (TReg c co r)
    let ?x = "open_register env c co r ?s"
    have c: "c < nextc s" "blank s c" using inv_remove_task(2) [OF i ts, of c] TReg by (auto simp: opening1_def)
    have g: "gw_ok t ?s" using i gw_ok_core [of ?s s] by (simp add: inv_def)
    have get: "Manager_Get v (mgr (entered c r ?s)) = (if v = uniqId (inf s c) \<and> v \<noteq> '''' then Some c else Manager_Get v (mgr s))" for v
      using Manager_Get_Set [OF gw_okD(1) [OF g], of v "uniqId (inf s c)" c] by (auto simp: entered_state)
    have uid: "uniqId (inf (entered c r ?s) d) = uniqId (inf s d)" for d by (simp add: entered_state updInfo_def)
    have free: "Manager_Get (uniqId (inf s c)) (mgr s) \<noteq> Some d" for d
    proof
      assume "Manager_Get (uniqId (inf s c)) (mgr s) = Some d"
      then have "uniqId (inf s d) = uniqId (inf s c)" "d < nextc s" "online s d"
        using gw_okD(6,7) [OF g] online_Get [OF g] on by (auto simp: online_def)
      then have "d = c" using gen_distinct(2) [OF gw_okD(4) [OF g], of d c] c(1) by simp
      then show False using c(2) \<open>online s d\<close> by (simp add: blank_def)
    qed
    have o: "online ?x d \<longleftrightarrow> Manager_Get (uniqId (inf s d)) (mgr (entered c r ?s)) = Some d" for d
      unfolding online_core [OF open_register_core] by (simp add: online_def uid)
    have "online ?x d \<longrightarrow> online s d \<or> d = c" "online s d \<longrightarrow> online ?x d" for d
    proof -
      have "(if a then Some c else m) = Some d \<longrightarrow> m = Some d \<or> d = c" for a m by (cases a) auto
      then show "online ?x d \<longrightarrow> online s d \<or> d = c" unfolding o get online_def [of s] by blast
      show "online s d \<longrightarrow> online ?x d"
      proof
        assume d: "online s d"
        then have "uniqId (inf s d) \<noteq> uniqId (inf s c)" using free [of d] by (metis online_def)
        then show "online ?x d" unfolding o get using d by (simp add: online_def)
      qed
    qed
    moreover have "tasks ?x = xs @ ys" using open_register_quiet [of c r ?s env co] by (simp add: quiet_def entered_state)
    moreover have "c \<in> set (openings s)" using op TReg by (simp add: opening1_def)
    ultimately have "moves E E s ?x" using O [of ?x] unfolding moves_def by blast
    then show ?thesis using TReg by (simp add: run_task_def)
  qed (use P O q [OF quiet_events(1)] q [OF quiet_events(2)] in \<open>simp_all add: run_task_def\<close>)
qed

lemma moves_step: "gw_step env sv p p' \<Longrightarrow> inv (idTemplate env) (fst p) \<Longrightarrow> moves (snd p) (snd p') (fst p) (fst p')"
proof (induction rule: gw_step.induct)
  case (timer t s ended now)
  have "quiet s (run_timer env now t s)" by (rule quiet_timer)
  then show ?case by (simp add: moves_quiet)
next
  case (limits s ended l)
  show ?case by (simp add: moves_quiet quiet_fields)
qed (auto simp: moves_accept moves_traffic inv_def intro: moves_end moves_task moves_command)


text \<open>A run of the gateway: a connection is accepted, its handshake succeeds, its opening is admitted and registered.\<close>

definition sample_srv :: srv where
  "sample_srv = \<lparr>httpEnv = sample_http sample_request, HandlePattern = ''/netsvr'', AllowOrigin = [], inflate = Some\<rparr>"

definition sample_circ :: circ where
  "sample_circ = \<lparr>evNow = 5, evOnlineNum = 1, evQuit = False, evPool = True, evRemote = ''127.0.0.1'', evIo = sample_io\<rparr>"

definition quick_env :: "unit env" where "quick_env = sample_env\<lparr>onOpenApi := False\<rparr>"

lemma sample_reach: "\<exists>s co. gw_reach quick_env sample_srv (s, {}) \<and> tasks s = [TReg 0 co None] \<and> \<not> shut s 0 \<and> nextc s = 1"
proof -
  let ?i = "gw_init 7 (\<lambda>_. nilLimit) sample_workers (Metrics_init None) :: unit gw"
  let ?a = "server_OnOpen quick_env 5 ?i"
  let ?q = "\<lparr>RawQuery = URLRawQuery sample_request, XForwardedFor = Header_Get sample_request ''X-Forwarded-For'',
              XRealIp = Header_Get sample_request ''X-Real-IP'', RemoteAddr = evRemote sample_circ\<rparr>"
  let ?b = "snd (snd (OnTraffic quick_env sample_srv sample_circ 0 [] ?a))"
  have a: "nextc ?a = 1" "ccodec (heap ?a 0) = newCodec" "tasks ?a = []" "lims ?a = (\<lambda>_. nilLimit)"
    by (simp_all add: server_OnOpen_def gw_init_def case_prod_unfold Let_def)
  have ra: "gw_reach quick_env sample_srv (?a, {})"
    by (rule gw_reach.step [OF gw_reach.start gw_step.accept]) (simp add: gw_init_def)
  obtain q resp act k where u: "upgrade (httpEnv sample_srv) (OnUpgradeCheck (HandlePattern sample_srv) (AllowOrigin sample_srv))
      (evIo sample_circ) newCodec = (q, resp, act, k)" using prod_cases4 by blast
  have "fst (upgrade (httpEnv sample_srv) (OnUpgradeCheck (HandlePattern sample_srv) (AllowOrigin sample_srv)) (evIo sample_circ) newCodec) = Some sample_request"
    using sample_acceptable
    by (intro upgrade_accepting [where peek = crlf2]) (simp_all add: sample_srv_def sample_circ_def sample_io_def sample_http_def crlf2_def)
  then have q: "q = Some sample_request" using u by simp
  have k: "closed k = False" using upgrade_Some(6) [OF u [unfolded q]] by (simp add: newCodec_def)
  have b: "?b = (updCodec (\<lambda>_. k) 0 ?a)\<lparr>lims := (\<lambda>_. nilLimit), tasks := [TOpen 0 ?q]\<rparr>"
    using u [folded a(2)] a q
    by (simp add: OnTraffic_def Let_def newCodec_flags OnWebsocketOpen_def sample_circ_def quick_env_def sample_env_def Limit_Allow_def updCodec_def)
  have rb: "gw_reach quick_env sample_srv (?b, {})"
    by (rule gw_reach.step [OF ra gw_step.traffic]) (simp_all add: a)
  have t: "tasks ?b = [] @ TOpen 0 ?q # []" unfolding b by simp
  let ?c = "run_task quick_env 5 (TOpen 0 ?q) (?b\<lparr>tasks := [] @ []\<rparr>)"
  have rc: "gw_reach quick_env sample_srv (?c, {})" using gw_reach.step [OF rb gw_step.task [OF t]] .
  have "\<exists>co. tasks ?c = [TReg 0 co None]" "\<not> shut ?c 0" "nextc ?c = 1"
    using k a(1) unfolding b by (simp_all add: run_task_def open_begin_def updCodec_def IsClosedOnSafe_def quick_env_def Let_def shut_def)
  then show ?thesis using rc by blast
qed

lemma sample_reach_online: "\<exists>s. gw_reach quick_env sample_srv (s, {}) \<and> online s 0 \<and> openings s = []"
proof -
  obtain s co where s: "gw_reach quick_env sample_srv (s, {})" "tasks s = [] @ TReg 0 co None # []" using sample_reach by auto
  let ?x = "s\<lparr>tasks := [] @ []\<rparr>"
  have "gw_reach quick_env sample_srv (open_register quick_env 0 co None ?x, {})"
    using gw_reach.step [OF s(1) gw_step.task [OF s(2)]] by (simp add: run_task_def)
  moreover have "online (open_register quick_env 0 co None ?x) 0"
  proof -
    have i: "inv (idTemplate quick_env) s" using reach_inv [OF s(1)] by simp
    have bl: "blank ?x 0 = blank s 0" by (rule blank_core) simp
    show ?thesis
      by (rule inv_open_register(2) [OF inv_remove_task(1) [OF i s(2)]])
        (use inv_remove_task(2) [OF i s(2), of 0] bl in \<open>simp_all add: opening1_def\<close>)
  qed
  moreover have "openings (open_register quick_env 0 co None ?x) = []"
    using open_register_quiet [of 0 None ?x quick_env co] by (simp add: quiet_def entered_state openings_def)
  ultimately show ?thesis by blast
qed




text \<open>
  C4. A connection that has ended does not come back: if no opening of it is pending when gnet reports its end, the manager does not have
  it in any later state.
\<close>

theorem ended_connection_stays_out:
  assumes "gw_reach env sv (s, ended)" "c \<in> ended" "\<not> online s c" "c \<notin> set (openings s)" "(gw_step env sv)\<^sup>*\<^sup>* (s, ended) (s', ended')"
  shows "\<not> online s' c"
proof -
  have "gw_reach env sv p \<and> c \<in> snd p \<and> \<not> online (fst p) c \<and> c \<notin> set (openings (fst p))"
    if "(gw_step env sv)\<^sup>*\<^sup>* (s, ended) p" for p
    using that
  proof (induction rule: rtranclp_induct)
    case (step p q)
    have m: "moves (snd p) (snd q) (fst p) (fst q)" using moves_step [OF step(2) reach_inv] step(3) by blast
    show ?case using gw_reach.step step m unfolding moves_def by blast
  qed (use assms in simp)
  from this [OF assms(5)] show ?thesis by simp
qed

theorem ended_connection_stays_out_witness:
  "\<exists>s. gw_reach quick_env sample_srv (s, {}) \<and> online s 0 \<and> \<not> online (run_command quick_env (CmdTopicDelete None) (server_OnClose 0 s)) 0"
proof -
  obtain s where s: "gw_reach quick_env sample_srv (s, {})" "online s 0" "openings s = []" using sample_reach_online by blast
  have i: "inv (idTemplate quick_env) s" using reach_inv [OF s(1)] by simp
  then have c: "isUpgraded (ccodec (heap s 0))" "0 < nextc s" and ok: "gw_ok (idTemplate quick_env) s"
    using s(2) online_lt by (auto simp: inv_def life_ok_def blank_def)
  note st = server_OnClose_state [OF ok c(2,1)]
  have r: "gw_reach quick_env sample_srv (server_OnClose 0 s, {0})"
    using gw_reach.step [OF s(1) gw_step.end_conn [OF c(2)]] by simp
  show ?thesis
    using ended_connection_stays_out [OF r, of 0] r_into_rtranclp [of "gw_step quick_env sample_srv", OF gw_step.command]
      s st(2) [of 0] st(6) by (metis empty_iff insertI1 list.set(1))
qed

lemma moves_ended_online: "moves E E' s s' \<Longrightarrow> c \<in> E \<Longrightarrow> online s c \<Longrightarrow> c \<in> E' \<and> online s' c"
  unfolding moves_def by blast

text \<open>
  C5. The race between opening and closing: when gnet reports the end of a connection after its opening has passed the last check of the
  closed flag and before it is registered, the registration still happens. The closed connection is then in the
  manager, and since its end has been reported already, it stays there in every later state.
\<close>

theorem open_close_race:
  assumes "gw_reach env sv (s, ended)" "tasks s = xs @ TReg c co r # ys" "c \<notin> ended"
  shows "\<exists>s1. (gw_step env sv)\<^sup>*\<^sup>* (s, ended) (s1, insert c ended) \<and> shut s1 c \<and> online s1 c \<and>
     (\<forall>s' ended'. (gw_step env sv)\<^sup>*\<^sup>* (s1, insert c ended) (s', ended') \<longrightarrow> online s' c)"
proof -
  have i: "inv (idTemplate env) s" using reach_inv [OF assms(1)] by simp
  have c: "c < nextc s" "isUpgraded (ccodec (heap s c))" using inv_remove_task(2) [OF i assms(2), of c] by (auto simp: opening1_def)
  let ?a = "server_OnClose c s"
  have sa: "gw_step env sv (s, ended) (?a, insert c ended)" by (rule gw_step.end_conn [OF c(1) assms(3)])
  have ra: "gw_reach env sv (?a, insert c ended)" using gw_reach.step [OF assms(1) sa] .
  have ia: "inv (idTemplate env) ?a" using reach_inv [OF ra] by simp
  have sh: "shut ?a c" using server_OnClose_state(3) [OF _ c] i by (auto simp: inv_def)
  obtain cl where ta: "tasks ?a = xs @ TReg c co r # (ys @ [TClose cl])"
    using c(2) assms(2) by (simp add: server_OnClose_def OnWebsocketClose_def Let_def SnapshotOnSafe_def updCodec_def)
  let ?x = "?a\<lparr>tasks := xs @ (ys @ [TClose cl])\<rparr>"
  let ?b = "open_register env c co r ?x"
  have sb: "gw_step env sv (?a, insert c ended) (?b, insert c ended)" using gw_step.task [OF ta] by (fastforce simp: run_task_def)
  have rb: "gw_reach env sv (?b, insert c ended)" using gw_reach.step [OF ra sb] .
  have bl: "blank ?x c = blank ?a c" by (rule blank_core) simp
  have on: "online ?b c"
    by (rule inv_open_register(2) [OF inv_remove_task(1) [OF ia ta]])
      (use inv_remove_task(2) [OF ia ta, of c] bl in \<open>simp_all add: opening1_def\<close>)
  have "shut ?x c" using sh by (simp add: shut_def)
  then have "shut (entered c r ?x) c" by (simp add: shut_def entered_state updInfo_def)
  then have shb: "shut ?b c" using open_register_quiet [of c r ?x env co] by (simp add: quiet_def)
  have stay: "gw_reach env sv p \<and> c \<in> snd p \<and> online (fst p) c" if "(gw_step env sv)\<^sup>*\<^sup>* (?b, insert c ended) p" for p
    using that
  proof (induction rule: rtranclp_induct)
    case (step p q)
    have "moves (snd p) (snd q) (fst p) (fst q)" using moves_step [OF step(2) reach_inv] step(3) by blast
    then show ?case using gw_reach.step step moves_ended_online by blast
  qed (use rb on in simp)
  have "(gw_step env sv)\<^sup>*\<^sup>* (s, ended) (?b, insert c ended)" using sa sb by (meson converse_rtranclp_into_rtranclp r_into_rtranclp)
  then show ?thesis using shb on stay by fastforce
qed

theorem open_close_race_witness:
  "\<exists>s s1. gw_reach quick_env sample_srv (s, {}) \<and> \<not> shut s 0 \<and> (gw_step quick_env sample_srv)\<^sup>*\<^sup>* (s, {}) (s1, {0}) \<and> shut s1 0 \<and> online s1 0"
proof -
  obtain s co where s: "gw_reach quick_env sample_srv (s, {})" "tasks s = [] @ TReg 0 co None # []" "\<not> shut s 0" using sample_reach by auto
  show ?thesis using open_close_race [OF s(1,2)] s by fastforce
qed

end
