(* ===== verification/TaskProcess.thy ===== *)
theory TaskProcess
  imports TaskQueries GatewayProps
begin

text \<open>
  The loop that serves one business connection, \<^verbatim>\<open>src/internal/task/process/process.go\<close>: packets are cut
  out of the stream and their commands looked up in three tables. Commands that write to many clients are
  submitted to the goroutine pool and may run at any later time; the others run before the next packet
  is read; queries are answered on the connection. The loop is a step relation, interleaved with the
  pool, the events of the clients and the commands of other business connections.
\<close>

section \<open>The tables\<close>

record task_decode =
  uConnInfoUpdate :: "bytes \<Rightarrow> ConnInfoUpdate option"
  uConnInfoDelete :: "bytes \<Rightarrow> ConnInfoDelete option"
  uBroadcastBulk :: "bytes \<Rightarrow> bytes list option"
  uSingleCastBulk :: "bytes \<Rightarrow> CastItem list option"
  uSingleCastBulkByCustomerId :: "bytes \<Rightarrow> CastItem list option"
  uTopicSubscribe :: "bytes \<Rightarrow> TopicSubscribe option"
  uTopicUnsubscribe :: "bytes \<Rightarrow> TopicSubscribe option"
  uTopicDelete :: "bytes \<Rightarrow> TopicDelete option"
  uTopicPublishBulk :: "bytes \<Rightarrow> CastItem list option"
  uForceOffline :: "bytes \<Rightarrow> ForceOffline option"
  uForceOfflineByCustomerId :: "bytes \<Rightarrow> ForceOffline option"
  uForceOfflineGuest :: "bytes \<Rightarrow> ForceOfflineGuest option"
  uCheckOnlineReq :: "bytes \<Rightarrow> string list option"
  uConnInfoReq :: "bytes \<Rightarrow> ConnInfosReq option"
  uConnInfoByCustomerIdReq :: "bytes \<Rightarrow> ConnInfosReq option"
  uLimitReq :: "bytes \<Rightarrow> LimitReq option"
  uTopicCustomerIdCountReq :: "bytes \<Rightarrow> string list option"
  uTopicCustomerIdListReq :: "bytes \<Rightarrow> string list option"
  uTopicCustomerIdToUniqIdsListReq :: "bytes \<Rightarrow> string list option"
  uTopicUniqIdCountReq :: "bytes \<Rightarrow> string list option"
  uTopicUniqIdListReq :: "bytes \<Rightarrow> string list option"

definition Cmd_ConnInfoUpdate :: cmd where "Cmd_ConnInfoUpdate = 900002001"
definition Cmd_ConnInfoDelete :: cmd where "Cmd_ConnInfoDelete = 900002002"
definition Cmd_BroadcastBulk :: cmd where "Cmd_BroadcastBulk = 900002003"
definition Cmd_SingleCastBulk :: cmd where "Cmd_SingleCastBulk = 900002007"
definition Cmd_SingleCastBulkByCustomerId :: cmd where "Cmd_SingleCastBulkByCustomerId = 900002009"
definition Cmd_TopicSubscribe :: cmd where "Cmd_TopicSubscribe = 900002010"
definition Cmd_TopicUnsubscribe :: cmd where "Cmd_TopicUnsubscribe = 900002011"
definition Cmd_TopicDelete :: cmd where "Cmd_TopicDelete = 900002012"
definition Cmd_TopicPublishBulk :: cmd where "Cmd_TopicPublishBulk = 900002014"
definition Cmd_ForceOffline :: cmd where "Cmd_ForceOffline = 900002015"
definition Cmd_ForceOfflineByCustomerId :: cmd where "Cmd_ForceOfflineByCustomerId = 900002016"
definition Cmd_ForceOfflineGuest :: cmd where "Cmd_ForceOfflineGuest = 900002017"

datatype query =
    QUniqIdList | QUniqIdCount | QTopicUniqIdList "string list option" | QTopicUniqIdCount "string list option"
  | QTopicCount | QTopicList | QConnInfo "ConnInfosReq option" | QConnInfoByCustomerId "ConnInfosReq option"
  | QMetrics | QCheckOnline "string list option" | QLimit "LimitReq option" | QCustomerIdCount | QCustomerIdList
  | QTopicCustomerIdList "string list option" | QTopicCustomerIdCount "string list option"
  | QTopicCustomerIdToUniqIdsList "string list option"

definition run_query :: "'l env \<Rightarrow> query_env \<Rightarrow> query \<Rightarrow> 'l gw \<times> tconn \<Rightarrow> 'l gw \<times> tconn" where
  "run_query env qe q st = (case q of
      QUniqIdList \<Rightarrow> uniqIdList qe st
    | QUniqIdCount \<Rightarrow> uniqIdCount qe st
    | QTopicUniqIdList p \<Rightarrow> topicUniqIdList qe p st
    | QTopicUniqIdCount p \<Rightarrow> topicUniqIdCount qe p st
    | QTopicCount \<Rightarrow> topicCount qe st
    | QTopicList \<Rightarrow> topicList qe st
    | QConnInfo p \<Rightarrow> connInfo qe p st
    | QConnInfoByCustomerId p \<Rightarrow> connInfoByCustomerId qe p st
    | QMetrics \<Rightarrow> metrics qe st
    | QCheckOnline p \<Rightarrow> checkOnline qe p st
    | QLimit p \<Rightarrow> limit env qe p st
    | QCustomerIdCount \<Rightarrow> customerIdCount qe st
    | QCustomerIdList \<Rightarrow> customerIdList qe st
    | QTopicCustomerIdList p \<Rightarrow> topicCustomerIdList qe p st
    | QTopicCustomerIdCount p \<Rightarrow> topicCustomerIdCount qe p st
    | QTopicCustomerIdToUniqIdsList p \<Rightarrow> topicCustomerIdToUniqIdsList qe p st)"

text \<open>Unmarshalling is part of the entry: a handler starts with it.\<close>

definition postNonBlockingCallback :: "(cmd, task_decode \<Rightarrow> bytes \<Rightarrow> command) gomap" where
  "postNonBlockingCallback =
     [(Cmd_TopicPublishBulk, \<lambda>u b. CmdTopicPublishBulk (uTopicPublishBulk u b)),
      (Cmd_SingleCastBulk, \<lambda>u b. CmdSingleCastBulk (uSingleCastBulk u b)),
      (Cmd_SingleCastBulkByCustomerId, \<lambda>u b. CmdSingleCastBulkByCustomerId (uSingleCastBulkByCustomerId u b)),
      (Cmd_BroadcastBulk, \<lambda>u b. CmdBroadcastBulk (uBroadcastBulk u b))]"

definition postBlockingCallback :: "(cmd, task_decode \<Rightarrow> bytes \<Rightarrow> command) gomap" where
  "postBlockingCallback =
     [(Cmd_ConnInfoUpdate, \<lambda>u b. CmdConnInfoUpdate (uConnInfoUpdate u b)),
      (Cmd_ConnInfoDelete, \<lambda>u b. CmdConnInfoDelete (uConnInfoDelete u b)),
      (Cmd_ForceOffline, \<lambda>u b. CmdForceOffline (uForceOffline u b)),
      (Cmd_ForceOfflineByCustomerId, \<lambda>u b. CmdForceOfflineByCustomerId (uForceOfflineByCustomerId u b)),
      (Cmd_ForceOfflineGuest, \<lambda>u b. CmdForceOfflineGuest (uForceOfflineGuest u b)),
      (Cmd_TopicSubscribe, \<lambda>u b. CmdTopicSubscribe (uTopicSubscribe u b)),
      (Cmd_TopicUnsubscribe, \<lambda>u b. CmdTopicUnsubscribe (uTopicUnsubscribe u b)),
      (Cmd_TopicDelete, \<lambda>u b. CmdTopicDelete (uTopicDelete u b))]"

definition getCallback :: "(cmd, task_decode \<Rightarrow> bytes \<Rightarrow> query) gomap" where
  "getCallback =
     [(Cmd_UniqIdList, \<lambda>u b. QUniqIdList),
      (Cmd_UniqIdCount, \<lambda>u b. QUniqIdCount),
      (Cmd_TopicUniqIdList, \<lambda>u b. QTopicUniqIdList (uTopicUniqIdListReq u b)),
      (Cmd_TopicUniqIdCount, \<lambda>u b. QTopicUniqIdCount (uTopicUniqIdCountReq u b)),
      (Cmd_TopicCount, \<lambda>u b. QTopicCount),
      (Cmd_TopicList, \<lambda>u b. QTopicList),
      (Cmd_ConnInfo, \<lambda>u b. QConnInfo (uConnInfoReq u b)),
      (Cmd_ConnInfoByCustomerId, \<lambda>u b. QConnInfoByCustomerId (uConnInfoByCustomerIdReq u b)),
      (Cmd_Metrics, \<lambda>u b. QMetrics),
      (Cmd_CheckOnline, \<lambda>u b. QCheckOnline (uCheckOnlineReq u b)),
      (Cmd_Limit, \<lambda>u b. QLimit (uLimitReq u b)),
      (Cmd_CustomerIdCount, \<lambda>u b. QCustomerIdCount),
      (Cmd_CustomerIdList, \<lambda>u b. QCustomerIdList),
      (Cmd_TopicCustomerIdList, \<lambda>u b. QTopicCustomerIdList (uTopicCustomerIdListReq u b)),
      (Cmd_TopicCustomerIdCount, \<lambda>u b. QTopicCustomerIdCount (uTopicCustomerIdCountReq u b)),
      (Cmd_TopicCustomerIdToUniqIdsList, \<lambda>u b. QTopicCustomerIdToUniqIdsList (uTopicCustomerIdToUniqIdsListReq u b))]"

section \<open>The loop\<close>

text \<open>What the loop does with the data of one packet.\<close>

datatype job = Skip | Cast command | Do command | Ask query | Stop

definition job_of :: "task_decode \<Rightarrow> bytes \<Rightarrow> bytes \<Rightarrow> job" where
  "job_of u heartbeat d = (case classify heartbeat d of
      Heartbeat \<Rightarrow> Skip
    | NoCmd \<Rightarrow> Stop
    | Command c body \<Rightarrow>
        (case map_of postNonBlockingCallback c of
           Some f \<Rightarrow> Cast (f u body)
         | None \<Rightarrow> (case map_of postBlockingCallback c of
             Some f \<Rightarrow> Do (f u body)
           | None \<Rightarrow> (case map_of getCallback c of
               Some f \<Rightarrow> Ask (f u body)
             | None \<Rightarrow> Stop))))"

record task_env =
  tdec :: task_decode
  tquery :: query_env
  tLimit :: u32
  tHeartbeat :: bytes

record 'l task_st =
  tgw :: "'l gw"
  tpool :: "command list"
  tcn :: tconn

text \<open>
  One turn, on the bytes the peer has sent and will send before it closes or a read times out: the rest of the stream,
  or \<open>None\<close> when the loop has returned, which closes the connection. Setting the read deadline fails when
  \<^verbatim>\<open>send\<close> has closed the connection.
\<close>

definition task_turn :: "'l env \<Rightarrow> task_env \<Rightarrow> bytes \<Rightarrow> 'l task_st \<Rightarrow> bytes option \<times> 'l task_st" where
  "task_turn env te buf st =
     (let stop = (None, st\<lparr>tcn := (tcn st)\<lparr>tcClosed := True\<rparr>\<rparr>)
      in if tcClosed (tcn st) then stop
         else case read_packet (tLimit te) buf of
           Starved \<Rightarrow> stop
         | Oversize \<Rightarrow> stop
         | Data d rest \<Rightarrow> (case job_of (tdec te) (tHeartbeat te) d of
               Skip \<Rightarrow> (Some rest, st)
             | Cast k \<Rightarrow> (Some rest, st\<lparr>tpool := tpool st @ [k]\<rparr>)
             | Do k \<Rightarrow> (Some rest, st\<lparr>tgw := run_command env k (tgw st)\<rparr>)
             | Ask q \<Rightarrow> (let (s, c) = run_query env (tquery te) q (tgw st, tcn st)
                         in (Some rest, st\<lparr>tgw := s, tcn := c\<rparr>))
             | Stop \<Rightarrow> stop))"

text \<open>The loop alone.\<close>

function Process :: "'l env \<Rightarrow> task_env \<Rightarrow> bytes \<Rightarrow> 'l task_st \<Rightarrow> 'l task_st" where
  "Process env te buf st = (case task_turn env te buf st of
      (None, st') \<Rightarrow> st' | (Some rest, st') \<Rightarrow> Process env te rest st')"
  by pat_completeness auto
termination
  by (relation "measure (\<lambda>(_, _, buf, _). length buf)")
    (auto simp: task_turn_def Let_def case_prod_unfold dest: read_packet_shorter split: if_splits read_res.splits job.splits)

declare Process.simps [simp del]

section \<open>Interleaving the loop with the rest of the gateway\<close>

text \<open>The job of a turn.\<close>

definition turn_job :: "task_env \<Rightarrow> bytes \<Rightarrow> 'l task_st \<Rightarrow> job" where
  "turn_job te buf st = (if tcClosed (tcn st) then Stop
     else case read_packet (tLimit te) buf of Data d rest \<Rightarrow> job_of (tdec te) (tHeartbeat te) d | _ \<Rightarrow> Stop)"

datatype tev = EvJob job | EvPool command | EvOther

inductive task_step :: "'l env \<Rightarrow> srv \<Rightarrow> task_env \<Rightarrow> bytes option \<times> 'l task_st \<times> cref set \<Rightarrow> tev \<Rightarrow>
    bytes option \<times> 'l task_st \<times> cref set \<Rightarrow> bool" for env sv te where
  turn: "task_turn env te buf st = (r, st') \<Longrightarrow>
    task_step env sv te (Some buf, st, ended) (EvJob (turn_job te buf st)) (r, st', ended)"
| pool: "tpool st = xs @ k # ys \<Longrightarrow> task_step env sv te (b, st, ended) (EvPool k)
    (b, st\<lparr>tgw := run_command env k (tgw st), tpool := xs @ ys\<rparr>, ended)"
| other: "gw_step env sv (tgw st, ended) (s', ended') \<Longrightarrow>
    task_step env sv te (b, st, ended) EvOther (b, st\<lparr>tgw := s'\<rparr>, ended')"

inductive task_run :: "'l env \<Rightarrow> srv \<Rightarrow> task_env \<Rightarrow> bytes option \<times> 'l task_st \<times> cref set \<Rightarrow> tev list \<Rightarrow>
    bytes option \<times> 'l task_st \<times> cref set \<Rightarrow> bool" for env sv te p where
  stay: "task_run env sv te p [] p"
| more: "task_run env sv te p es q \<Longrightarrow> task_step env sv te q e q' \<Longrightarrow> task_run env sv te p (es @ [e]) q'"

definition jobs_done :: "tev list \<Rightarrow> job list" where
  "jobs_done es = concat (map (\<lambda>e. case e of EvJob j \<Rightarrow> [j] | _ \<Rightarrow> []) es)"

definition pool_done :: "tev list \<Rightarrow> command list" where
  "pool_done es = concat (map (\<lambda>e. case e of EvPool k \<Rightarrow> [k] | _ \<Rightarrow> []) es)"

definition casts_of :: "job list \<Rightarrow> command list" where
  "casts_of js = concat (map (\<lambda>j. case j of Cast k \<Rightarrow> [k] | _ \<Rightarrow> []) js)"

definition asks_of :: "job list \<Rightarrow> query list" where
  "asks_of js = concat (map (\<lambda>j. case j of Ask q \<Rightarrow> [q] | _ \<Rightarrow> []) js)"

text \<open>The jobs a stream asks for.\<close>

definition jobs :: "task_env \<Rightarrow> bytes \<Rightarrow> job list" where
  "jobs te buf = map (job_of (tdec te) (tHeartbeat te)) (read_all (tLimit te) buf)"

lemma jobs_simps [simp]:
  "jobs_done [] = []" "jobs_done (es @ [EvJob j]) = jobs_done es @ [j]" "jobs_done (es @ [EvPool k]) = jobs_done es"
  "jobs_done (es @ [EvOther]) = jobs_done es"
  "pool_done [] = []" "pool_done (es @ [EvJob j]) = pool_done es" "pool_done (es @ [EvPool k]) = pool_done es @ [k]"
  "pool_done (es @ [EvOther]) = pool_done es"
  "casts_of [] = []" "casts_of (js @ [j]) = casts_of js @ (case j of Cast k \<Rightarrow> [k] | _ \<Rightarrow> [])"
  "asks_of [] = []" "asks_of (js @ [j]) = asks_of js @ (case j of Ask q \<Rightarrow> [q] | _ \<Rightarrow> [])"
  by (simp_all add: jobs_done_def pool_done_def casts_of_def asks_of_def)

section \<open>Queries: one answer each\<close>

definition query_cmd :: "query \<Rightarrow> cmd" where
  "query_cmd q = (case q of
      QUniqIdList \<Rightarrow> Cmd_UniqIdList | QUniqIdCount \<Rightarrow> Cmd_UniqIdCount | QTopicUniqIdList _ \<Rightarrow> Cmd_TopicUniqIdList
    | QTopicUniqIdCount _ \<Rightarrow> Cmd_TopicUniqIdCount | QTopicCount \<Rightarrow> Cmd_TopicCount | QTopicList \<Rightarrow> Cmd_TopicList
    | QConnInfo _ \<Rightarrow> Cmd_ConnInfo | QConnInfoByCustomerId _ \<Rightarrow> Cmd_ConnInfoByCustomerId | QMetrics \<Rightarrow> Cmd_Metrics
    | QCheckOnline _ \<Rightarrow> Cmd_CheckOnline | QLimit _ \<Rightarrow> Cmd_Limit | QCustomerIdCount \<Rightarrow> Cmd_CustomerIdCount
    | QCustomerIdList \<Rightarrow> Cmd_CustomerIdList | QTopicCustomerIdList _ \<Rightarrow> Cmd_TopicCustomerIdList
    | QTopicCustomerIdCount _ \<Rightarrow> Cmd_TopicCustomerIdCount
    | QTopicCustomerIdToUniqIdsList _ \<Rightarrow> Cmd_TopicCustomerIdToUniqIdsList)"

text \<open>The payload could be unmarshalled, or the query has none.\<close>

definition decodable :: "query \<Rightarrow> bool" where
  "decodable q = (case q of
      QTopicUniqIdList p \<Rightarrow> p \<noteq> None | QTopicUniqIdCount p \<Rightarrow> p \<noteq> None | QConnInfo p \<Rightarrow> p \<noteq> None
    | QConnInfoByCustomerId p \<Rightarrow> p \<noteq> None | QCheckOnline p \<Rightarrow> p \<noteq> None | QLimit p \<Rightarrow> p \<noteq> None
    | QTopicCustomerIdList p \<Rightarrow> p \<noteq> None | QTopicCustomerIdCount p \<Rightarrow> p \<noteq> None
    | QTopicCustomerIdToUniqIdsList p \<Rightarrow> p \<noteq> None | _ \<Rightarrow> True)"

lemmas handler_defs = uniqIdList_def uniqIdCount_def topicUniqIdList_def topicUniqIdCount_def topicCount_def
  topicList_def connInfo_def connInfoByCustomerId_def metrics_def checkOnline_def limit_def customerIdCount_def
  customerIdList_def topicCustomerIdList_def topicCustomerIdCount_def topicCustomerIdToUniqIdsList_def

lemma run_query_undecodable: "\<not> decodable q \<Longrightarrow> run_query env qe q st = st"
  by (cases st) (auto simp: run_query_def decodable_def handler_defs split: query.splits)

lemma run_query_answers:
  assumes "decodable q"
  shows "\<exists>resp. snd (run_query env qe q (s, k)) = send qe resp (query_cmd q) k"
  using assms by (cases q) (auto simp: run_query_def decodable_def query_cmd_def handler_defs Let_def)

lemma run_query_limits:
  "fst (run_query env qe q (s, k)) = s\<lparr>lims := (case q of QLimit (Some p) \<Rightarrow> Limit_Update (rateOps env) p (lims s) | _ \<Rightarrow> lims s)\<rparr>"
  by (cases q) (auto simp: run_query_def handler_defs Let_def split: option.splits)

section \<open>What runs do\<close>

lemma turn_cases:
  assumes "task_turn env te buf st = (r, st')"
  shows "r = None \<and> turn_job te buf st = Stop \<and> st' = st\<lparr>tcn := (tcn st)\<lparr>tcClosed := True\<rparr>\<rparr> \<or>
    (\<exists>d rest. read_packet (tLimit te) buf = Data d rest \<and> r = Some rest \<and> \<not> tcClosed (tcn st) \<and>
       turn_job te buf st = job_of (tdec te) (tHeartbeat te) d \<and> turn_job te buf st \<noteq> Stop \<and>
       (case turn_job te buf st of
          Cast k \<Rightarrow> st' = st\<lparr>tpool := tpool st @ [k]\<rparr>
        | Do k \<Rightarrow> st' = st\<lparr>tgw := run_command env k (tgw st)\<rparr>
        | Ask q \<Rightarrow> st' = st\<lparr>tgw := fst (run_query env (tquery te) q (tgw st, tcn st)),
                            tcn := snd (run_query env (tquery te) q (tgw st, tcn st))\<rparr>
        | _ \<Rightarrow> st' = st))"
  using assms unfolding task_turn_def turn_job_def Let_def
  by (auto simp: case_prod_unfold split: if_splits read_res.splits job.splits)

lemma jobs_Data: "read_packet (tLimit te) buf = Data d rest \<Longrightarrow> jobs te buf = job_of (tdec te) (tHeartbeat te) d # jobs te rest"
  by (simp add: jobs_def read_all.simps [of _ buf])

lemma turn_jobs:
  assumes "task_turn env te buf st = (r, st')"
  shows "r = None \<and> turn_job te buf st = Stop \<or>
    (\<exists>rest. r = Some rest \<and> turn_job te buf st \<noteq> Stop \<and> jobs te buf = turn_job te buf st # jobs te rest)"
  using turn_cases [OF assms] jobs_Data [of te buf] by auto

lemma run_jobs:
  assumes "task_run env sv te (Some buf, st0, en0) es (b, st, en)"
  shows "case b of
      Some rest \<Rightarrow> jobs te buf = jobs_done es @ jobs te rest \<and> Stop \<notin> set (jobs_done es)
    | None \<Rightarrow> (\<exists>js. jobs_done es = js @ [Stop] \<and> Stop \<notin> set js \<and> (\<exists>ks. jobs te buf = js @ ks))"
  using assms
proof (induction es "(b, st, en)" arbitrary: b st en rule: task_run.induct)
  case (more es q e)
  from more(3) show ?case
  proof cases
    case (turn buf' st')
    then show ?thesis using more(2) [OF turn(1)] turn_jobs [OF turn(3)] by auto
  next
    case (pool st')
    show ?thesis using more(2) [OF pool(1)] unfolding pool(2) jobs_simps .
  next
    case (other st')
    show ?thesis using more(2) [OF other(1)] unfolding other(2) jobs_simps .
  qed
qed simp

lemma run_pool:
  assumes "task_run env sv te (b0, st0, en0) es (b, st, en)"
  shows "mset (pool_done es) + mset (tpool st) = mset (tpool st0) + mset (casts_of (jobs_done es))"
  using assms
proof (induction es "(b, st, en)" arbitrary: b st en rule: task_run.induct)
  case (more es q e)
  from more(3) show ?case
  proof cases
    case (turn buf' st')
    have IH: "mset (pool_done es) + mset (tpool st') = mset (tpool st0) + mset (casts_of (jobs_done es))"
      using more(2) turn by simp
    have "mset (tpool st) = mset (tpool st') + mset (case turn_job te buf' st' of Cast k \<Rightarrow> [k] | _ \<Rightarrow> [])"
      using turn_cases [OF turn(3)] by (auto split: job.splits)
    then show ?thesis using IH turn by (simp add: ac_simps)
  next
    case (pool st' xs k ys)
    have "mset (pool_done es) + mset (tpool st') = mset (tpool st0) + mset (casts_of (jobs_done es))"
      using more(2) pool by simp
    then show ?thesis using pool by simp
  next
    case (other st')
    then show ?thesis using more(2) by simp
  qed
qed simp

lemma step_reach:
  assumes "task_step env sv te (b, st, en) e (b', st', en')" "gw_reach env sv (tgw st, en)"
  shows "gw_reach env sv (tgw st', en')"
  using assms(1)
proof cases
  case (turn buf)
  have "tgw st' = tgw st \<or> (\<exists>k. tgw st' = run_command env k (tgw st)) \<or> (\<exists>l. tgw st' = (tgw st)\<lparr>lims := l\<rparr>)"
    using turn_cases [OF turn(4)] run_query_limits [of env "tquery te" _ "tgw st" "tcn st"] by (auto split: job.splits)
  then show ?thesis
    using assms(2) gw_reach.step [OF assms(2) gw_step.command] gw_reach.step [OF assms(2) gw_step.limits] turn by auto
next
  case (pool xs k ys)
  then show ?thesis using gw_reach.step [OF assms(2) gw_step.command, of k] by simp
next
  case (other s')
  then show ?thesis using gw_reach.step [OF assms(2)] by auto
qed

lemma run_reach:
  assumes "task_run env sv te (b0, st0, en0) es (b, st, en)" "gw_reach env sv (tgw st0, en0)"
  shows "gw_reach env sv (tgw st, en)"
  using assms(1)
proof (induction es "(b, st, en)" arbitrary: b st en rule: task_run.induct)
  case (more es q e)
  then show ?case by (cases q) (auto intro: step_reach)
qed (use assms(2) in simp)

section \<open>What the peer reads\<close>

text \<open>Every write is complete, answers can be marshalled and fit a packet of the peer.\<close>

definition answers_ok :: "query_env \<Rightarrow> u32 \<Rightarrow> bool" where
  "answers_ok qe lim \<longleftrightarrow> (\<forall>n. qwrite qe n = WOk) \<and>
     (\<forall>m. \<exists>b. qmarshal qe m = Some b \<and> length b + 4 < 2 ^ 32 \<and> length b + 4 \<le> unat lim)"

lemma send_ok:
  assumes "answers_ok qe lim"
  shows "\<exists>p. packet_set (qmarshal qe) m c = Some p \<and> length (pbody p) + 4 < 2 ^ 32 \<and> length (pbody p) + 4 \<le> unat lim \<and>
     tcWire (send qe m c k) = tcWire k @ wire p \<and> tcClosed (send qe m c k) = tcClosed k"
proof -
  obtain b where b: "qmarshal qe m = Some b" "length b + 4 < 2 ^ 32" "length b + 4 \<le> unat lim"
    using assms unfolding answers_ok_def by blast
  have "qwrite qe n = WOk" for n using assms by (simp add: answers_ok_def)
  then show ?thesis using b by (simp add: send_def packet_set_def Let_def)
qed

text \<open>The packets written so far are the answers to the queries done so far.\<close>

definition answered :: "query_env \<Rightarrow> u32 \<Rightarrow> query list \<Rightarrow> bytes \<Rightarrow> bool" where
  "answered qe lim qs w \<longleftrightarrow> (\<exists>ps. w = concat (map (\<lambda>(m, c, p). wire p) ps) \<and>
     map (\<lambda>(m, c, p). c) ps = map query_cmd (filter decodable qs) \<and>
     (\<forall>(m, c, p) \<in> set ps. packet_set (qmarshal qe) m c = Some p \<and> length (pbody p) + 4 < 2 ^ 32 \<and>
        length (pbody p) + 4 \<le> unat lim))"

lemma answered_Nil: "answered qe lim [] []"
  by (simp add: answered_def)

lemma answered_query:
  assumes "answers_ok qe lim" "answered qe lim qs (tcWire k)"
  shows "answered qe lim (qs @ [q]) (tcWire (snd (run_query env qe q (s, k)))) \<and>
     tcClosed (snd (run_query env qe q (s, k))) = tcClosed k"
proof (cases "decodable q")
  case True
  obtain m where m: "snd (run_query env qe q (s, k)) = send qe m (query_cmd q) k"
    using run_query_answers [OF True] by blast
  obtain p where p: "packet_set (qmarshal qe) m (query_cmd q) = Some p" "length (pbody p) + 4 < 2 ^ 32"
    "length (pbody p) + 4 \<le> unat lim" "tcWire (send qe m (query_cmd q) k) = tcWire k @ wire p"
    "tcClosed (send qe m (query_cmd q) k) = tcClosed k"
    using send_ok [OF assms(1), of m "query_cmd q" k] by blast
  obtain ps where ps: "tcWire k = concat (map (\<lambda>(m, c, p). wire p) ps)"
    "map (\<lambda>(m, c, p). c) ps = map query_cmd (filter decodable qs)"
    "\<forall>(m, c, p) \<in> set ps. packet_set (qmarshal qe) m c = Some p \<and> length (pbody p) + 4 < 2 ^ 32 \<and> length (pbody p) + 4 \<le> unat lim"
    using assms(2) unfolding answered_def by blast
  have "answered qe lim (qs @ [q]) (tcWire k @ wire p)"
    unfolding answered_def
    by (rule exI [of _ "ps @ [(m, query_cmd q, p)]"]) (use ps p True in auto)
  then show ?thesis using m p by simp
next
  case False
  then show ?thesis
    unfolding run_query_undecodable [OF False] using assms(2) by (simp add: answered_def)
qed

lemma run_answered:
  assumes "task_run env sv te (b0, st0, en0) es (b, st, en)" "answers_ok (tquery te) lim" "tcWire (tcn st0) = []"
  shows "answered (tquery te) lim (asks_of (jobs_done es)) (tcWire (tcn st))"
  using assms(1)
proof (induction es "(b, st, en)" arbitrary: b st en rule: task_run.induct)
  case (more es q e)
  from more(3) show ?case
  proof cases
    case (turn buf' st')
    have IH: "answered (tquery te) lim (asks_of (jobs_done es)) (tcWire (tcn st'))" using more(2) [OF turn(1)] .
    show ?thesis
      using turn_cases [OF turn(3)] answered_query [OF assms(2) IH, THEN conjunct1, of _ env "tgw st'"] IH
      unfolding turn(2) jobs_simps by (auto split: job.splits)
  next
    case (pool st')
    then show ?thesis using more(2) [OF pool(1)] by simp
  next
    case (other st')
    then show ?thesis using more(2) [OF other(1)] by simp
  qed
qed (use assms(3) in \<open>simp add: answered_Nil\<close>)

lemma answered_read:
  assumes "answered qe lim qs w"
  shows "map Uint32 (read_all lim w) = map query_cmd (filter decodable qs)"
proof -
  obtain ps where ps: "w = concat (map (\<lambda>(m, c, p). wire p) ps)"
    "map (\<lambda>(m, c, p). c) ps = map query_cmd (filter decodable qs)"
    "\<forall>(m, c, p) \<in> set ps. packet_set (qmarshal qe) m c = Some p \<and> length (pbody p) + 4 < 2 ^ 32 \<and> length (pbody p) + 4 \<le> unat lim"
    using assms unfolding answered_def by blast
  show ?thesis unfolding ps(1) read_all_set [OF ps(3)] ps(2) [symmetric] by (simp add: comp_def case_prod_unfold)
qed

text \<open>The loop alone ends with the connection closed.\<close>

lemma task_run_first: "task_run env sv te p' es q \<Longrightarrow> task_step env sv te p e p' \<Longrightarrow> task_run env sv te p (e # es) q"
proof (induction rule: task_run.induct)
  case stay
  then show ?case using task_run.more [OF task_run.stay, of env sv te p e] by simp
next
  case (more es q e' q')
  then show ?case using task_run.more [of env sv te p "e # es" q e' q'] by simp
qed

lemma Process_closes: "tcClosed (tcn (Process env te buf st))"
proof (induction env te buf st rule: Process.induct)
  case (1 env te buf st)
  obtain r st' where t: "task_turn env te buf st = (r, st')" by fastforce
  then show ?case
    using 1 [OF t [symmetric]] turn_cases [OF t] by (cases r) (auto simp: Process.simps [of env te buf])
qed

end
