(* ===== verification/TaskProps.thy ===== *)
theory TaskProps
  imports TaskProcess
begin

text \<open>
  What the business can rely on at the task port: the queries report the registries exactly, and the loop serves a
  stream of packets in order whatever the rest of the gateway does in between.
\<close>

section \<open>Properties of the queries\<close>

abbreviation (input) uids :: "'l gw \<Rightarrow> cref set \<Rightarrow> string set" where
  "uids s C \<equiv> (\<lambda>c. uniqId (inf s c)) ` C"

abbreviation (input) cids :: "'l gw \<Rightarrow> cref set \<Rightarrow> string set" where
  "cids s C \<equiv> {x. x \<noteq> '''' \<and> (\<exists>c \<in> C. customerId (inf s c) = x)}"

text \<open>
  The listing queries report the gateway exactly: the ids of the connections in the manager, the customer ids bound to one of
  them and the topics one of them is subscribed to, each once, and the counting queries the numbers
  of them (as \<^verbatim>\<open>int32\<close>). Nothing else changes.
\<close>

theorem lists_and_counts_exact:
  assumes "gw_ok t s" "nextc s < 2 ^ 32"
  shows "(\<exists>us. uniqIdList qe (s, k) = (s, send qe (UniqIdListResp us) Cmd_UniqIdList k) \<and> exactly us (uids s {c. online s c})) \<and>
     uniqIdCount qe (s, k) = (s, send qe (UniqIdCountResp (of_nat (card {c. online s c}))) Cmd_UniqIdCount k) \<and>
     (\<exists>xs. customerIdList qe (s, k) = (s, send qe (CustomerIdListResp xs) Cmd_CustomerIdList k) \<and> exactly xs {x. boundTo s x \<noteq> {}}) \<and>
     customerIdCount qe (s, k) = (s, send qe (CustomerIdCountResp (of_nat (card {x. boundTo s x \<noteq> {}}))) Cmd_CustomerIdCount k) \<and>
     (\<exists>ts. topicList qe (s, k) = (s, send qe (TopicListResp ts) Cmd_TopicList k) \<and> exactly ts {tp. subscribers s tp \<noteq> {}}) \<and>
     topicCount qe (s, k) = (s, send qe (TopicCountResp (of_nat (card {tp. subscribers s tp \<noteq> {}}))) Cmd_TopicCount k)"
  using manager_names [OF assms] customer_names [OF assms(1)] topic_names [OF assms(1)]
  by (simp add: uniqIdList_def uniqIdCount_def customerIdList_def customerIdCount_def topicList_def topicCount_def) blast

theorem lists_and_counts_exact_witness:
  "\<exists>us. uniqIdList \<lparr>qmarshal = (\<lambda>_. Some []), qwrite = (\<lambda>_. WOk)\<rparr> (sample_gw, \<lparr>tcWire = [], tcWrites = 0, tcClosed = False\<rparr>)
      = (sample_gw, send \<lparr>qmarshal = (\<lambda>_. Some []), qwrite = (\<lambda>_. WOk)\<rparr> (UniqIdListResp us) Cmd_UniqIdList
           \<lparr>tcWire = [], tcWrites = 0, tcClosed = False\<rparr>) \<and>
     exactly us (uids sample_gw {c. online sample_gw c})"
proof -
  have "gw_ok (idTemplate sample_env) sample_gw" using sample_gw_ok(1) by (simp add: inv_def)
  from lists_and_counts_exact [OF this] show ?thesis by (simp add: sample_info)
qed

lemma subscribers_empty: "gw_ok t s \<Longrightarrow> subscribers s '''' = {}"
  using gw_okD(5) by (fastforce simp: subscribers_def info_wf_def)

lemma boundTo_iff: "c \<in> boundTo s x \<longleftrightarrow> online s c \<and> customerId (inf s c) = x \<and> x \<noteq> ''''"
  by (auto simp: boundTo_def)

lemma entry_None [simp]: "entry_of None {}"
  by (simp add: entry_of_def)

lemma entry_map:
  "entry_of x S \<Longrightarrow> inj_on f S \<Longrightarrow> entry_of (map_option (map f) x) (f ` S)"
  by (auto simp: entry_of_def exactly_map split: option.splits)

lemma entry_length: "entry_of x S \<Longrightarrow> map_option length x = (if S = {} then None else Some (card S))"
  by (auto simp: entry_of_def exactly_length split: option.splits)

text \<open>The map of connections per topic that the topic queries start from.\<close>

lemma topic_conns:
  assumes "gw_ok t s"
  shows "entry_of (map_of (nilMap (Topic_GetConnListByTopics ts (tpc s))) tp) (if tp \<in> set ts then subscribers s tp else {})"
    "gm_ok (nilMap (Topic_GetConnListByTopics ts (tpc s)))"
    "entry_of (map_of (Topic_GetConnList (tpc s)) tp) (subscribers s tp)"
proof -
  note e = topic_entry [OF assms, of tp]
  have emp: "entry_of None {}" by (simp add: entry_of_def)
  show "entry_of (map_of (nilMap (Topic_GetConnListByTopics ts (tpc s))) tp) (if tp \<in> set ts then subscribers s tp else {})"
  proof (cases "ts = []")
    case False
    from Topic_GetConnListByTopics_at [OF this, of "tpc s"] obtain ret where
      "Topic_GetConnListByTopics ts (tpc s) = Some ret"
      "map_of ret tp = (if tp \<in> set ts \<and> tp \<noteq> '''' then map_option conn_list (sh_get hashTopic (tpc s) tp) else None)" by blast
    then show ?thesis using e emp subscribers_empty [OF assms] by auto
  qed (simp add: Topic_GetConnListByTopics_def emp)
  show "gm_ok (nilMap (Topic_GetConnListByTopics ts (tpc s)))"
    using Topic_GetConnListByTopics_at [of ts "tpc s"] by (cases "ts = []") (auto simp: Topic_GetConnListByTopics_def)
  show "entry_of (map_of (Topic_GetConnList (tpc s)) tp) (subscribers s tp)"
    using e by (simp add: Topic_GetConnList_at [OF gw_okD(2) [OF assms]])
qed

lemma GetConnList_ok: "gm_ok (Topic_GetConnList r)"
proof -
  have 1: "gm_ok ret \<Longrightarrow> gm_ok (fold (\<lambda>(topic, c) ret. AList.update topic (conn_list c) ret) d ret)" for ret d
    by (induction d arbitrary: ret) auto
  have "gm_ok ret \<Longrightarrow> gm_ok (fold (\<lambda>i. fold (\<lambda>(topic, c) ret. AList.update topic (conn_list c) ret) (r i)) is ret)" for ret "is"
    by (induction "is" arbitrary: ret) (use 1 in auto)
  then show ?thesis by (simp add: Topic_GetConnList_def for_shards_def)
qed

lemma customers_exactly: "exactly cs C \<Longrightarrow> exactly (customerIdSet s cs) (cids s C)"
  using customerIdSet_exactly [of s cs] by (simp add: exactly_def)

text \<open>What the listing queries make of that map.\<close>

lemma topic_answers:
  assumes "gw_ok t s"
  shows "entry_of (map_of (perTopic (GetUniqIds s) (nilMap (Topic_GetConnListByTopics ts (tpc s)))) tp)
       (if tp \<in> set ts then uids s (subscribers s tp) else {})"
    "case map_of (perTopic (GetCustomerIds s) (nilMap (Topic_GetConnListByTopics ts (tpc s)))) tp of
        None \<Rightarrow> tp \<notin> set ts \<or> subscribers s tp = {}
      | Some x \<Rightarrow> tp \<in> set ts \<and> subscribers s tp \<noteq> {} \<and> exactly x (cids s (subscribers s tp))"
proof -
  let ?L = "nilMap (Topic_GetConnListByTopics ts (tpc s))"
  note at = perTopic_at [OF topic_conns(2) [OF assms, of ts]] and e = topic_conns(1) [OF assms, of ts tp]
  have inj: "inj_on (\<lambda>c. uniqId (inf s c)) (if tp \<in> set ts then subscribers s tp else {})"
    by (rule inj_on_subset [OF uniqIds_inj [OF assms]]) (auto simp: subscribers_def)
  show "entry_of (map_of (perTopic (GetUniqIds s) ?L) tp) (if tp \<in> set ts then uids s (subscribers s tp) else {})"
    unfolding at GetUniqIds_eq [abs_def] using entry_map [OF e inj] by (cases "tp \<in> set ts") simp_all
  show "case map_of (perTopic (GetCustomerIds s) ?L) tp of None \<Rightarrow> tp \<notin> set ts \<or> subscribers s tp = {}
      | Some x \<Rightarrow> tp \<in> set ts \<and> subscribers s tp \<noteq> {} \<and> exactly x (cids s (subscribers s tp))"
  proof (cases "map_of ?L tp")
    case None
    then show ?thesis unfolding at using entry_dom [OF e] by (auto split: if_splits)
  next
    case (Some cs)
    then have "tp \<in> set ts" "subscribers s tp \<noteq> {}" "exactly cs (subscribers s tp)"
      using e by (auto simp: entry_of_def split: if_splits)
    then show ?thesis unfolding at GetCustomerIds_eq [abs_def] Some using customers_exactly by simp
  qed
qed

text \<open>The counting queries report on all topics when none is given.\<close>

lemma customer_counts:
  assumes "gw_ok t s"
  shows "map_of (perTopic (\<lambda>cs. f (CountCustomerIds s cs))
       (if length ts = 0 then Topic_GetConnList (tpc s) else nilMap (Topic_GetConnListByTopics ts (tpc s)))) tp
     = (if (ts = [] \<or> tp \<in> set ts) \<and> subscribers s tp \<noteq> {} then Some (f (card (cids s (subscribers s tp)))) else None)"
proof -
  let ?L = "if length ts = 0 then Topic_GetConnList (tpc s) else nilMap (Topic_GetConnListByTopics ts (tpc s))"
  have ok: "gm_ok ?L" using topic_conns(2) [OF assms] GetConnList_ok by simp
  have e: "entry_of (map_of ?L tp) (if ts = [] \<or> tp \<in> set ts then subscribers s tp else {})"
    using topic_conns(1,3) [OF assms] by (cases "ts = []") simp_all
  show ?thesis
  proof (cases "map_of ?L tp")
    case None
    then show ?thesis unfolding perTopic_at [OF ok] using entry_dom [OF e] by (auto split: if_splits)
  next
    case (Some cs)
    then have ex: "ts = [] \<or> tp \<in> set ts" "subscribers s tp \<noteq> {}" "exactly cs (subscribers s tp)"
      using e by (auto simp: entry_of_def split: if_splits)
    then show ?thesis
      unfolding perTopic_at [OF ok] Some CountCustomerIds_def using exactly_length [OF customers_exactly [OF ex(3), of s]] by simp
  qed
qed

lemma topic_counts:
  assumes "gw_ok t s"
  shows "map_of (if length ts = 0 then Topic_CountConn (tpc s) else nilMap (Topic_CountConnByTopic ts (tpc s))) tp
     = (if (ts = [] \<or> tp \<in> set ts) \<and> subscribers s tp \<noteq> {} then Some (of_nat (card (subscribers s tp))) else None)"
proof -
  have e: "map_option (\<lambda>c. of_nat (length c) :: i32) (sh_get hashTopic (tpc s) tp)
      = (if subscribers s tp = {} then None else Some (of_nat (card (subscribers s tp))))"
    using entry_length [OF topic_entry [OF assms, of tp]] by (cases "sh_get hashTopic (tpc s) tp") (auto split: if_splits)
  show ?thesis
  proof (cases "ts = []")
    case True
    then show ?thesis by (simp add: Topic_CountConn_at [OF gw_okD(2) [OF assms]] e)
  next
    case False
    then obtain ret where "Topic_CountConnByTopic ts (tpc s) = Some ret" "map_of ret tp
        = (if tp \<in> set ts \<and> tp \<noteq> '''' then map_option (\<lambda>c. of_nat (length c)) (sh_get hashTopic (tpc s) tp) else None)"
      using Topic_CountConnByTopic_at [OF False, of "tpc s"] by blast
    then show ?thesis unfolding e using False subscribers_empty [OF assms] by auto
  qed
qed

text \<open>
  C26. The queries about topics report the subscribers: for every requested topic that somebody is subscribed to, the ids of exactly
  its subscribers, their customer ids without repetition, and the numbers of both; topics without
  subscribers are left out. The counting queries report on every topic when none is given.
\<close>

theorem topic_queries_exact:
  assumes "gw_ok t s"
  shows "\<exists>us xs m n.
     topicUniqIdList qe (Some ts) (s, k) = (s, send qe (TopicUniqIdListResp us) Cmd_TopicUniqIdList k) \<and>
     topicCustomerIdList qe (Some ts) (s, k) = (s, send qe (TopicCustomerIdListResp xs) Cmd_TopicCustomerIdList k) \<and>
     topicUniqIdCount qe (Some ts) (s, k) = (s, send qe (TopicUniqIdCountResp m) Cmd_TopicUniqIdCount k) \<and>
     topicCustomerIdCount qe (Some ts) (s, k) = (s, send qe (TopicCustomerIdCountResp n) Cmd_TopicCustomerIdCount k) \<and>
     (\<forall>tp. entry_of (map_of us tp) (if tp \<in> set ts then uids s (subscribers s tp) else {}) \<and>
        (case map_of xs tp of
           None \<Rightarrow> tp \<notin> set ts \<or> subscribers s tp = {}
         | Some x \<Rightarrow> tp \<in> set ts \<and> subscribers s tp \<noteq> {} \<and> exactly x (cids s (subscribers s tp))) \<and>
        map_of m tp = (if (ts = [] \<or> tp \<in> set ts) \<and> subscribers s tp \<noteq> {}
          then Some (of_nat (card (subscribers s tp))) else None) \<and>
        map_of n tp = (if (ts = [] \<or> tp \<in> set ts) \<and> subscribers s tp \<noteq> {}
          then Some (of_nat (card (cids s (subscribers s tp)))) else None))"
proof -
  let ?L = "nilMap (Topic_GetConnListByTopics ts (tpc s))"
  let ?n = "perTopic (\<lambda>cs. of_nat (CountCustomerIds s cs)) (if length ts = 0 then Topic_GetConnList (tpc s) else ?L)"
  have "topicUniqIdList qe (Some ts) (s, k) = (s, send qe (TopicUniqIdListResp (perTopic (GetUniqIds s) ?L)) Cmd_TopicUniqIdList k)"
    "topicCustomerIdList qe (Some ts) (s, k) = (s, send qe (TopicCustomerIdListResp (perTopic (GetCustomerIds s) ?L)) Cmd_TopicCustomerIdList k)"
    "topicUniqIdCount qe (Some ts) (s, k) = (s, send qe (TopicUniqIdCountResp
      (if length ts = 0 then Topic_CountConn (tpc s) else nilMap (Topic_CountConnByTopic ts (tpc s)))) Cmd_TopicUniqIdCount k)"
    "topicCustomerIdCount qe (Some ts) (s, k) = (s, send qe (TopicCustomerIdCountResp ?n) Cmd_TopicCustomerIdCount k)"
    by (simp_all add: topicUniqIdList_def topicCustomerIdList_def topicUniqIdCount_def topicCustomerIdCount_def)
  note h = this topic_answers [OF assms] topic_counts [OF assms] customer_counts [OF assms]
  show ?thesis by (intro exI conjI allI; (rule h)?)
qed

theorem topic_queries_exact_witness:
  "\<exists>us. topicUniqIdList \<lparr>qmarshal = (\<lambda>_. Some []), qwrite = (\<lambda>_. WOk)\<rparr> (Some [''b'']) (sample_gw, \<lparr>tcWire = [], tcWrites = 0, tcClosed = False\<rparr>)
      = (sample_gw, send \<lparr>qmarshal = (\<lambda>_. Some []), qwrite = (\<lambda>_. WOk)\<rparr> (TopicUniqIdListResp us) Cmd_TopicUniqIdList
           \<lparr>tcWire = [], tcWrites = 0, tcClosed = False\<rparr>) \<and>
     entry_of (map_of us ''b'') (uids sample_gw (subscribers sample_gw ''b''))"
proof -
  have "gw_ok (idTemplate sample_env) sample_gw" using sample_gw_ok(1) by (simp add: inv_def)
  from topic_queries_exact [OF this, where ts = "[''b'']" and qe = "\<lparr>qmarshal = (\<lambda>_. Some []), qwrite = (\<lambda>_. WOk)\<rparr>"
      and k = "\<lparr>tcWire = [], tcWrites = 0, tcClosed = False\<rparr>"]
  obtain us where "topicUniqIdList \<lparr>qmarshal = (\<lambda>_. Some []), qwrite = (\<lambda>_. WOk)\<rparr> (Some [''b'']) (sample_gw, \<lparr>tcWire = [], tcWrites = 0, tcClosed = False\<rparr>)
      = (sample_gw, send \<lparr>qmarshal = (\<lambda>_. Some []), qwrite = (\<lambda>_. WOk)\<rparr> (TopicUniqIdListResp us) Cmd_TopicUniqIdList
           \<lparr>tcWire = [], tcWrites = 0, tcClosed = False\<rparr>)"
    "entry_of (map_of us ''b'') (if ''b'' \<in> set [''b''] then uids sample_gw (subscribers sample_gw ''b'') else {})"
    by blast
  then show ?thesis by auto
qed

text \<open>
  \<^verbatim>\<open>topicCustomerIdToUniqIdsList\<close> does not list the connections of the topic per customer: for every customer id of a subscriber it lists
  all the connections bound to that customer id, also those that are not subscribed to the topic.
\<close>

theorem topic_customers_all_connections:
  assumes "gw_ok t s"
  shows "\<exists>items. topicCustomerIdToUniqIdsList qe (Some ts) (s, k)
        = (s, send qe (TopicCustomerIdToUniqIdsListResp items) Cmd_TopicCustomerIdToUniqIdsList k) \<and>
     (\<forall>tp. (map_of items tp = None \<longleftrightarrow> tp \<notin> set ts \<or> subscribers s tp = {}) \<and>
        (\<forall>m x. map_of items tp = Some m \<longrightarrow>
           entry_of (map_of m x) (if x \<in> cids s (subscribers s tp) then uids s (boundTo s x) else {})))"
proof -
  let ?L = "nilMap (Topic_GetConnListByTopics ts (tpc s))"
  let ?B = "\<lambda>cs. Binder_GetConnListByCustomerIds (GetCustomerIds s cs) (bnd s)"
  let ?i = "perTopic (\<lambda>cs. perTopic (GetUniqIds s) (?B cs)) ?L"
  note at = perTopic_at [OF topic_conns(2) [OF assms, of ts]]
  have "topicCustomerIdToUniqIdsList qe (Some ts) (s, k) = (s, send qe (TopicCustomerIdToUniqIdsListResp ?i) Cmd_TopicCustomerIdToUniqIdsList k)"
    by (simp add: topicCustomerIdToUniqIdsList_def)
  moreover have "(map_of ?i tp = None \<longleftrightarrow> tp \<notin> set ts \<or> subscribers s tp = {}) \<and>
      (\<forall>m x. map_of ?i tp = Some m \<longrightarrow> entry_of (map_of m x) (if x \<in> cids s (subscribers s tp) then uids s (boundTo s x) else {}))" for tp
  proof (cases "map_of ?L tp")
    case None
    then show ?thesis using entry_dom [OF topic_conns(1) [OF assms, of ts tp]] by (auto simp: at split: if_splits)
  next
    case (Some cs)
    have ex: "tp \<in> set ts" "subscribers s tp \<noteq> {}" "exactly cs (subscribers s tp)"
      using topic_conns(1) [OF assms, of ts tp] Some by (auto simp: entry_of_def split: if_splits)
    have cs: "set (GetCustomerIds s cs) = cids s (subscribers s tp)"
      using customers_exactly [OF ex(3), of s] by (simp add: GetCustomerIds_eq exactly_def)
    have "entry_of (map_of (perTopic (GetUniqIds s) (?B cs)) x) (if x \<in> cids s (subscribers s tp) then uids s (boundTo s x) else {})" for x
    proof -
      have "map_of (?B cs) x = (if x \<in> cids s (subscribers s tp) then map_option (map snd) (sh_get hashCustomerId (bnd s) x) else None)"
        unfolding Binder_GetConnListByCustomerIds_at(1) cs by auto
      moreover have "inj_on (\<lambda>c. uniqId (inf s c)) (boundTo s x)"
        by (rule inj_on_subset [OF uniqIds_inj [OF assms]]) (auto simp: boundTo_def)
      ultimately show ?thesis
        unfolding perTopic_at [OF Binder_GetConnListByCustomerIds_at(2)] GetUniqIds_eq [abs_def]
        using entry_map [OF customer_entry [OF assms, of x]] by (cases "x \<in> cids s (subscribers s tp)") auto
    qed
    then show ?thesis using Some ex by (simp add: at)
  qed
  ultimately show ?thesis by blast
qed

text \<open>Both connections bound to one customer id, the second one not subscribed to \<open>b\<close>.\<close>

definition shared_gw :: "unit gw" where "shared_gw = rebind 1 ''u'' sample_gw"

lemma shared_gw_facts:
  "gw_ok (idTemplate sample_env) shared_gw" "subscribers shared_gw ''b'' = {0}" "boundTo shared_gw ''u'' = {0, 1}"
proof -
  have ok: "gw_ok (idTemplate sample_env) sample_gw" using sample_gw_ok(1) by (simp add: inv_def)
  have g: "good (idTemplate sample_env) sample_gw shared_gw"
    unfolding shared_gw_def by (rule good_rebind [OF good_refl [OF ok] sample_gw_ok(3)]) simp
  then have on: "online shared_gw c = online sample_gw c" for c using keeps_online by (auto simp: good_def)
  have lt: "online sample_gw c \<longleftrightarrow> c = 0 \<or> c = 1" for c
    using online_lt [OF ok, of c] sample_gw_ok(2,3) by (auto simp: sample_info(4))
  have i: "getTopics (inf shared_gw c) = getTopics (inf sample_gw c)"
    "customerId (inf shared_gw c) = (if c = 1 then ''u'' else customerId (inf sample_gw c))" for c
    by (simp_all add: shared_gw_def rebind_def updInfo_def Let_def)
  show "gw_ok (idTemplate sample_env) shared_gw" using g by (simp add: good_def)
  show "subscribers shared_gw ''b'' = {0}"
  proof -
    have "c \<in> subscribers shared_gw ''b'' \<longleftrightarrow> c = 0" for c
      unfolding subscribers_def mem_Collect_eq on lt i by (cases "c = 0"; cases "c = 1") (simp_all add: sample_topics del: One_nat_def)
    then show ?thesis by blast
  qed
  show "boundTo shared_gw ''u'' = {0, 1}"
  proof -
    have "c \<in> boundTo shared_gw ''u'' \<longleftrightarrow> c = 0 \<or> c = 1" for c
      unfolding boundTo_def mem_Collect_eq on lt i by (cases "c = 0"; cases "c = 1") (simp_all add: sample_topics del: One_nat_def)
    then show ?thesis by blast
  qed
qed

theorem topic_customers_all_connections_witness:
  "\<exists>items m. snd (topicCustomerIdToUniqIdsList \<lparr>qmarshal = (\<lambda>_. Some []), qwrite = (\<lambda>_. WOk)\<rparr> (Some [''b''])
        (shared_gw, \<lparr>tcWire = [], tcWrites = 0, tcClosed = False\<rparr>))
      = send \<lparr>qmarshal = (\<lambda>_. Some []), qwrite = (\<lambda>_. WOk)\<rparr> (TopicCustomerIdToUniqIdsListResp items)
          Cmd_TopicCustomerIdToUniqIdsList \<lparr>tcWire = [], tcWrites = 0, tcClosed = False\<rparr> \<and>
     subscribers shared_gw ''b'' = {0} \<and> map_of items ''b'' = Some m \<and>
     entry_of (map_of m ''u'') {uniqId (inf shared_gw 0), uniqId (inf shared_gw 1)}"
proof -
  let ?q = "\<lparr>qmarshal = (\<lambda>_. Some []), qwrite = (\<lambda>_. WOk)\<rparr>" and ?k = "\<lparr>tcWire = [], tcWrites = 0, tcClosed = False\<rparr>"
  from topic_customers_all_connections [OF shared_gw_facts(1), of ?q "[''b'']" ?k]
  obtain items where i: "topicCustomerIdToUniqIdsList ?q (Some [''b'']) (shared_gw, ?k)
      = (shared_gw, send ?q (TopicCustomerIdToUniqIdsListResp items) Cmd_TopicCustomerIdToUniqIdsList ?k)"
    "\<And>tp. map_of items tp = None \<longleftrightarrow> tp \<notin> set [''b''] \<or> subscribers shared_gw tp = {}"
    "\<And>tp m x. map_of items tp = Some m \<Longrightarrow>
       entry_of (map_of m x) (if x \<in> cids shared_gw (subscribers shared_gw tp) then uids shared_gw (boundTo shared_gw x) else {})"
    by blast
  obtain m where m: "map_of items ''b'' = Some m" using i(2) [of "''b''"] shared_gw_facts(2) by auto
  have "''u'' \<in> cids shared_gw (subscribers shared_gw ''b'')"
    using shared_gw_facts(2,3) boundTo_iff [of 0 shared_gw "''u''"] by simp
  then have "entry_of (map_of m ''u'') (uids shared_gw {0, 1})" using i(3) [OF m, of "''u''"] shared_gw_facts(3) by simp
  then show ?thesis using i(1) m shared_gw_facts(2) by auto
qed

lemma connInfo_items:
  "map_of (fold (\<lambda>u items. case g u of None \<Rightarrow> items | Some c \<Rightarrow> AList.update u (f c) items) us acc) u
   = (if u \<in> set us \<and> g u \<noteq> None then map_option f (g u) else map_of acc u)"
  by (induction us arbitrary: acc) (auto split: option.splits)

lemma fold_filter_snoc: "fold (\<lambda>u acc. if P u then acc @ [u] else acc) us acc = acc @ filter P us"
  by (induction us arbitrary: acc) auto

lemma customer_items:
  assumes "gm_ok m" "\<And>l. l \<in> snd ` set m \<Longrightarrow> l \<noteq> []"
  shows "map_of (fold (\<lambda>(x, l) ret. let items = fold (\<lambda>c items. items @ [f c]) l []
      in if length items > 0 then AList.update x items ret else ret) m acc) k
    = (case map_of m k of None \<Rightarrow> map_of acc k | Some l \<Rightarrow> Some (map f l))"
  using assms
proof (induction m arbitrary: acc)
  case (Cons e m)
  obtain x l where e: "e = (x, l)" by (cases e)
  then have "x \<notin> fst ` set m" "l \<noteq> []" using Cons.prems by auto
  then have "map_of m x = None" "l \<noteq> []" by (simp_all add: map_of_eq_None_iff)
  then show ?case
    using Cons.IH [of "AList.update x (map f l) acc"] Cons.prems e
    by (cases "k = x") (simp_all add: fold_snoc_id split: option.splits)
qed simp

text \<open>An item carries what the request asks for.\<close>

lemma GetConnInfo_item:
  "GetConnInfoOnSafe (ConnInfoReq.truncate p) r emptyItem
     = \<lparr>respSession = (if ReqSession p then session r else ''''), respCustomerId = (if ReqCustomerId p then customerId r else ''''),
        respUniqId = '''', respTopics = (if ReqTopic p then getTopics r else [])\<rparr>"
  "GetConnInfoByCustomerIdOnSafe (ConnInfoReq.truncate p) r emptyItem
     = \<lparr>respSession = (if ReqSession p then session r else ''''), respCustomerId = '''',
        respUniqId = (if ReqUniqId p then uniqId r else ''''), respTopics = (if ReqTopic p then getTopics r else [])\<rparr>"
  by (simp_all add: GetConnInfoOnSafe_def GetConnInfoByCustomerIdOnSafe_def emptyItem_def ConnInfoReq.truncate_def Let_def)

lemma manager_get_online: "gw_ok t s \<Longrightarrow> Manager_Get u (mgr s) = Some c \<longleftrightarrow> online s c \<and> uniqId (inf s c) = u"
  using gw_okD(6) [of t s] online_Get [of t s] by (auto simp: online_def)

lemma connInfo_at:
  assumes "gw_ok t s"
  shows "case map_of (fold (\<lambda>u items. case Manager_Get u (mgr s) of None \<Rightarrow> items | Some c \<Rightarrow> AList.update u (f c) items) us []) u of
       None \<Rightarrow> u \<notin> set us \<or> (\<nexists>c. online s c \<and> uniqId (inf s c) = u)
     | Some i \<Rightarrow> u \<in> set us \<and> (\<exists>c. online s c \<and> uniqId (inf s c) = u \<and> i = f c)"
proof (cases "Manager_Get u (mgr s)")
  case None
  then have "\<nexists>c. online s c \<and> uniqId (inf s c) = u" using manager_get_online [OF assms] by (metis option.distinct(1))
  then show ?thesis unfolding connInfo_items None by simp
next
  case (Some c)
  then have "online s c \<and> uniqId (inf s c) = u" using manager_get_online [OF assms] by blast
  then show ?thesis unfolding connInfo_items Some by auto
qed

text \<open>The connections bound to the given customer ids.\<close>

lemma customer_conns:
  assumes "gw_ok t s"
  shows "case map_of (Binder_GetConnListByCustomerIds xs (bnd s)) x of
       None \<Rightarrow> x \<notin> set xs \<or> boundTo s x = {}
     | Some cs \<Rightarrow> x \<in> set xs \<and> cs \<noteq> [] \<and> exactly cs (boundTo s x)"
  using customer_entry [OF assms, of x] unfolding Binder_GetConnListByCustomerIds_at(1)
  by (auto simp: entry_of_def boundTo_def exactly_def split: option.splits if_splits)

lemma connInfoByCustomerId_at:
  assumes "gw_ok t s"
  shows "case map_of (fold (\<lambda>(x, l) ret. let items = fold (\<lambda>c items. items @ [f c]) l []
      in if length items > 0 then AList.update x items ret else ret) (Binder_GetConnListByCustomerIds xs (bnd s)) []) x of
       None \<Rightarrow> x \<notin> set xs \<or> boundTo s x = {}
     | Some is \<Rightarrow> x \<in> set xs \<and> (\<exists>cs. exactly cs (boundTo s x) \<and> is = map f cs)"
proof -
  let ?B = "Binder_GetConnListByCustomerIds xs (bnd s)"
  have ne: "l \<noteq> []" if mem: "l \<in> snd ` set ?B" for l
  proof -
    obtain y where "(y, l) \<in> set ?B" using mem by auto
    then have "map_of ?B y = Some l" by (rule map_of_is_SomeI [OF Binder_GetConnListByCustomerIds_at(2)])
    then show ?thesis using customer_conns [OF assms, where xs = xs and x = y] by simp
  qed
  have l: "map_of (fold (\<lambda>(x, l) ret. let items = fold (\<lambda>c items. items @ [f c]) l []
      in if length items > 0 then AList.update x items ret else ret) ?B []) x = map_option (map f) (map_of ?B x)"
    by (rule trans [OF customer_items [OF Binder_GetConnListByCustomerIds_at(2) ne]]) (simp_all split: option.split)
  show ?thesis
    unfolding l using customer_conns [OF assms, where xs = xs and x = x] by (cases "map_of ?B x") auto
qed

text \<open>
  The queries about connections report what is asked for and only that: \<^verbatim>\<open>checkOnline\<close> the given ids that are in the manager, in
  order; \<^verbatim>\<open>connInfo\<close> an item for each of the ids that is in the manager; \<^verbatim>\<open>connInfoByCustomerId\<close> for every given
  customer id that is bound one item per connection bound to it.
\<close>

theorem connection_queries_exact:
  assumes "gw_ok t s"
  shows "\<exists>items lists.
     checkOnline qe (Some us) (s, k) = (s, send qe (CheckOnlineResp (filter (\<lambda>u. \<exists>c. online s c \<and> uniqId (inf s c) = u) us)) Cmd_CheckOnline k) \<and>
     connInfo qe (Some p) (s, k) = (s, send qe (ConnInfoResp items) Cmd_ConnInfo k) \<and>
     connInfoByCustomerId qe (Some p) (s, k) = (s, send qe (ConnInfoByCustomerIdResp lists) Cmd_ConnInfoByCustomerId k) \<and>
     (\<forall>u. case map_of items u of
        None \<Rightarrow> u \<notin> set (ReqIds p) \<or> (\<nexists>c. online s c \<and> uniqId (inf s c) = u)
      | Some i \<Rightarrow> u \<in> set (ReqIds p) \<and> (\<exists>c. online s c \<and> uniqId (inf s c) = u \<and>
          i = \<lparr>respSession = (if ReqSession p then session (inf s c) else ''''),
               respCustomerId = (if ReqCustomerId p then customerId (inf s c) else ''''),
               respUniqId = '''', respTopics = (if ReqTopic p then getTopics (inf s c) else [])\<rparr>)) \<and>
     (\<forall>x. case map_of lists x of
        None \<Rightarrow> x \<notin> set (ReqIds p) \<or> boundTo s x = {}
      | Some is \<Rightarrow> x \<in> set (ReqIds p) \<and> (\<exists>cs. exactly cs (boundTo s x) \<and>
          is = map (\<lambda>c. \<lparr>respSession = (if ReqSession p then session (inf s c) else ''''), respCustomerId = '''',
               respUniqId = (if ReqUniqId p then uniqId (inf s c) else ''''),
               respTopics = (if ReqTopic p then getTopics (inf s c) else [])\<rparr>) cs))"
proof -
  have "Manager_Has u (mgr s) \<longleftrightarrow> (\<exists>c. online s c \<and> uniqId (inf s c) = u)" for u
    by (auto simp: Manager_Has_Get manager_get_online [OF assms, symmetric])
  then have 1: "checkOnline qe (Some us) (s, k)
      = (s, send qe (CheckOnlineResp (filter (\<lambda>u. \<exists>c. online s c \<and> uniqId (inf s c) = u) us)) Cmd_CheckOnline k)"
    by (simp add: checkOnline_def fold_filter_snoc)
  let ?R = "\<lambda>c. \<lparr>respSession = (if ReqSession p then session (inf s c) else ''''),
       respCustomerId = (if ReqCustomerId p then customerId (inf s c) else ''''),
       respUniqId = '''', respTopics = (if ReqTopic p then getTopics (inf s c) else [])\<rparr>"
  let ?S = "\<lambda>c. \<lparr>respSession = (if ReqSession p then session (inf s c) else ''''), respCustomerId = '''',
       respUniqId = (if ReqUniqId p then uniqId (inf s c) else ''''), respTopics = (if ReqTopic p then getTopics (inf s c) else [])\<rparr>"
  have 2: "connInfo qe (Some p) (s, k) = (s, send qe (ConnInfoResp (fold (\<lambda>u items. case Manager_Get u (mgr s) of None \<Rightarrow> items
      | Some c \<Rightarrow> AList.update u (?R c) items) (ReqIds p) [])) Cmd_ConnInfo k)"
    unfolding connInfo_def GetConnInfo_item by simp
  have 3: "connInfoByCustomerId qe (Some p) (s, k) = (s, send qe (ConnInfoByCustomerIdResp (fold (\<lambda>(x, l) ret.
      let items = fold (\<lambda>c items. items @ [?S c]) l [] in if length items > 0 then AList.update x items ret else ret)
      (Binder_GetConnListByCustomerIds (ReqIds p) (bnd s)) [])) Cmd_ConnInfoByCustomerId k)"
    by (simp add: connInfoByCustomerId_def GetConnInfo_item)
  show ?thesis
    using 1 2 3 connInfo_at [OF assms, where f = ?R and us = "ReqIds p"]
      connInfoByCustomerId_at [OF assms, where f = ?S and xs = "ReqIds p"] by blast
qed

theorem connection_queries_exact_witness:
  "checkOnline \<lparr>qmarshal = (\<lambda>_. Some []), qwrite = (\<lambda>_. WOk)\<rparr> (Some [''x'', uniqId (inf sample_gw 0)])
      (sample_gw, \<lparr>tcWire = [], tcWrites = 0, tcClosed = False\<rparr>)
   = (sample_gw, send \<lparr>qmarshal = (\<lambda>_. Some []), qwrite = (\<lambda>_. WOk)\<rparr>
       (CheckOnlineResp (filter (\<lambda>u. \<exists>c. online sample_gw c \<and> uniqId (inf sample_gw c) = u) [''x'', uniqId (inf sample_gw 0)]))
       Cmd_CheckOnline \<lparr>tcWire = [], tcWrites = 0, tcClosed = False\<rparr>)"
proof -
  have "gw_ok (idTemplate sample_env) sample_gw" using sample_gw_ok(1) by (simp add: inv_def)
  from connection_queries_exact [OF this] show ?thesis by blast
qed

section \<open>Properties of the loop\<close>



lemma turn_open:
  assumes "task_turn env te buf st = (r, st')" "answers_ok (tquery te) lim" "\<not> tcClosed (tcn st)"
  shows "r = None \<Longrightarrow> takeWhile (\<lambda>j. j \<noteq> Stop) (jobs te buf) = []" "r \<noteq> None \<Longrightarrow> \<not> tcClosed (tcn st')"
proof -
  have q: "tcClosed (snd (run_query env (tquery te) q (s, k))) = tcClosed k" for q s k
  proof (cases "decodable q")
    case True
    then obtain m where "snd (run_query env (tquery te) q (s, k)) = send (tquery te) m (query_cmd q) k" using run_query_answers by blast
    then show ?thesis using send_ok [OF assms(2)] by auto
  qed (simp add: run_query_undecodable)
  show "r = None \<Longrightarrow> takeWhile (\<lambda>j. j \<noteq> Stop) (jobs te buf) = []"
  proof -
    assume "r = None"
    then have "turn_job te buf st = Stop" using turn_cases [OF assms(1)] by auto
    then show ?thesis
      using assms(3) by (cases "read_packet (tLimit te) buf")
        (auto simp: turn_job_def jobs_def read_all.simps [of _ buf])
  qed
  show "r \<noteq> None \<Longrightarrow> \<not> tcClosed (tcn st')"
    using turn_cases [OF assms(1)] assms(3) q by (auto split: job.splits)
qed

lemma Process_run_jobs:
  assumes "answers_ok (tquery te) lim" "\<not> tcClosed (tcn st)"
  shows "\<exists>es. task_run env sv te (Some buf, st, en) es (None, Process env te buf st, en) \<and>
     jobs_done es = takeWhile (\<lambda>j. j \<noteq> Stop) (jobs te buf) @ [Stop]"
  using assms
proof (induction env te buf st rule: Process.induct)
  case (1 env te buf st)
  obtain r st' where t: "task_turn env te buf st = (r, st')" by fastforce
  note s = task_step.turn [OF t, of sv en] and o = turn_open [OF t 1(2,3)] and j = turn_jobs [OF t]
  show ?case
  proof (cases r)
    case None
    then have "Process env te buf st = st'" by (simp add: Process.simps [of env te buf] t)
    moreover have "task_run env sv te (Some buf, st, en) ([] @ [EvJob Stop]) (None, st', en)"
      using s None j by (intro task_run.more [OF task_run.stay]) simp
    moreover have "jobs_done ([] @ [EvJob Stop]) = [Stop]" unfolding jobs_simps by simp
    ultimately show ?thesis using o(1) [OF None] by (metis append_Nil)
  next
    case (Some rest)
    obtain es where es: "task_run env sv te (Some rest, st', en) es (None, Process env te rest st', en)"
      "jobs_done es = takeWhile (\<lambda>j. j \<noteq> Stop) (jobs te rest) @ [Stop]"
      using 1(1) [OF t [symmetric] Some 1(2)] o(2) Some by blast
    have p: "Process env te buf st = Process env te rest st'" by (simp add: Process.simps [of env te buf] t Some)
    have n: "turn_job te buf st \<noteq> Stop" "jobs te buf = turn_job te buf st # jobs te rest" using j Some by auto
    have "jobs_done (EvJob (turn_job te buf st) # es) = turn_job te buf st # jobs_done es" by (simp add: jobs_done_def)
    then have "jobs_done (EvJob (turn_job te buf st) # es) = takeWhile (\<lambda>j. j \<noteq> Stop) (jobs te buf) @ [Stop]"
      using es(2) n by simp
    then show ?thesis using task_run_first [OF es(1)] s Some p by metis
  qed
qed


section \<open>A concrete stream\<close>

definition sample_dec :: task_decode where
  "sample_dec = \<lparr>uConnInfoUpdate = (\<lambda>_. None), uConnInfoDelete = (\<lambda>_. None), uBroadcastBulk = (\<lambda>b. Some [b]), uSingleCastBulk = (\<lambda>_. None),
     uSingleCastBulkByCustomerId = (\<lambda>_. None), uTopicSubscribe = (\<lambda>_. None), uTopicUnsubscribe = (\<lambda>_. None), uTopicDelete = (\<lambda>_. None),
     uTopicPublishBulk = (\<lambda>_. None), uForceOffline = (\<lambda>_. None), uForceOfflineByCustomerId = (\<lambda>_. None), uForceOfflineGuest = (\<lambda>_. None),
     uCheckOnlineReq = (\<lambda>_. None), uConnInfoReq = (\<lambda>_. None), uConnInfoByCustomerIdReq = (\<lambda>_. None), uLimitReq = (\<lambda>_. None),
     uTopicCustomerIdCountReq = (\<lambda>_. None), uTopicCustomerIdListReq = (\<lambda>_. None), uTopicCustomerIdToUniqIdsListReq = (\<lambda>_. None),
     uTopicUniqIdCountReq = (\<lambda>_. None), uTopicUniqIdListReq = (\<lambda>_. None)\<rparr>"

definition sample_te :: task_env where
  "sample_te = \<lparr>tdec = sample_dec, tquery = \<lparr>qmarshal = (\<lambda>_. Some []), qwrite = (\<lambda>_. WOk)\<rparr>, tLimit = 100, tHeartbeat = [112]\<rparr>"

text \<open>A broadcast, a query, a command nobody knows, and another query that is not reached.\<close>

definition sample_cmds :: "cmd list" where
  "sample_cmds = [Cmd_BroadcastBulk, Cmd_TopicCount, 7, Cmd_TopicList]"

definition sample_stream :: bytes where
  "sample_stream = concat (map (\<lambda>(m, c, p). wire p) (map (\<lambda>c. ((), c, \<lparr>pheader = PutUint32 4 @ PutUint32 c, pbody = []\<rparr>)) sample_cmds))"

definition sample_task :: "unit task_st" where
  "sample_task = \<lparr>tgw = gw_init 7 (\<lambda>_. nilLimit) sample_workers (Metrics_init None), tpool = [],
     tcn = \<lparr>tcWire = [], tcWrites = 0, tcClosed = False\<rparr>\<rparr>"

lemma sample_classify: "classify [112] (PutUint32 c) = Command c []"
proof -
  have "length [112 :: u8] \<noteq> length (PutUint32 c)" by simp
  then have "[112] \<noteq> PutUint32 c @ ([] :: bytes)" by (metis append_Nil2)
  then show ?thesis using classify_set [of "[112]" c "[]"] by simp
qed

lemma sample_jobs: "jobs sample_te sample_stream = [Cast (CmdBroadcastBulk (Some [[]])), Ask QTopicCount, Stop, Ask QTopicList]"
proof -
  have "read_all 100 sample_stream = map PutUint32 sample_cmds"
    unfolding sample_stream_def
    by (subst read_all_set [where marshal = "\<lambda>_. Some []"]) (auto simp: packet_set_def sample_cmds_def)
  then have "jobs sample_te sample_stream = map (\<lambda>c. job_of sample_dec [112] (PutUint32 c)) sample_cmds"
    by (simp add: jobs_def sample_te_def)
  then show ?thesis
    by (simp add: sample_cmds_def job_of_def sample_classify postNonBlockingCallback_def postBlockingCallback_def getCallback_def
        sample_dec_def Cmd_BroadcastBulk_def Cmd_TopicCount_def Cmd_TopicList_def Cmd_TopicPublishBulk_def Cmd_SingleCastBulk_def
        Cmd_SingleCastBulkByCustomerId_def Cmd_ConnInfoUpdate_def Cmd_ConnInfoDelete_def Cmd_ForceOffline_def
        Cmd_ForceOfflineByCustomerId_def Cmd_ForceOfflineGuest_def Cmd_TopicSubscribe_def Cmd_TopicUnsubscribe_def Cmd_TopicDelete_def
        Cmd_UniqIdList_def Cmd_UniqIdCount_def Cmd_TopicUniqIdList_def Cmd_TopicUniqIdCount_def Cmd_ConnInfo_def
        Cmd_ConnInfoByCustomerId_def Cmd_Metrics_def Cmd_CheckOnline_def Cmd_Limit_def Cmd_CustomerIdCount_def Cmd_CustomerIdList_def
        Cmd_TopicCustomerIdList_def Cmd_TopicCustomerIdCount_def Cmd_TopicCustomerIdToUniqIdsList_def)
qed

lemma sample_task_facts:
  "answers_ok (tquery sample_te) 100" "\<not> tcClosed (tcn sample_task)" "tpool sample_task = []" "tcWire (tcn sample_task) = []"
  "gw_reach quick_env sample_srv (tgw sample_task, {})"
  by (simp_all add: answers_ok_def sample_te_def sample_task_def gw_reach.start)




end
