(* ===== verification/EventMeters.thy ===== *)
theory EventMeters
  imports Metrics
begin

text \<open>
  What it means that the meters of an event queue are right: of the packets handed to a queue, the delivered ones and their bytes and the
  failed ones have been counted since an earlier registry. The Redis and the AMQP queue have three meters each.
\<close>

type_synonym meters = "Item \<times> Item \<times> Item"

definition redisMeters :: meters where
  "redisMeters = (ItemRedisQueueToBusinessSucceedCount, ItemRedisQueueToBusinessSucceedByte, ItemRedisQueueToBusinessFailedCount)"

definition amqpMeters :: meters where
  "amqpMeters = (ItemAMQP091ToBusinessSucceedCount, ItemAMQP091ToBusinessSucceedByte, ItemAMQP091ToBusinessFailedCount)"

definition metered :: "meters \<Rightarrow> metricsRegistry \<Rightarrow> bool" where
  "metered = (\<lambda>(succeeded, bytes, failed) r. r succeeded \<noteq> NilMeter \<and> r bytes \<noteq> NilMeter \<and> r failed \<noteq> NilMeter)"

definition counted :: "meters \<Rightarrow> metricsRegistry \<Rightarrow> metricsRegistry \<Rightarrow> bytes list \<Rightarrow> bytes list \<Rightarrow> bool" where
  "counted = (\<lambda>(succeeded, byteCount, failed) r0 r ok bad.
     meterCount (r succeeded) = meterCount (r0 succeeded) + int (length ok) \<and>
     meterCount (r byteCount) = meterCount (r0 byteCount) + int (sum_list (map length ok)) \<and>
     meterCount (r failed) = meterCount (r0 failed) + int (length bad))"

lemma metered_Mark [simp]: "metered ms (Mark i n r) = metered ms r"
  by (simp add: metered_def case_prod_unfold)

lemma counted_fail:
  assumes "metered (a, b, c) r" "counted (a, b, c) r0 r ok bad" "c \<notin> {a, b}" "n = int (length ps)"
  shows "counted (a, b, c) r0 (Mark c n r) ok (bad @ ps)"
  using assms by (auto simp: counted_def metered_def Mark_counts)

lemma counted_succeed:
  assumes "metered (a, b, c) r" "counted (a, b, c) r0 r ok bad" "c \<notin> {a, b}" "a \<noteq> b" "n = int (length ps)" "m = int (sum_list (map length ps))"
  shows "counted (a, b, c) r0 (Mark b m (Mark a n r)) (ok @ ps) bad"
  using assms by (auto simp: counted_def metered_def Mark_counts)

lemma redis_fail:
  "metered redisMeters r \<Longrightarrow> counted redisMeters r0 r ok bad \<Longrightarrow> n = int (length ps) \<Longrightarrow>
   counted redisMeters r0 (Mark ItemRedisQueueToBusinessFailedCount n r) ok (bad @ ps)"
  unfolding redisMeters_def by (rule counted_fail) simp_all

lemma redis_succeed:
  "metered redisMeters r \<Longrightarrow> counted redisMeters r0 r ok bad \<Longrightarrow> n = int (length ps) \<Longrightarrow> m = int (sum_list (map length ps)) \<Longrightarrow>
   counted redisMeters r0 (Mark ItemRedisQueueToBusinessSucceedByte m (Mark ItemRedisQueueToBusinessSucceedCount n r)) (ok @ ps) bad"
  unfolding redisMeters_def by (rule counted_succeed) simp_all

lemma amqp_fail:
  "metered amqpMeters r \<Longrightarrow> counted amqpMeters r0 r ok bad \<Longrightarrow> n = int (length ps) \<Longrightarrow>
   counted amqpMeters r0 (Mark ItemAMQP091ToBusinessFailedCount n r) ok (bad @ ps)"
  unfolding amqpMeters_def by (rule counted_fail) simp_all

lemma amqp_succeed:
  "metered amqpMeters r \<Longrightarrow> counted amqpMeters r0 r ok bad \<Longrightarrow> n = int (length ps) \<Longrightarrow> m = int (sum_list (map length ps)) \<Longrightarrow>
   counted amqpMeters r0 (Mark ItemAMQP091ToBusinessSucceedByte m (Mark ItemAMQP091ToBusinessSucceedCount n r)) (ok @ ps) bad"
  unfolding amqpMeters_def by (rule counted_succeed) simp_all

lemma metered_on: "metered ms (\<lambda>_. StandardMeter n)"
  by (simp add: metered_def case_prod_unfold)

lemma counted_refl: "counted ms r r [] []"
  by (simp add: counted_def case_prod_unfold)

end
