(* ===== verification/RedisSink.thy ===== *)
theory RedisSink
  imports Worker EventMeters
begin

text \<open>
  The Redis queue that events are handed to, \<^verbatim>\<open>src/internal/queue/redisQueue/queue.go\<close> with the packets of
  \<^verbatim>\<open>src/internal/queue/internal/packet.go\<close>. Packets wait in the ring queue (\<open>RingQueue\<close>; here the bounded
  FIFO queue it refines); the sending loop submits what it takes out to the goroutine pool, whose tasks
  write to Redis. The client \<^verbatim>\<open>go-redis\<close> is a parameter: every call of it may succeed or fail, command by command.
\<close>

section \<open>Packets\<close>

text \<open>\<^verbatim>\<open>Packet.Set\<close>: four bytes of command and the marshalled message; no length, the list has its own boundaries.\<close>

definition Packet_Set :: "('m \<Rightarrow> bytes option) \<Rightarrow> 'm \<Rightarrow> cmd \<Rightarrow> bytes option" where
  "Packet_Set marshal message c = (case marshal message of None \<Rightarrow> None | Some b \<Rightarrow> Some (PutUint32 c @ b))"

lemma Packet_Set_length: "Packet_Set marshal m c = Some p \<Longrightarrow> 4 \<le> length p"
  by (auto simp: Packet_Set_def split: option.splits)

section \<open>State\<close>

text \<open>A client of \<^verbatim>\<open>go-redis\<close>, by the options it is made with.\<close>

record rclient =
  rcAddr :: string
  rcPassword :: string
  rcDB :: int

record rqueue =
  rqCloseLock :: bool
  rqSendCh :: "bytes list"
  rqSendClosed :: bool
  rqCloseTimer :: bool
  rqStream :: bool
  rqDequeueSize :: nat
  rqClient :: rclient
  rqRedisKey :: string
  rqRedisDB :: int

text \<open>A task of the goroutine pool: one call of the batch or of the single mode.\<close>

datatype rjob = RBatch "bytes list" nat | RSingle bytes

text \<open>
  The outcome of one call: \<^verbatim>\<open>err != nil\<close>, for every command whether its error is nil, and whether Redis has executed it.
\<close>

record exec_out =
  exErr :: bool
  exCmds :: "bool list"
  exApplied :: "bool list"

text \<open>The queue, the pool, what Redis holds under the key (the left end first), the loop and the process's context.\<close>

record rsys =
  rsQ :: rqueue
  rsPool :: "rjob list"
  rsStore :: "bytes list"
  rsReg :: metricsRegistry
  rsLoopDone :: bool
  rsCancelled :: bool

record redis_env =
  rMarshal :: "message \<Rightarrow> bytes option"
  rReceivePackLimit :: nat

text \<open>An unknown key type panics, \<open>None\<close>; the key type decides which of the writing modes the loop is started with.\<close>

definition newRQueue :: "rclient \<Rightarrow> string \<Rightarrow> int \<Rightarrow> string \<Rightarrow> nat \<Rightarrow> rqueue option" where
  "newRQueue redisClient key db keyType dequeueSize =
     (if keyType = ''list'' \<or> keyType = ''stream''
      then Some \<lparr>rqCloseLock = False, rqSendCh = [], rqSendClosed = False, rqCloseTimer = False,
                 rqStream = (keyType = ''stream''), rqDequeueSize = dequeueSize,
                 rqClient = redisClient, rqRedisKey = key, rqRedisDB = db\<rparr>
      else None)"

section \<open>Handing in\<close>

definition RQueue_Send :: "redis_env \<Rightarrow> message \<Rightarrow> cmd \<Rightarrow> rsys \<Rightarrow> rsys" where
  "RQueue_Send env msg c s = (case Packet_Set (rMarshal env) msg c of
      None \<Rightarrow> s
    | Some pkg \<Rightarrow>
        let q = rsQ s
        in if \<not> rqSendClosed q \<and> length (rqSendCh q) < New_capacity 1024
           then s\<lparr>rsQ := q\<lparr>rqSendCh := rqSendCh q @ [pkg]\<rparr>\<rparr>
           else s\<lparr>rsReg := Mark ItemRedisQueueToBusinessFailedCount 1 (rsReg s)\<rparr>)"

section \<open>Writing to Redis\<close>

text \<open>\<^verbatim>\<open>LPUSH\<close> puts a message at the left end, \<^verbatim>\<open>XADD\<close> at the end of the stream.\<close>

definition push :: "bool \<Rightarrow> bytes \<Rightarrow> bytes list \<Rightarrow> bytes list" where
  "push stream m st = (if stream then st @ [m] else m # st)"

definition push_all :: "bool \<Rightarrow> (bytes \<times> bool) list \<Rightarrow> bytes list \<Rightarrow> bytes list" where
  "push_all stream ps st = fold (\<lambda>(m, applied) st. if applied then push stream m st else st) ps st"

text \<open>The statistics after \<^verbatim>\<open>pipe.Exec\<close>; the code of the list and of the stream mode is the same.\<close>

definition batch_marks :: "exec_out \<Rightarrow> bytes list \<Rightarrow> nat \<Rightarrow> metricsRegistry \<Rightarrow> metricsRegistry" where
  "batch_marks ex packets bytesSize reg =
     (if \<not> exErr ex
      then Mark ItemRedisQueueToBusinessSucceedByte (int bytesSize)
             (Mark ItemRedisQueueToBusinessSucceedCount (int (length packets)) reg)
      else if length (exCmds ex) \<noteq> length packets
      then Mark ItemRedisQueueToBusinessFailedCount (int (length packets)) reg
      else let (failedCount, succeedSize) =
                 fold (\<lambda>(ok, p) (f, s). if ok then (f, s + length p) else (f + 1, s)) (zip (exCmds ex) packets) (0 :: int, 0 :: nat);
               reg = Mark ItemRedisQueueToBusinessFailedCount failedCount reg
           in if succeedSize > 0
              then Mark ItemRedisQueueToBusinessSucceedByte (int succeedSize)
                     (Mark ItemRedisQueueToBusinessSucceedCount (int (length packets) - failedCount) reg)
              else reg)"

definition sendListBatchMode :: "exec_out \<Rightarrow> bytes list \<Rightarrow> nat \<Rightarrow> bytes list \<times> metricsRegistry \<Rightarrow> bytes list \<times> metricsRegistry" where
  "sendListBatchMode ex packets bytesSize = (\<lambda>(st, reg).
     (push_all False (zip packets (exApplied ex)) st, batch_marks ex packets bytesSize reg))"

definition sendStreamBatchMode :: "exec_out \<Rightarrow> bytes list \<Rightarrow> nat \<Rightarrow> bytes list \<times> metricsRegistry \<Rightarrow> bytes list \<times> metricsRegistry" where
  "sendStreamBatchMode ex packets bytesSize = (\<lambda>(st, reg).
     (push_all True (zip packets (exApplied ex)) st, batch_marks ex packets bytesSize reg))"

definition single_marks :: "bool \<Rightarrow> bytes \<Rightarrow> metricsRegistry \<Rightarrow> metricsRegistry" where
  "single_marks err p reg =
     (if err then Mark ItemRedisQueueToBusinessFailedCount 1 reg
      else Mark ItemRedisQueueToBusinessSucceedByte (int (length p)) (Mark ItemRedisQueueToBusinessSucceedCount 1 reg))"

definition sendListSingleMode :: "exec_out \<Rightarrow> bytes \<Rightarrow> bytes list \<times> metricsRegistry \<Rightarrow> bytes list \<times> metricsRegistry" where
  "sendListSingleMode ex p = (\<lambda>(st, reg).
     (push_all False (zip [p] (exApplied ex)) st, single_marks (exErr ex) p reg))"

definition sendStreamSingleMode :: "exec_out \<Rightarrow> bytes \<Rightarrow> bytes list \<times> metricsRegistry \<Rightarrow> bytes list \<times> metricsRegistry" where
  "sendStreamSingleMode ex p = (\<lambda>(st, reg).
     (push_all True (zip [p] (exApplied ex)) st, single_marks (exErr ex) p reg))"

definition run_rjob :: "exec_out \<Rightarrow> rjob \<Rightarrow> rsys \<Rightarrow> rsys" where
  "run_rjob ex j s =
     (let stream = rqStream (rsQ s);
          (st, reg) = (case j of
              RBatch ps bytesSize \<Rightarrow> (if stream then sendStreamBatchMode else sendListBatchMode) ex ps bytesSize (rsStore s, rsReg s)
            | RSingle p \<Rightarrow> (if stream then sendStreamSingleMode else sendListSingleMode) ex p (rsStore s, rsReg s))
      in s\<lparr>rsStore := st, rsReg := reg\<rparr>)"

section \<open>The loop\<close>

text \<open>Submitting to the pool may fail, which discards the packets.\<close>

definition submit :: "bool \<Rightarrow> rjob \<Rightarrow> int \<Rightarrow> rsys \<Rightarrow> rsys" where
  "submit ok j n s = (if ok then s\<lparr>rsPool := rsPool s @ [j]\<rparr>
     else s\<lparr>rsReg := Mark ItemRedisQueueToBusinessFailedCount n (rsReg s)\<rparr>)"

text \<open>
  One turn of \<^verbatim>\<open>loopSend\<close>; \<^verbatim>\<open>Dequeue\<close> returns nothing only when the queue is closed and empty, which ends the loop. \<open>oks\<close> says which
  submissions the pool takes.
\<close>

definition rloop_turn :: "redis_env \<Rightarrow> (nat \<Rightarrow> bool) \<Rightarrow> rsys \<Rightarrow> rsys" where
  "rloop_turn env oks s =
     (let q = rsQ s;
          packLimit = max (rReceivePackLimit env) (rqDequeueSize q * 2 * 1024);
          packets = take (rqDequeueSize q) (rqSendCh q);
          s = s\<lparr>rsQ := q\<lparr>rqSendCh := drop (rqDequeueSize q) (rqSendCh q)\<rparr>\<rparr>;
          count = length packets;
          bytesSize = sum_list (map length packets)
      in if count = 0 then s\<lparr>rsLoopDone := True\<rparr>
         else if bytesSize < packLimit then submit (oks 0) (RBatch packets bytesSize) (int count) s
         else fold (\<lambda>(i, p) s. submit (oks i) (RSingle p) 1 s) (zip [0..<count] packets) s)"

definition RQueue_Close :: "rsys \<Rightarrow> bool \<times> rsys" where
  "RQueue_Close s =
     (if rqCloseLock (rsQ s) then (False, s)
      else (True, s\<lparr>rsQ := (rsQ s)\<lparr>rqCloseLock := True, rqCloseTimer := True\<rparr>\<rparr>))"

text \<open>The timer of \<^verbatim>\<open>Close\<close>, 100 ms later.\<close>

definition RQueue_timer :: "rsys \<Rightarrow> rsys" where
  "RQueue_timer s = (if rqCloseTimer (rsQ s)
     then s\<lparr>rsQ := (rsQ s)\<lparr>rqSendClosed := True, rqCloseTimer := False\<rparr>\<rparr> else s)"

section \<open>Runs and what is counted\<close>

text \<open>
  Documented behaviour of the client: without an error every command was executed, and so was a command whose error is nil.
  With a cancelled context nothing is sent and every command fails.
\<close>

definition exec_laws :: "nat \<Rightarrow> bool \<Rightarrow> exec_out \<Rightarrow> bool" where
  "exec_laws n cancelled ex \<longleftrightarrow> length (exApplied ex) = n \<and>
     (\<not> exErr ex \<longrightarrow> exApplied ex = replicate n True) \<and>
     (length (exCmds ex) = n \<longrightarrow> (\<forall>j < n. exCmds ex ! j \<longrightarrow> exApplied ex ! j)) \<and>
     (cancelled \<longrightarrow> exErr ex \<and> exApplied ex = replicate n False)"

definition job_packets :: "rjob \<Rightarrow> bytes list" where
  "job_packets j = (case j of RBatch ps _ \<Rightarrow> ps | RSingle p \<Rightarrow> [p])"

text \<open>The packets that a call reports as delivered; the others are reported as failed.\<close>

definition reported :: "exec_out \<Rightarrow> rjob \<Rightarrow> bytes list" where
  "reported ex j = (case j of
      RSingle p \<Rightarrow> (if exErr ex then [] else [p])
    | RBatch ps _ \<Rightarrow> (if \<not> exErr ex then ps
        else if length (exCmds ex) \<noteq> length ps then []
        else map snd (filter fst (zip (exCmds ex) ps))))"

definition rejected :: "exec_out \<Rightarrow> rjob \<Rightarrow> bytes list" where
  "rejected ex j = (case j of
      RSingle p \<Rightarrow> (if exErr ex then [p] else [])
    | RBatch ps _ \<Rightarrow> (if \<not> exErr ex then []
        else if length (exCmds ex) \<noteq> length ps then ps
        else map snd (filter (\<lambda>(ok, _). \<not> ok) (zip (exCmds ex) ps))))"

text \<open>The packets that a turn of the loop loses because the pool refuses them.\<close>

definition turn_discards :: "redis_env \<Rightarrow> (nat \<Rightarrow> bool) \<Rightarrow> rsys \<Rightarrow> bytes list" where
  "turn_discards env oks s =
     (let packets = take (rqDequeueSize (rsQ s)) (rqSendCh (rsQ s))
      in if sum_list (map length packets) < max (rReceivePackLimit env) (rqDequeueSize (rsQ s) * 2 * 1024)
         then (if oks 0 then [] else packets)
         else map snd (filter (\<lambda>(i, _). \<not> oks i) (zip [0..<length packets] packets)))"

text \<open>
  A run: events are handed in, the loop turns when the queue is not empty or closed, pool tasks run in any order, the queue is
  closed and the process's context cancelled. Beside the state it records the packets handed in, delivered and failed.
\<close>

inductive redis_run :: "redis_env \<Rightarrow> rsys \<Rightarrow> rsys \<Rightarrow> bytes list \<Rightarrow> bytes list \<Rightarrow> bytes list \<Rightarrow> bool" for env s0 where
  start: "redis_run env s0 s0 [] [] []"
| send: "redis_run env s0 s sent ok bad \<Longrightarrow> Packet_Set (rMarshal env) m c = Some p \<Longrightarrow>
    redis_run env s0 (RQueue_Send env m c s) (sent @ [p]) ok
      (if \<not> rqSendClosed (rsQ s) \<and> length (rqSendCh (rsQ s)) < New_capacity 1024 then bad else bad @ [p])"
| unmarshalled: "redis_run env s0 s sent ok bad \<Longrightarrow> Packet_Set (rMarshal env) m c = None \<Longrightarrow>
    redis_run env s0 (RQueue_Send env m c s) sent ok bad"
| turn: "redis_run env s0 s sent ok bad \<Longrightarrow> \<not> rsLoopDone s \<Longrightarrow> rqSendCh (rsQ s) \<noteq> [] \<or> rqSendClosed (rsQ s) \<Longrightarrow>
    redis_run env s0 (rloop_turn env oks s) sent ok (bad @ turn_discards env oks s)"
| task: "redis_run env s0 s sent ok bad \<Longrightarrow> rsPool s = xs @ j # ys \<Longrightarrow> exec_laws (length (job_packets j)) (rsCancelled s) ex \<Longrightarrow>
    redis_run env s0 (run_rjob ex j (s\<lparr>rsPool := xs @ ys\<rparr>)) sent (ok @ reported ex j) (bad @ rejected ex j)"
| close: "redis_run env s0 s sent ok bad \<Longrightarrow> redis_run env s0 (snd (RQueue_Close s)) sent ok bad"
| timer: "redis_run env s0 s sent ok bad \<Longrightarrow> redis_run env s0 (RQueue_timer s) sent ok bad"
| cancel: "redis_run env s0 s sent ok bad \<Longrightarrow> redis_run env s0 (s\<lparr>rsCancelled := True\<rparr>) sent ok bad"

definition waiting :: "rsys \<Rightarrow> bytes list" where
  "waiting s = rqSendCh (rsQ s) @ concat (map job_packets (rsPool s))"

lemma batch_fold:
  "fold (\<lambda>(ok, p) (f, s). if ok then (f, s + length p) else (f + 1, s)) zs (f :: int, s :: nat)
   = (f + int (length (filter (\<lambda>(ok, _). \<not> ok) zs)), s + sum_list (map length (map snd (filter fst zs))))"
  by (induction zs arbitrary: f s) (auto simp: case_prod_unfold)

lemma filter_split_length: "length (filter fst zs) + length (filter (\<lambda>(ok, _). \<not> ok) zs) = length zs"
  by (induction zs) (auto simp: case_prod_unfold)

text \<open>Packets are never empty, so that \<^verbatim>\<open>succeedSize > 0\<close> means that some packet was delivered.\<close>

definition job_ok :: "rjob \<Rightarrow> bool" where
  "job_ok j \<longleftrightarrow> (\<forall>p \<in> set (job_packets j). 4 \<le> length p) \<and> (case j of RBatch ps n \<Rightarrow> n = sum_list (map length ps) | _ \<Rightarrow> True)"

lemma counted_batch:
  assumes m: "metered redisMeters r" and c: "counted redisMeters r0 r ok bad" and j: "job_ok (RBatch ps n)"
  shows "counted redisMeters r0 (batch_marks ex ps n r) (ok @ reported ex (RBatch ps n)) (bad @ rejected ex (RBatch ps n))"
proof (cases "exErr ex \<and> length (exCmds ex) = length ps")
  case True
  let ?zs = "zip (exCmds ex) ps"
  define good where "good = map snd (filter fst ?zs)"
  define lost where "lost = map snd (filter (\<lambda>(ok, _). \<not> ok) ?zs)"
  define tot where "tot = sum_list (map length good)"
  have rr: "reported ex (RBatch ps n) = good" "rejected ex (RBatch ps n) = lost"
    using True by (simp_all add: reported_def rejected_def good_def lost_def)
  have len: "int (length ps) - int (length lost) = int (length good)"
    using True filter_split_length [of ?zs] by (simp add: good_def lost_def)
  let ?r = "Mark ItemRedisQueueToBusinessFailedCount (int (length lost)) r"
  have "fold (\<lambda>(ok, p) (f, s). if ok then (f, s + length p) else (f + 1, s)) ?zs (0 :: int, 0 :: nat) = (int (length lost), tot)"
    by (simp add: batch_fold good_def lost_def tot_def)
  then have e: "batch_marks ex ps n r = (if tot > 0
      then Mark ItemRedisQueueToBusinessSucceedByte (int tot)
             (Mark ItemRedisQueueToBusinessSucceedCount (int (length good)) ?r) else ?r)"
    using True by (simp add: batch_marks_def Let_def len)
  have f: "counted redisMeters r0 ?r ok (bad @ lost)" by (rule redis_fail [OF m c refl])
  have pos: "good = []" if "tot = 0"
  proof (rule ccontr)
    assume "good \<noteq> []"
    then obtain x where x: "x \<in> set good" by (cases good) auto
    then have "x \<in> set ps" by (auto simp: good_def dest: set_zip_rightD)
    then have "4 \<le> length x" using j by (simp add: job_ok_def job_packets_def)
    moreover have "length x \<in> set (map length good)" using x by simp
    then have "length x \<le> sum_list (map length good)" by (rule member_le_sum_list) simp
    ultimately show False using that by (simp add: tot_def [symmetric])
  qed
  show ?thesis
  proof (cases "tot = 0")
    case z: True
    then show ?thesis unfolding rr e using f pos by simp
  next
    case False
    have "counted redisMeters r0 (Mark ItemRedisQueueToBusinessSucceedByte (int tot) (Mark ItemRedisQueueToBusinessSucceedCount (int (length good)) ?r))
        (ok @ good) (bad @ lost)"
      by (rule redis_succeed [OF _ f]) (simp_all add: m tot_def)
    then show ?thesis unfolding rr e using False by simp
  qed
next
  case False
  have n: "n = sum_list (map length ps)" using j by (simp add: job_ok_def)
  show ?thesis
    using False redis_fail [OF m c, of _ ps] redis_succeed [OF m c, of _ ps]
    by (auto simp: batch_marks_def reported_def rejected_def n)
qed

lemma counted_job:
  assumes "metered redisMeters (rsReg s)" "counted redisMeters r0 (rsReg s) ok bad" "job_ok j"
  shows "counted redisMeters r0 (rsReg (run_rjob ex j s)) (ok @ reported ex j) (bad @ rejected ex j)" "metered redisMeters (rsReg (run_rjob ex j s))"
proof -
  have "rsReg (run_rjob ex j s) = (case j of RBatch ps n \<Rightarrow> batch_marks ex ps n (rsReg s) | RSingle p \<Rightarrow> single_marks (exErr ex) p (rsReg s))"
    by (simp add: run_rjob_def sendListBatchMode_def sendStreamBatchMode_def sendListSingleMode_def sendStreamSingleMode_def Let_def
        split: rjob.splits)
  moreover have "counted redisMeters r0 (single_marks (exErr ex) p (rsReg s)) (ok @ reported ex (RSingle p)) (bad @ rejected ex (RSingle p))" for p
    using redis_fail [OF assms(1,2), of 1 "[p]"] redis_succeed [OF assms(1,2), of 1 "[p]" "int (length p)"]
    by (simp add: single_marks_def reported_def rejected_def)
  ultimately show "counted redisMeters r0 (rsReg (run_rjob ex j s)) (ok @ reported ex j) (bad @ rejected ex j)"
    using counted_batch [OF assms(1,2)] assms(3) by (cases j) simp_all
  show "metered redisMeters (rsReg (run_rjob ex j s))"
    using assms(1) by (simp add: run_rjob_def sendListBatchMode_def sendStreamBatchMode_def sendListSingleMode_def sendStreamSingleMode_def
        batch_marks_def single_marks_def case_prod_unfold Let_def split: rjob.splits)
qed

text \<open>What a turn of the loop does.\<close>

lemma submits:
  assumes "metered redisMeters (rsReg s)" "counted redisMeters r0 (rsReg s) ok bad"
    and s': "s' = fold (\<lambda>(i, p) s. submit (oks i) (RSingle p) 1 s) zs s"
  shows "rsQ s' = rsQ s" "rsStore s' = rsStore s" "rsCancelled s' = rsCancelled s" "metered redisMeters (rsReg s')"
    "rsPool s' = rsPool s @ map (\<lambda>(i, p). RSingle p) (filter (\<lambda>(i, _). oks i) zs)"
    "counted redisMeters r0 (rsReg s') ok (bad @ map snd (filter (\<lambda>(i, _). \<not> oks i) zs))"
proof -
  have "rsQ s' = rsQ s \<and> rsStore s' = rsStore s \<and> rsCancelled s' = rsCancelled s \<and> metered redisMeters (rsReg s') \<and>
    rsPool s' = rsPool s @ map (\<lambda>(i, p). RSingle p) (filter (\<lambda>(i, _). oks i) zs) \<and>
    counted redisMeters r0 (rsReg s') ok (bad @ map snd (filter (\<lambda>(i, _). \<not> oks i) zs))"
    using assms(1,2) unfolding s'
  proof (induction zs arbitrary: s bad)
    case (Cons z zs)
    obtain i p where z: "z = (i, p)" by (cases z)
    show ?case
    proof (cases "oks i")
      case True
      then show ?thesis using Cons.IH [of "submit True (RSingle p) 1 s" bad] Cons.prems z by (simp add: submit_def)
    next
      case False
      then show ?thesis
        using Cons.IH [of "submit False (RSingle p) 1 s" "bad @ [p]"] Cons.prems redis_fail [OF Cons.prems, of 1 "[p]"] z
        by (simp add: submit_def)
    qed
  qed simp
  then show "rsQ s' = rsQ s" "rsStore s' = rsStore s" "rsCancelled s' = rsCancelled s" "metered redisMeters (rsReg s')"
    "rsPool s' = rsPool s @ map (\<lambda>(i, p). RSingle p) (filter (\<lambda>(i, _). oks i) zs)"
    "counted redisMeters r0 (rsReg s') ok (bad @ map snd (filter (\<lambda>(i, _). \<not> oks i) zs))" by blast+
qed

lemma mset_filter_zip: "mset (map snd (filter (\<lambda>(i, _). P i) zs)) + mset (map snd (filter (\<lambda>(i, _). \<not> P i) zs)) = mset (map snd zs)"
  by (induction zs) (auto simp: case_prod_unfold)

lemma concat_singles: "concat (map job_packets (map (\<lambda>(i, p). RSingle p) zs)) = map snd zs"
  by (induction zs) (auto simp: job_packets_def)

text \<open>The loop's part of the invariant, from the packets it takes out.\<close>

lemma rloop_turn_facts:
  assumes "metered redisMeters (rsReg s)" "counted redisMeters r0 (rsReg s) ok bad"
    and s'_def: "s' = rloop_turn env oks s"
  shows "mset (waiting s) = mset (waiting s') + mset (turn_discards env oks s)" "metered redisMeters (rsReg s')"
    "counted redisMeters r0 (rsReg s') ok (bad @ turn_discards env oks s)" "rsStore s' = rsStore s" "rsCancelled s' = rsCancelled s"
    "\<forall>j \<in> set (rsPool s). job_ok j \<Longrightarrow> \<forall>p \<in> set (rqSendCh (rsQ s)). 4 \<le> length p \<Longrightarrow>
       (\<forall>j \<in> set (rsPool s'). job_ok j) \<and> (\<forall>p \<in> set (rqSendCh (rsQ s')). 4 \<le> length p)"
proof -
  let ?n = "rqDequeueSize (rsQ s)"
  let ?ps = "take ?n (rqSendCh (rsQ s))" and ?q = "(rsQ s)\<lparr>rqSendCh := drop ?n (rqSendCh (rsQ s))\<rparr>"
  let ?t = "s\<lparr>rsQ := ?q\<rparr>" and ?zs = "zip [0..<length ?ps] ?ps"
  have ch: "mset (rqSendCh (rsQ s)) = mset ?ps + mset (rqSendCh ?q)" by (simp flip: mset_append)
  have sets: "set ?ps \<subseteq> set (rqSendCh (rsQ s))" "set (rqSendCh ?q) \<subseteq> set (rqSendCh (rsQ s))" by (simp_all add: set_take_subset set_drop_subset)
  consider (none) "?ps = []" | (batch) "?ps \<noteq> []" "sum_list (map length ?ps) < max (rReceivePackLimit env) (?n * 2 * 1024)"
    | (single) "?ps \<noteq> []" "\<not> sum_list (map length ?ps) < max (rReceivePackLimit env) (?n * 2 * 1024)" by blast
  then have "mset (waiting s) = mset (waiting s') + mset (turn_discards env oks s) \<and> metered redisMeters (rsReg s') \<and>
    counted redisMeters r0 (rsReg s') ok (bad @ turn_discards env oks s) \<and> rsStore s' = rsStore s \<and> rsCancelled s' = rsCancelled s \<and>
    ((\<forall>j \<in> set (rsPool s). job_ok j) \<longrightarrow> (\<forall>p \<in> set (rqSendCh (rsQ s)). 4 \<le> length p) \<longrightarrow>
       (\<forall>j \<in> set (rsPool s'). job_ok j) \<and> (\<forall>p \<in> set (rqSendCh (rsQ s')). 4 \<le> length p))"
  proof cases
    case none
    have d: "turn_discards env oks s = []" unfolding turn_discards_def none by simp
    have s': "s' = ?t\<lparr>rsLoopDone := True\<rparr>" unfolding s'_def rloop_turn_def Let_def length_0_conv by (simp only: none) simp
    show ?thesis unfolding d s' using assms(1,2) ch sets none by (auto simp: waiting_def)
  next
    case batch
    have d: "turn_discards env oks s = (if oks 0 then [] else ?ps)" unfolding turn_discards_def Let_def by (simp only: batch if_True)
    have s': "s' = submit (oks 0) (RBatch ?ps (sum_list (map length ?ps))) (int (length ?ps)) ?t"
      unfolding s'_def rloop_turn_def Let_def length_0_conv by (simp only: batch if_True if_False)
    show ?thesis
      unfolding d s' using assms(1,2) ch sets redis_fail [OF assms(1,2), of _ ?ps]
      by (auto simp: waiting_def submit_def job_packets_def job_ok_def)
  next
    case single
    have d: "turn_discards env oks s = map snd (filter (\<lambda>(i, _). \<not> oks i) ?zs)" unfolding turn_discards_def Let_def by (simp only: single if_False)
    have s': "s' = fold (\<lambda>(i, p) s. submit (oks i) (RSingle p) 1 s) ?zs ?t"
      unfolding s'_def rloop_turn_def Let_def length_0_conv by (simp only: single if_False)
    have t: "metered redisMeters (rsReg ?t)" "counted redisMeters r0 (rsReg ?t) ok bad" using assms(1,2) by simp_all
    note f = submits [OF t s']
    have "mset (map snd ?zs) = mset ?ps" by (simp add: map_snd_zip)
    then have w: "mset (waiting s) = mset (waiting s') + mset (turn_discards env oks s)"
      unfolding d waiting_def f(1,5) map_append concat_append mset_append concat_singles
      using ch mset_filter_zip [of oks ?zs] by (simp add: ac_simps)
    have "\<forall>j \<in> set (map (\<lambda>(i, p). RSingle p) (filter (\<lambda>(i, _). oks i) ?zs)). job_ok j"
      if "\<forall>p \<in> set (rqSendCh (rsQ s)). 4 \<le> length p"
      using that sets(1) by (auto simp: job_ok_def job_packets_def dest!: set_zip_rightD)
    then show ?thesis using w f d sets by auto
  qed
  then show "mset (waiting s) = mset (waiting s') + mset (turn_discards env oks s)" "metered redisMeters (rsReg s')"
    "counted redisMeters r0 (rsReg s') ok (bad @ turn_discards env oks s)" "rsStore s' = rsStore s" "rsCancelled s' = rsCancelled s"
    "\<forall>j \<in> set (rsPool s). job_ok j \<Longrightarrow> \<forall>p \<in> set (rqSendCh (rsQ s)). 4 \<le> length p \<Longrightarrow>
       (\<forall>j \<in> set (rsPool s'). job_ok j) \<and> (\<forall>p \<in> set (rqSendCh (rsQ s')). 4 \<le> length p)" by blast+
qed

text \<open>A pool task: what it reports as delivered is in Redis.\<close>

lemma push_all_mset: "mset (push_all stream zs st) = mset st + mset (map fst (filter snd zs))"
  by (induction zs arbitrary: st) (auto simp: push_all_def push_def case_prod_unfold)

lemma run_rjob_store: "rsStore (run_rjob ex j s) = push_all (rqStream (rsQ s)) (zip (job_packets j) (exApplied ex)) (rsStore s)"
  by (simp add: run_rjob_def job_packets_def sendListBatchMode_def sendStreamBatchMode_def sendListSingleMode_def sendStreamSingleMode_def
      Let_def split: rjob.splits)

lemma reported_rejected: "mset (reported ex j) + mset (rejected ex j) = mset (job_packets j)"
proof (cases j)
  case (RBatch ps n)
  have "mset (map snd (filter fst zs)) + mset (map snd (filter (\<lambda>(ok, _). \<not> ok) zs)) = mset (map snd zs)" for zs :: "(bool \<times> bytes) list"
    by (induction zs) (auto simp: case_prod_unfold)
  moreover have "image_mset snd (mset (zip (exCmds ex) ps)) = mset ps" if "length (exCmds ex) = length ps"
    using that by (metis map_snd_zip mset_map)
  ultimately show ?thesis using RBatch by (auto simp: reported_def rejected_def job_packets_def)
qed (auto simp: reported_def rejected_def job_packets_def)

lemma le_add_mset: "A \<subseteq># B \<Longrightarrow> A \<subseteq># add_mset x B"
  using mset_subset_eq_add_right [of B "{#x#}"] subset_mset.order_trans by fastforce

lemma zip_filter_subset:
  assumes "length as = length ps" "length bs = length ps" "\<forall>j < length ps. as ! j \<longrightarrow> bs ! j"
  shows "mset (map snd (filter fst (zip as ps))) \<subseteq># mset (map fst (filter snd (zip ps bs)))"
  using assms
proof (induction ps arbitrary: as bs)
  case (Cons p ps)
  obtain a as' b bs' where "as = a # as'" "bs = b # bs'" using Cons.prems by (cases as; cases bs) auto
  moreover from this have "a \<longrightarrow> b" "\<forall>j < length ps. as' ! j \<longrightarrow> bs' ! j" using Cons.prems(3) by fastforce+
  ultimately show ?case using Cons.IH [of as' bs'] Cons.prems by (auto intro: le_add_mset)
qed simp

lemma reported_stored:
  assumes "exec_laws (length (job_packets j)) c ex"
  shows "mset (reported ex j) \<subseteq># mset (map fst (filter snd (zip (job_packets j) (exApplied ex))))"
proof (cases "exErr ex")
  case False
  then have "exApplied ex = replicate (length (job_packets j)) True" using assms by (simp add: exec_laws_def)
  then have "map fst (filter snd (zip (job_packets j) (exApplied ex))) = job_packets j"
    by (simp add: zip_replicate2 filter_map comp_def)
  then show ?thesis using reported_rejected [of ex j] by (metis mset_subset_eq_add_left)
next
  case True
  then show ?thesis
    using assms zip_filter_subset [of "exCmds ex" _ "exApplied ex"]
    by (auto simp: reported_def exec_laws_def job_packets_def split: rjob.splits)
qed

lemma reported_cancelled: "exec_laws (length (job_packets j)) True ex \<Longrightarrow> reported ex j = [] \<and> push_all b (zip (job_packets j) (exApplied ex)) st = st"
proof -
  assume l: "exec_laws (length (job_packets j)) True ex"
  have "exApplied ex = replicate (length (job_packets j)) False" using l by (simp add: exec_laws_def)
  then have "map fst (filter snd (zip (job_packets j) (exApplied ex))) = []" by (simp add: zip_replicate2 filter_map comp_def)
  then have "reported ex j = []" using reported_stored [OF l] by simp
  moreover have "push_all b (map (\<lambda>p. (p, False)) ps) st = st" for ps by (induction ps arbitrary: st) (auto simp: push_all_def)
  ultimately show ?thesis using \<open>exApplied ex = _\<close> by (simp add: zip_replicate2)
qed

section \<open>Properties\<close>

definition redis_inv :: "rsys \<Rightarrow> rsys \<Rightarrow> bytes list \<Rightarrow> bytes list \<Rightarrow> bytes list \<Rightarrow> bool" where
  "redis_inv s0 s sent ok bad \<longleftrightarrow>
     mset (waiting s0) + mset sent = mset ok + mset bad + mset (waiting s) \<and>
     metered redisMeters (rsReg s) \<and> counted redisMeters (rsReg s0) (rsReg s) ok bad \<and> mset (rsStore s0) + mset ok \<subseteq># mset (rsStore s) \<and>
     (\<forall>j \<in> set (rsPool s). job_ok j) \<and> (\<forall>p \<in> set (rqSendCh (rsQ s)). 4 \<le> length p)"

definition fresh :: "rsys \<Rightarrow> bool" where
  "fresh s \<longleftrightarrow> waiting s = [] \<and> rsPool s = [] \<and> metered redisMeters (rsReg s)"

lemma redis_inv_send:
  assumes "redis_inv s0 s sent ok bad" "Packet_Set (rMarshal env) m c = Some p"
  shows "redis_inv s0 (RQueue_Send env m c s) (sent @ [p]) ok
      (if \<not> rqSendClosed (rsQ s) \<and> length (rqSendCh (rsQ s)) < New_capacity 1024 then bad else bad @ [p])"
  using assms Packet_Set_length [OF assms(2)] redis_fail [of "rsReg s" "rsReg s0" ok bad 1 "[p]"]
  by (auto simp: redis_inv_def RQueue_Send_def Let_def waiting_def)

lemma redis_inv_turn:
  assumes "redis_inv s0 s sent ok bad"
  shows "redis_inv s0 (rloop_turn env oks s) sent ok (bad @ turn_discards env oks s)"
proof -
  have a: "metered redisMeters (rsReg s)" "counted redisMeters (rsReg s0) (rsReg s) ok bad" using assms by (simp_all add: redis_inv_def)
  note f = rloop_turn_facts [OF a refl, of env oks]
  show ?thesis using assms f unfolding redis_inv_def by (simp add: ac_simps)
qed

lemma redis_inv_task:
  assumes "redis_inv s0 s sent ok bad" "rsPool s = xs @ j # ys" "exec_laws (length (job_packets j)) c ex"
  shows "redis_inv s0 (run_rjob ex j (s\<lparr>rsPool := xs @ ys\<rparr>)) sent (ok @ reported ex j) (bad @ rejected ex j)"
proof -
  let ?t = "s\<lparr>rsPool := xs @ ys\<rparr>"
  have a: "metered redisMeters (rsReg ?t)" "counted redisMeters (rsReg s0) (rsReg ?t) ok bad" "job_ok j" using assms(1,2) by (auto simp: redis_inv_def)
  note c = counted_job [OF a, of ex]
  have w: "mset (waiting s) = mset (reported ex j) + mset (rejected ex j) + mset (waiting ?t)"
    using assms(2) reported_rejected [of ex j] by (simp add: waiting_def)
  have q: "rsPool (run_rjob ex j ?t) = xs @ ys" "rsQ (run_rjob ex j ?t) = rsQ s"
    by (simp_all add: run_rjob_def case_prod_unfold Let_def)
  then have w': "waiting (run_rjob ex j ?t) = waiting ?t" by (simp add: waiting_def)
  have "mset (rsStore s) + mset (reported ex j) \<subseteq># mset (rsStore (run_rjob ex j ?t))"
    unfolding run_rjob_store push_all_mset using reported_stored [OF assms(3)] by simp
  moreover have "mset (rsStore s0) + mset ok \<subseteq># mset (rsStore s)" using assms(1) by (simp add: redis_inv_def)
  ultimately have "mset (rsStore s0) + mset (ok @ reported ex j) \<subseteq># mset (rsStore (run_rjob ex j ?t))"
    by (simp add: add.assoc [symmetric]) (meson subset_mset.add_right_mono subset_mset.order_trans)
  then show ?thesis
    using assms(1,2) c w by (auto simp: redis_inv_def w' q ac_simps)
qed

lemma redis_run_inv: "redis_run env s0 s sent ok bad \<Longrightarrow> fresh s0 \<Longrightarrow> redis_inv s0 s sent ok bad"
proof (induction rule: redis_run.induct)
  case start
  then show ?case by (simp add: redis_inv_def fresh_def counted_refl waiting_def)
next
  case (send s sent ok bad m c p)
  then show ?case using redis_inv_send by blast
next
  case (unmarshalled s sent ok bad m c)
  then show ?case by (simp add: RQueue_Send_def)
next
  case (turn s sent ok bad oks)
  then show ?case using redis_inv_turn by blast
next
  case (task s sent ok bad xs j ys ex)
  then show ?case using redis_inv_task by blast
next
  case (close s sent ok bad)
  then show ?case by (simp add: RQueue_Close_def redis_inv_def waiting_def)
next
  case (timer s sent ok bad)
  then show ?case by (simp add: RQueue_timer_def redis_inv_def waiting_def)
next
  case (cancel s sent ok bad)
  then show ?case by (simp add: redis_inv_def waiting_def)
qed

text \<open>
  C18. Nothing handed to the Redis queue goes missing unnoticed: in every run, every packet that could be marshalled is exactly once
  delivered, failed, or still waiting in the queue or the pool; the three meters count exactly the
  delivered packets, their bytes and the failed packets; and what is counted as delivered is in Redis.
\<close>

theorem redis_accounting:
  assumes "redis_run env s0 s sent ok bad" "fresh s0"
  shows "mset sent = mset ok + mset bad + mset (waiting s) \<and> counted redisMeters (rsReg s0) (rsReg s) ok bad \<and>
     mset (rsStore s0) + mset ok \<subseteq># mset (rsStore s)"
  using redis_run_inv [OF assms] assms(2) by (simp add: redis_inv_def fresh_def)

lemma push_all_true: "push_all stream (map (\<lambda>p. (p, True)) ps) st = (if stream then st @ ps else rev ps @ st)"
  by (induction ps arbitrary: st) (auto simp: push_all_def push_def)

text \<open>
  A batch that succeeds arrives complete and in order: a list holds the packets from the right, oldest first, a stream at its end, so
  that a consumer reading the list from the right or the stream from the left sees them in the order in which they were handed in.
\<close>

theorem redis_batch_in_order:
  assumes "exec_laws (length ps) c ex" "\<not> exErr ex"
  shows "rsStore (run_rjob ex (RBatch ps n) s) = (if rqStream (rsQ s) then rsStore s @ ps else rev ps @ rsStore s)"
proof -
  have "exApplied ex = replicate (length ps) True" using assms by (simp add: exec_laws_def)
  then show ?thesis by (simp add: run_rjob_store job_packets_def zip_replicate2 push_all_true)
qed

lemma submit_keeps [simp]: "rsStore (submit b j n s) = rsStore s" "rsCancelled (submit b j n s) = rsCancelled s"
  by (simp_all add: submit_def)

lemma submits_keep:
  "rsStore (fold (\<lambda>(i, p) s. submit (oks i) (RSingle p) 1 s) zs s) = rsStore s"
  "rsCancelled (fold (\<lambda>(i, p) s. submit (oks i) (RSingle p) 1 s) zs s) = rsCancelled s"
  by (induction zs arbitrary: s) (simp_all add: case_prod_unfold)

lemma rloop_turn_keeps: "rsStore (rloop_turn env oks s) = rsStore s" "rsCancelled (rloop_turn env oks s) = rsCancelled s"
proof -
  let ?n = "rqDequeueSize (rsQ s)"
  let ?ps = "take ?n (rqSendCh (rsQ s))"
  let ?t = "s\<lparr>rsQ := (rsQ s)\<lparr>rqSendCh := drop ?n (rqSendCh (rsQ s))\<rparr>\<rparr>"
  have "rloop_turn env oks s \<in> {?t\<lparr>rsLoopDone := True\<rparr>,
      submit (oks 0) (RBatch ?ps (sum_list (map length ?ps))) (int (length ?ps)) ?t,
      fold (\<lambda>(i, p) s. submit (oks i) (RSingle p) 1 s) (zip [0..<length ?ps] ?ps) ?t}"
    unfolding rloop_turn_def Let_def by (simp only: insert_iff split: if_split) simp
  then show "rsStore (rloop_turn env oks s) = rsStore s" "rsCancelled (rloop_turn env oks s) = rsCancelled s"
    by (auto simp: submits_keep)
qed


section \<open>Witnesses\<close>

definition sample_redis_env :: redis_env where
  "sample_redis_env = \<lparr>rMarshal = (\<lambda>_. Some [1, 2]), rReceivePackLimit = 2097152\<rparr>"

definition sample_rsys :: "bool \<Rightarrow> rsys" where
  "sample_rsys cancelled = \<lparr>rsQ = the (newRQueue \<lparr>rcAddr = ''a:1'', rcPassword = '''', rcDB = 0\<rparr> ''k'' 0 ''list'' 256), rsPool = [],
     rsStore = [], rsReg = (\<lambda>_. StandardMeter 0), rsLoopDone = False, rsCancelled = cancelled\<rparr>"

definition sample_sent :: "rsys \<Rightarrow> rsys" where
  "sample_sent s = RQueue_Send sample_redis_env MUnRegisterResp 7 s"

lemma sample_fresh: "fresh (sample_rsys b)"
  by (simp add: fresh_def waiting_def sample_rsys_def newRQueue_def metered_on)

lemma sample_packet: "Packet_Set (rMarshal sample_redis_env) MUnRegisterResp 7 = Some [0, 0, 0, 7, 1, 2]"
  by (simp add: Packet_Set_def sample_redis_env_def) code_simp

text \<open>One event, taken out by the loop and written by a pool task.\<close>

lemma sample_after_send:
  "sample_sent (sample_rsys b) = (sample_rsys b)\<lparr>rsQ := (rsQ (sample_rsys b))\<lparr>rqSendCh := [[0, 0, 0, 7, 1, 2]]\<rparr>\<rparr>"
  using sample_packet by (simp add: sample_sent_def RQueue_Send_def sample_rsys_def newRQueue_def New_capacity_def)

lemma sample_turn:
  "rloop_turn sample_redis_env (\<lambda>_. True) (sample_sent (sample_rsys b))
   = (sample_rsys b)\<lparr>rsPool := [RBatch [[0, 0, 0, 7, 1, 2]] 6]\<rparr>"
  unfolding sample_after_send by (simp add: rloop_turn_def submit_def sample_rsys_def newRQueue_def sample_redis_env_def)

lemma sample_redis_run:
  assumes "exec_laws 1 b ex"
  shows "redis_run sample_redis_env (sample_rsys b) (run_rjob ex (RBatch [[0, 0, 0, 7, 1, 2]] 6) (sample_rsys b)) [[0, 0, 0, 7, 1, 2]]
     (reported ex (RBatch [[0, 0, 0, 7, 1, 2]] 6)) (rejected ex (RBatch [[0, 0, 0, 7, 1, 2]] 6))"
proof -
  let ?p = "[0, 0, 0, 7, 1, 2] :: bytes" and ?s = "sample_rsys b"
  have open_: "\<not> rqSendClosed (rsQ ?s) \<and> length (rqSendCh (rsQ ?s)) < New_capacity 1024"
    by (simp add: sample_rsys_def newRQueue_def New_capacity_def)
  have 1: "redis_run sample_redis_env ?s (sample_sent ?s) [?p] [] []"
    using redis_run.send [OF redis_run.start sample_packet, of ?s] open_ by (simp add: sample_sent_def)
  have d: "turn_discards sample_redis_env (\<lambda>_. True) (sample_sent ?s) = []" by (simp add: turn_discards_def Let_def)
  have 2: "redis_run sample_redis_env ?s (?s\<lparr>rsPool := [RBatch [?p] 6]\<rparr>) [?p] [] []"
    using redis_run.turn [OF 1, of "\<lambda>_. True"] unfolding sample_turn d by (simp add: sample_after_send) (simp add: sample_rsys_def)
  have 3: "?s\<lparr>rsPool := [] @ []\<rparr> = ?s" by (simp add: sample_rsys_def)
  show ?thesis
    using redis_run.task [OF 2, of "[]" "RBatch [?p] 6" "[]" ex] assms unfolding rsys.simps 3
    by (simp add: job_packets_def sample_rsys_def)
qed

theorem redis_accounting_witness:
  "counted redisMeters (rsReg (sample_rsys False)) (rsReg (run_rjob \<lparr>exErr = False, exCmds = [True], exApplied = [True]\<rparr> (RBatch [[0, 0, 0, 7, 1, 2]] 6) (sample_rsys False)))
     [[0, 0, 0, 7, 1, 2]] []"
  using redis_accounting [OF sample_redis_run [of False "\<lparr>exErr = False, exCmds = [True], exApplied = [True]\<rparr>"] sample_fresh]
  by (simp add: exec_laws_def reported_def rejected_def)

theorem redis_batch_in_order_witness:
  "rsStore (run_rjob \<lparr>exErr = False, exCmds = [True, True], exApplied = [True, True]\<rparr> (RBatch [[1], [2]] 2) (sample_rsys False)) = [[2], [1]]"
  using redis_batch_in_order [of "[[1], [2]]" False "\<lparr>exErr = False, exCmds = [True, True], exApplied = [True, True]\<rparr>" 2 "sample_rsys False"]
  by (simp add: exec_laws_def sample_rsys_def newRQueue_def numeral_2_eq_2)


end
