(* ===== verification/Config.thy ===== *)
theory Config
  imports Upgrade
begin

text \<open>
  The configuration, \<^verbatim>\<open>src/configs/config.go\<close>: defaults, checks and the conversion of the listening addresses, and at the end finding and
  reading the file. A check that fails calls \<^verbatim>\<open>os.Exit(1)\<close>, \<open>None\<close> here. Optional values are
  Go pointers: the queue sections share the pointers of the common section when they do not set a value themselves, and the
  code later compares pointers, so they are addresses in a memory. Durations are nanoseconds.
  \<^verbatim>\<open>Duration.Seconds\<close> goes through \<^verbatim>\<open>float64\<close>, whose rounding cannot reach the next whole
  second below \<open>2 ^ 22\<close> seconds; the model divides. The functions of package \<^verbatim>\<open>net\<close> are parameters.
\<close>

section \<open>Host names\<close>

text \<open>
  \<^verbatim>\<open>net.LookupHost\<close>, \<open>None\<close> on error, and of an address: \<^verbatim>\<open>IsGlobalUnicast\<close>, \<^verbatim>\<open>IsLoopback\<close>,
  \<^verbatim>\<open>IsUnspecified\<close>, \<^verbatim>\<open>IsLinkLocalUnicast\<close> and \<^verbatim>\<open>To4\<close> with \<^verbatim>\<open>String\<close>, \<open>None\<close> when \<^verbatim>\<open>To4\<close> is nil.
  \<open>parseIP\<close> says whether a string is an address at all.
\<close>

record net_env =
  LookupHost :: "string \<Rightarrow> string list option"
  InterfaceAddrs :: "string list option"
  SplitHostPort :: "string \<Rightarrow> (string \<times> string) option"
  JoinHostPort :: "string \<Rightarrow> string \<Rightarrow> string"
  parseIP :: "string \<Rightarrow> bool"
  isGlobalUnicast :: "string \<Rightarrow> bool"
  isLoopback :: "string \<Rightarrow> bool"
  isUnspecified :: "string \<Rightarrow> bool"
  isLinkLocalUnicast :: "string \<Rightarrow> bool"
  to4 :: "string \<Rightarrow> string option"

text \<open>\<^verbatim>\<open>net.IP(nil).String()\<close> is the string \<^verbatim>\<open><nil>\<close>.\<close>

definition IP_String :: "string option \<Rightarrow> string" where
  "IP_String ip = (case ip of None \<Rightarrow> ''<nil>'' | Some x \<Rightarrow> x)"

definition GetHostByName :: "net_env \<Rightarrow> string \<Rightarrow> string" where
  "GetHostByName ne name = (case LookupHost ne name of
      None \<Rightarrow> name
    | Some addrList \<Rightarrow>
        let (global, loopBack, unspecified) =
              fold (\<lambda>addr (g, l, u).
                (if isGlobalUnicast ne addr then IP_String (to4 ne addr) else g,
                 if isLoopback ne addr then IP_String (to4 ne addr) else l,
                 if isUnspecified ne addr then ''127.0.0.1'' else u)) addrList (name, name, name)
        in if global \<noteq> name then global else if loopBack \<noteq> name then loopBack else unspecified)"

definition IsValidIPv4 :: "net_env \<Rightarrow> string \<Rightarrow> bool" where
  "IsValidIPv4 ne ip \<longleftrightarrow> parseIP ne ip \<and> to4 ne ip \<noteq> None"

fun first_ipv4 :: "net_env \<Rightarrow> string list \<Rightarrow> string" where
  "first_ipv4 ne [] = ''''"
| "first_ipv4 ne (a # as) =
     (if isLoopback ne a \<or> isLinkLocalUnicast ne a then first_ipv4 ne as
      else case to4 ne a of Some x \<Rightarrow> x | None \<Rightarrow> first_ipv4 ne as)"

definition GetLocalIPAddress :: "net_env \<Rightarrow> string" where
  "GetLocalIPAddress ne = (case InterfaceAddrs ne of None \<Rightarrow> '''' | Some as \<Rightarrow> first_ipv4 ne as)"

section \<open>State\<close>

type_synonym ptr = nat

record mem =
  strAt :: "ptr \<Rightarrow> string"
  intAt :: "ptr \<Rightarrow> int"
  boolAt :: "ptr \<Rightarrow> bool"
  mnext :: ptr

record RedisQueue =
  rqAddress :: string
  rqPassword :: "ptr option"
  rqDB :: "ptr option"
  rqKey :: string
  rqKeyType :: string

record AMQP091Queue =
  aqAddress :: string
  aqUsername :: string
  aqPassword :: string
  aqVHost :: "ptr option"
  aqExchange :: string
  aqExchangeType :: string
  aqQueue :: "ptr option"
  aqRoutingKey :: "ptr option"
  aqDurable :: "ptr option"
  aqAutoDelete :: "ptr option"

record customer_cfg =
  cfMulticore :: int
  cfCustomerListenAddress :: string
  cfHandlePattern :: string
  cfAllowOrigin :: "string list"
  cfMaxOnlineNum :: int
  cfHeartbeatInterval :: int
  cfHeartbeatIntervalSecond :: u32
  cfReceivePackLimit :: int
  cfSendMessageType :: opcode
  cfHeartbeatMessage :: bytes
  cfCompressionLevel :: int
  cfLimitWindowSize :: int
  cfLimitWindowSizeSeconds :: int
  cfLimitWindowMaxRequests :: int
  cfLimitZeroWindowMaxRequests :: int

text \<open>The fields that \<^verbatim>\<open>Worker\<close> and \<^verbatim>\<open>Task\<close> share; \<open>cfSendChanCap\<close> is the worker's alone.\<close>

record port_cfg =
  cfListenAddress :: string
  cfReadDeadline :: int
  cfSendDeadline :: int
  cfPackLimit :: u32
  cfReadBufferSize :: int
  cfSendChanCap :: int
  cfPortHeartbeat :: bytes

record config =
  cfLogLevel :: string
  cfLogFile :: string
  cfShutdownWaitTime :: int
  cfPprofListenAddress :: string
  cfAutobahn :: bool
  cfLimitOnOpen :: int
  cfLimitOnMessage :: int
  cfCustomer :: customer_cfg
  cfOnOpenApi :: string
  cfOnMessageApi :: string
  cfOnCloseApi :: string
  cfCallbackTimeout :: int
  cfRedis :: RedisQueue
  cfRedisOnOpen :: RedisQueue
  cfRedisOnMessage :: RedisQueue
  cfRedisOnClose :: RedisQueue
  cfAmqp :: AMQP091Queue
  cfAmqpOnOpen :: AMQP091Queue
  cfAmqpOnMessage :: AMQP091Queue
  cfAmqpOnClose :: AMQP091Queue
  cfWorker :: port_cfg
  cfTask :: port_cfg
  cfMetricsItem :: "int list"
  cfMem :: mem

section \<open>The log settings\<close>

text \<open>\<^verbatim>\<open>r.LogFile[1:2]\<close> panics, \<open>None\<close>, when the name has one byte.\<close>

definition GetLogFile :: "(string \<Rightarrow> string) \<Rightarrow> config \<Rightarrow> string option" where
  "GetLogFile joinRoot r =
     (let f = cfLogFile r
      in if f = '''' then Some ''''
         else if take 1 f = ''/'' then Some f
         else if length f < 2 then None
         else if take 1 (drop 1 f) = '':'' then Some f
         else Some (joinRoot f))"

datatype level = DebugLevel | InfoLevel | WarnLevel | ErrorLevel

definition GetLogLevel :: "config \<Rightarrow> level" where
  "GetLogLevel r =
     (let l = cfLogLevel r
      in if l = ''debug'' then DebugLevel else if l = ''info'' then InfoLevel else if l = ''warn'' then WarnLevel
         else if l = ''error'' then ErrorLevel else ErrorLevel)"

section \<open>Checks and defaults of \<^verbatim>\<open>init\<close>\<close>

definition second :: int where "second = 1000000000"

definition customer_limits :: "customer_cfg \<Rightarrow> customer_cfg" where
  "customer_limits c = c\<lparr>
     cfMulticore := (if cfMulticore c < 0 \<or> cfMulticore c > 100 then 100 else cfMulticore c),
     cfReceivePackLimit := (if cfReceivePackLimit c \<le> 0 then 2097152 else cfReceivePackLimit c)\<rparr>"

definition customer_heartbeat :: "customer_cfg \<Rightarrow> customer_cfg" where
  "customer_heartbeat c =
     (let interval = (if cfHeartbeatInterval c \<le> 0 then second * 120 else cfHeartbeatInterval c)
      in c\<lparr>cfSendMessageType := (if cfSendMessageType c = 0 then OpText else cfSendMessageType c),
           cfHeartbeatInterval := interval,
           cfHeartbeatIntervalSecond := of_int (interval div second),
           cfHandlePattern := (if cfHandlePattern c = '''' then ''/'' else cfHandlePattern c)\<rparr>)"

definition customer_window :: "customer_cfg \<Rightarrow> customer_cfg" where
  "customer_window c =
     (let size = (if cfLimitWindowSize c \<le> 0 then second else cfLimitWindowSize c)
      in c\<lparr>cfLimitWindowSize := size,
           cfLimitWindowSizeSeconds := size div second,
           cfLimitWindowMaxRequests := (if cfLimitWindowMaxRequests c \<le> 0 then 100 else cfLimitWindowMaxRequests c),
           cfLimitZeroWindowMaxRequests := (if cfLimitZeroWindowMaxRequests c \<le> 0 then 1000 else cfLimitZeroWindowMaxRequests c)\<rparr>)"

definition init_customer :: "customer_cfg \<Rightarrow> customer_cfg option" where
  "init_customer c =
     (let c = customer_limits c
      in if cfSendMessageType c \<noteq> 0 \<and> cfSendMessageType c \<noteq> OpText \<and> cfSendMessageType c \<noteq> OpBinary then None
         else let c = customer_heartbeat c
              in if length (cfHeartbeatMessage c) = 0 then None
                 else if cfCompressionLevel c < - 2 \<or> cfCompressionLevel c > 9 then None
                 else Some (customer_window c))"

text \<open>\<^verbatim>\<open>new(string)\<close>, \<^verbatim>\<open>new(int)\<close>, \<^verbatim>\<open>new(bool)\<close>: a fresh cell with the zero value.\<close>

definition new_cell :: "mem \<Rightarrow> ptr \<times> mem" where
  "new_cell m = (mnext m, m\<lparr>strAt := (strAt m)(mnext m := ''''), intAt := (intAt m)(mnext m := 0),
     boolAt := (boolAt m)(mnext m := False), mnext := mnext m + 1\<rparr>)"

text \<open>\<^verbatim>\<open>if queue.X == nil { queue.X = common.X; if queue.X == nil { queue.X = new(T) } }\<close>\<close>

definition or_new :: "ptr option \<Rightarrow> ptr option \<Rightarrow> mem \<Rightarrow> ptr option \<times> mem" where
  "or_new own common m = (case own of
      Some p \<Rightarrow> (Some p, m)
    | None \<Rightarrow> (case common of
          Some p \<Rightarrow> (Some p, m)
        | None \<Rightarrow> (let (p, m) = new_cell m in (Some p, m))))"

definition setRedisQueueDefaultParams :: "RedisQueue \<Rightarrow> RedisQueue \<times> mem \<Rightarrow> RedisQueue \<times> mem" where
  "setRedisQueueDefaultParams common = (\<lambda>(q, m).
     let q = q\<lparr>rqAddress := (if rqAddress q = '''' then rqAddress common else rqAddress q)\<rparr>;
         (p, m) = or_new (rqPassword q) (rqPassword common) m; q = q\<lparr>rqPassword := p\<rparr>;
         (d, m) = or_new (rqDB q) (rqDB common) m; q = q\<lparr>rqDB := d\<rparr>;
         q = q\<lparr>rqKey := (if rqKey q = '''' then rqKey common else rqKey q)\<rparr>;
         q = q\<lparr>rqKeyType := (if rqKeyType q = '''' then rqKeyType common else rqKeyType q)\<rparr>
     in (q, m))"

text \<open>\<^verbatim>\<open>strings.ToLower\<close> on ASCII names.\<close>

definition toLower :: "string \<Rightarrow> string" where "toLower = map lowChar"

text \<open>The key type of a section; \<open>strict\<close> is whether an invalid one ends the process.\<close>

definition check_key_type :: "bool \<Rightarrow> RedisQueue \<Rightarrow> RedisQueue option" where
  "check_key_type strict q =
     (if rqKeyType q = '''' then Some (q\<lparr>rqKeyType := ''list''\<rparr>)
      else let q = q\<lparr>rqKeyType := toLower (rqKeyType q)\<rparr>
           in if rqKeyType q = ''list'' \<or> rqKeyType q = ''stream'' then Some q
              else if strict then None else Some q)"

text \<open>The check of \<^verbatim>\<open>OnMessage\<close> logs the error but does not exit.\<close>

definition init_redis :: "config \<Rightarrow> config option" where
  "init_redis c =
     (let (opn, m) = setRedisQueueDefaultParams (cfRedis c) (cfRedisOnOpen c, cfMem c);
          (msg, m) = setRedisQueueDefaultParams (cfRedis c) (cfRedisOnMessage c, m);
          (cls, m) = setRedisQueueDefaultParams (cfRedis c) (cfRedisOnClose c, m)
      in case check_key_type True opn of None \<Rightarrow> None | Some opn \<Rightarrow>
         (case check_key_type True cls of None \<Rightarrow> None | Some cls \<Rightarrow>
         (case check_key_type False msg of None \<Rightarrow> None | Some msg \<Rightarrow>
            Some (c\<lparr>cfRedisOnOpen := opn, cfRedisOnMessage := msg, cfRedisOnClose := cls, cfMem := m\<rparr>))))"

text \<open>An empty virtual host is replaced through the pointer, which may be the one of the common section.\<close>

definition setAMQP091QueueDefaultParams :: "AMQP091Queue \<Rightarrow> AMQP091Queue \<times> mem \<Rightarrow> AMQP091Queue \<times> mem" where
  "setAMQP091QueueDefaultParams common = (\<lambda>(q, m).
     let q = q\<lparr>aqAddress := (if aqAddress q = '''' then aqAddress common else aqAddress q)\<rparr>;
         q = q\<lparr>aqUsername := (if aqUsername q = '''' then aqUsername common else aqUsername q)\<rparr>;
         q = q\<lparr>aqPassword := (if aqPassword q = '''' then aqPassword common else aqPassword q)\<rparr>;
         (q, m) = (case aqVHost q of
             Some _ \<Rightarrow> (q, m)
           | None \<Rightarrow> (let (v, m) = or_new None (aqVHost common) m; p = the v
                      in (q\<lparr>aqVHost := v\<rparr>, if strAt m p = '''' then m\<lparr>strAt := (strAt m)(p := ''/'')\<rparr> else m)));
         q = q\<lparr>aqExchange := (if aqExchange q = '''' then aqExchange common else aqExchange q)\<rparr>;
         q = q\<lparr>aqExchangeType := (if aqExchangeType q = '''' then aqExchangeType common else aqExchangeType q)\<rparr>;
         (x, m) = or_new (aqQueue q) (aqQueue common) m; q = q\<lparr>aqQueue := x\<rparr>;
         (x, m) = or_new (aqRoutingKey q) (aqRoutingKey common) m; q = q\<lparr>aqRoutingKey := x\<rparr>;
         (x, m) = or_new (aqDurable q) (aqDurable common) m; q = q\<lparr>aqDurable := x\<rparr>;
         (x, m) = or_new (aqAutoDelete q) (aqAutoDelete common) m; q = q\<lparr>aqAutoDelete := x\<rparr>
     in (q, m))"

definition check_exchange_type :: "AMQP091Queue \<Rightarrow> AMQP091Queue option" where
  "check_exchange_type q =
     (if aqExchangeType q = '''' then Some (q\<lparr>aqExchangeType := ''direct''\<rparr>)
      else let q = q\<lparr>aqExchangeType := toLower (aqExchangeType q)\<rparr>
           in if aqExchangeType q \<in> {''direct'', ''fanout'', ''topic'', ''headers''} then Some q else None)"

definition init_amqp :: "config \<Rightarrow> config option" where
  "init_amqp c =
     (let (opn, m) = setAMQP091QueueDefaultParams (cfAmqp c) (cfAmqpOnOpen c, cfMem c);
          (msg, m) = setAMQP091QueueDefaultParams (cfAmqp c) (cfAmqpOnMessage c, m);
          (cls, m) = setAMQP091QueueDefaultParams (cfAmqp c) (cfAmqpOnClose c, m)
      in case check_exchange_type opn of None \<Rightarrow> None | Some opn \<Rightarrow>
         (case check_exchange_type msg of None \<Rightarrow> None | Some msg \<Rightarrow>
         (case check_exchange_type cls of None \<Rightarrow> None | Some cls \<Rightarrow>
            Some (c\<lparr>cfAmqpOnOpen := opn, cfAmqpOnMessage := msg, cfAmqpOnClose := cls, cfMem := m\<rparr>))))"

text \<open>The conversion of a listening address.\<close>

definition listen_address :: "net_env \<Rightarrow> string \<Rightarrow> string option" where
  "listen_address ne a = (case SplitHostPort ne a of
      None \<Rightarrow> None
    | Some (host, port) \<Rightarrow>
        if \<not> IsValidIPv4 ne host
        then let ipv4 = GetHostByName ne host in if ipv4 = host then None else Some (JoinHostPort ne ipv4 port)
        else if host = ''0.0.0.0''
        then let ipv4 = GetLocalIPAddress ne in if ipv4 = '''' then None else Some (JoinHostPort ne ipv4 port)
        else Some a)"

definition init_worker :: "net_env \<Rightarrow> port_cfg \<Rightarrow> port_cfg option" where
  "init_worker ne w =
     (let w = w\<lparr>
            cfReadDeadline := (if cfReadDeadline w \<le> 0 then second * 120 else cfReadDeadline w),
            cfSendDeadline := (if cfSendDeadline w \<le> 0 then second * 10 else cfSendDeadline w),
            cfPackLimit := (if cfPackLimit w = 0 then 1024 * 1024 * 2 else cfPackLimit w),
            cfReadBufferSize := (if cfReadBufferSize w \<le> 0 then 4 * 1024 else cfReadBufferSize w),
            cfSendChanCap := (if cfSendChanCap w \<le> 0 then 1024 else cfSendChanCap w)\<rparr>
      in if cfListenAddress w \<noteq> ''''
         then (case listen_address ne (cfListenAddress w) of
                 None \<Rightarrow> None
               | Some a \<Rightarrow> if length (cfPortHeartbeat w) = 0 then None else Some (w\<lparr>cfListenAddress := a\<rparr>))
         else Some w)"

definition init_task :: "net_env \<Rightarrow> port_cfg \<Rightarrow> port_cfg option" where
  "init_task ne k =
     (let k = k\<lparr>
            cfReadDeadline := (if cfReadDeadline k \<le> 0 then second * 120 else cfReadDeadline k),
            cfSendDeadline := (if cfSendDeadline k \<le> 0 then second * 10 else cfSendDeadline k),
            cfPackLimit := (if cfPackLimit k = 0 then 1024 * 1024 * 2 else cfPackLimit k),
            cfReadBufferSize := (if cfReadBufferSize k \<le> 0 then 64 * 1024 else cfReadBufferSize k)\<rparr>
      in case listen_address ne (cfListenAddress k) of
           None \<Rightarrow> None
         | Some a \<Rightarrow> if length (cfPortHeartbeat k) = 0 then None else Some (k\<lparr>cfListenAddress := a\<rparr>))"

definition config_init :: "net_env \<Rightarrow> config \<Rightarrow> config option" where
  "config_init ne c = (case init_customer (cfCustomer c) of None \<Rightarrow> None | Some x \<Rightarrow>
     (case init_redis (c\<lparr>cfCustomer := x\<rparr>) of None \<Rightarrow> None | Some c \<Rightarrow>
     (case init_amqp c of None \<Rightarrow> None | Some c \<Rightarrow>
     (case init_worker ne (cfWorker c) of None \<Rightarrow> None | Some w \<Rightarrow>
     (case init_task ne (cfTask c) of None \<Rightarrow> None | Some k \<Rightarrow> Some (c\<lparr>cfWorker := w, cfTask := k\<rparr>))))))"

section \<open>What an accepted configuration satisfies\<close>

definition customer_ok :: "customer_cfg \<Rightarrow> bool" where
  "customer_ok c \<longleftrightarrow> 0 \<le> cfMulticore c \<and> cfMulticore c \<le> 100 \<and> 0 < cfReceivePackLimit c \<and>
     (cfSendMessageType c = OpText \<or> cfSendMessageType c = OpBinary) \<and> 0 < cfHeartbeatInterval c \<and>
     cfHeartbeatIntervalSecond c = of_int (cfHeartbeatInterval c div second) \<and> cfHandlePattern c \<noteq> '''' \<and>
     cfHeartbeatMessage c \<noteq> [] \<and> - 2 \<le> cfCompressionLevel c \<and> cfCompressionLevel c \<le> 9 \<and>
     0 < cfLimitWindowSize c \<and> cfLimitWindowSizeSeconds c = cfLimitWindowSize c div second \<and>
     0 < cfLimitWindowMaxRequests c \<and> 0 < cfLimitZeroWindowMaxRequests c"

lemma guard_Some: "(if P then None else x) = Some y \<longleftrightarrow> \<not> P \<and> x = Some y"
  by simp

lemma init_customer_ok:
  assumes "init_customer c = Some c'"
  shows "customer_ok c'"
proof -
  let ?c = "customer_heartbeat (customer_limits c)"
  have c: "c' = customer_window ?c" "cfHeartbeatMessage ?c \<noteq> []" "- 2 \<le> cfCompressionLevel ?c" "cfCompressionLevel ?c \<le> 9"
    "cfSendMessageType c = 0 \<or> cfSendMessageType c = OpText \<or> cfSendMessageType c = OpBinary"
    using assms unfolding init_customer_def Let_def guard_Some by (auto simp: customer_limits_def)
  have "0 \<le> cfMulticore ?c \<and> cfMulticore ?c \<le> 100 \<and> 0 < cfReceivePackLimit ?c"
    by (simp add: customer_limits_def customer_heartbeat_def Let_def)
  moreover have "(cfSendMessageType ?c = OpText \<or> cfSendMessageType ?c = OpBinary) \<and> cfHandlePattern ?c \<noteq> ''''"
    using c(5) by (auto simp: customer_limits_def customer_heartbeat_def Let_def)
  moreover have "0 < cfHeartbeatInterval ?c \<and> cfHeartbeatIntervalSecond ?c = of_int (cfHeartbeatInterval ?c div second)"
    by (simp add: customer_heartbeat_def Let_def second_def)
  ultimately show ?thesis using c(2-4) by (simp add: c(1) customer_window_def customer_ok_def Let_def second_def)
qed

definition keyType_ok :: "RedisQueue \<Rightarrow> bool" where
  "keyType_ok q \<longleftrightarrow> rqKeyType q = ''list'' \<or> rqKeyType q = ''stream''"

lemma check_key_type_ok: "check_key_type True q = Some q' \<Longrightarrow> keyType_ok q'"
  by (auto simp: check_key_type_def keyType_ok_def Let_def split: if_splits)

text \<open>Every pointer of a section is set.\<close>

definition redis_set :: "RedisQueue \<Rightarrow> bool" where
  "redis_set q \<longleftrightarrow> rqPassword q \<noteq> None \<and> rqDB q \<noteq> None"

definition amqp_set :: "AMQP091Queue \<Rightarrow> bool" where
  "amqp_set q \<longleftrightarrow> aqVHost q \<noteq> None \<and> aqQueue q \<noteq> None \<and> aqRoutingKey q \<noteq> None \<and> aqDurable q \<noteq> None \<and> aqAutoDelete q \<noteq> None"

lemma or_new_set: "fst (or_new x y m) \<noteq> None"
  by (auto simp: or_new_def case_prod_unfold Let_def split: option.splits)

lemma redis_defaults_set: "redis_set (fst (setRedisQueueDefaultParams c p))"
  by (simp add: setRedisQueueDefaultParams_def redis_set_def case_prod_unfold Let_def or_new_set del: not_None_eq)

lemma amqp_defaults_set: "amqp_set (fst (setAMQP091QueueDefaultParams c p))"
  by (cases "aqVHost (fst p)")
    (simp_all add: setAMQP091QueueDefaultParams_def amqp_set_def case_prod_unfold Let_def or_new_set del: not_None_eq)

lemma check_key_type_keeps:
  "check_key_type b q = Some q' \<Longrightarrow> rqPassword q' = rqPassword q \<and> rqDB q' = rqDB q \<and> rqAddress q' = rqAddress q \<and> rqKey q' = rqKey q"
  by (auto simp: check_key_type_def Let_def split: if_splits)

lemma check_exchange_type_ok:
  "check_exchange_type q = Some q' \<Longrightarrow> aqExchangeType q' \<in> {''direct'', ''fanout'', ''topic'', ''headers''} \<and> (amqp_set q \<longrightarrow> amqp_set q')"
  unfolding check_exchange_type_def Let_def amqp_set_def by (simp split: if_splits) fastforce+

lemma init_redis_ok:
  assumes "init_redis c = Some c'"
  shows "keyType_ok (cfRedisOnOpen c')" "keyType_ok (cfRedisOnClose c')"
    "redis_set (cfRedisOnOpen c')" "redis_set (cfRedisOnMessage c')" "redis_set (cfRedisOnClose c')"
    "cfCustomer c' = cfCustomer c" "cfWorker c' = cfWorker c" "cfTask c' = cfTask c"
proof -
  let ?o = "setRedisQueueDefaultParams (cfRedis c) (cfRedisOnOpen c, cfMem c)"
  let ?g = "setRedisQueueDefaultParams (cfRedis c) (cfRedisOnMessage c, snd ?o)"
  let ?l = "setRedisQueueDefaultParams (cfRedis c) (cfRedisOnClose c, snd ?g)"
  obtain qo ql qg where q: "check_key_type True (fst ?o) = Some qo" "check_key_type True (fst ?l) = Some ql"
    "check_key_type False (fst ?g) = Some qg"
    and c': "c' = c\<lparr>cfRedisOnOpen := qo, cfRedisOnMessage := qg, cfRedisOnClose := ql, cfMem := snd ?l\<rparr>"
    using assms unfolding init_redis_def case_prod_unfold Let_def by (auto split: option.splits)
  show "keyType_ok (cfRedisOnOpen c')" "keyType_ok (cfRedisOnClose c')"
    using check_key_type_ok [OF q(1)] check_key_type_ok [OF q(2)] by (simp_all add: c')
  show "redis_set (cfRedisOnOpen c')" "redis_set (cfRedisOnMessage c')" "redis_set (cfRedisOnClose c')"
    using check_key_type_keeps [OF q(1)] check_key_type_keeps [OF q(2)] check_key_type_keeps [OF q(3)]
      redis_defaults_set [of "cfRedis c"] by (simp_all add: c' redis_set_def del: not_None_eq)
  show "cfCustomer c' = cfCustomer c" "cfWorker c' = cfWorker c" "cfTask c' = cfTask c" by (simp_all add: c')
qed

lemma init_amqp_ok:
  assumes "init_amqp c = Some c'"
  shows "\<forall>q \<in> {cfAmqpOnOpen c', cfAmqpOnMessage c', cfAmqpOnClose c'}.
      aqExchangeType q \<in> {''direct'', ''fanout'', ''topic'', ''headers''} \<and> amqp_set q"
    "\<exists>o' g l m. c' = c\<lparr>cfAmqpOnOpen := o', cfAmqpOnMessage := g, cfAmqpOnClose := l, cfMem := m\<rparr>"
proof -
  let ?o = "setAMQP091QueueDefaultParams (cfAmqp c) (cfAmqpOnOpen c, cfMem c)"
  let ?g = "setAMQP091QueueDefaultParams (cfAmqp c) (cfAmqpOnMessage c, snd ?o)"
  let ?l = "setAMQP091QueueDefaultParams (cfAmqp c) (cfAmqpOnClose c, snd ?g)"
  obtain qo ql qg where q: "check_exchange_type (fst ?o) = Some qo" "check_exchange_type (fst ?g) = Some qg"
    "check_exchange_type (fst ?l) = Some ql"
    and c': "c' = c\<lparr>cfAmqpOnOpen := qo, cfAmqpOnMessage := qg, cfAmqpOnClose := ql, cfMem := snd ?l\<rparr>"
    using assms unfolding init_amqp_def case_prod_unfold Let_def by (auto split: option.splits)
  note ok = check_exchange_type_ok [OF q(1)] check_exchange_type_ok [OF q(2)] check_exchange_type_ok [OF q(3)]
  have "cfAmqpOnOpen c' = qo" "cfAmqpOnMessage c' = qg" "cfAmqpOnClose c' = ql" by (simp_all add: c')
  then show "\<forall>q \<in> {cfAmqpOnOpen c', cfAmqpOnMessage c', cfAmqpOnClose c'}.
      aqExchangeType q \<in> {''direct'', ''fanout'', ''topic'', ''headers''} \<and> amqp_set q"
    using ok amqp_defaults_set [of "cfAmqp c"] by blast
  show "\<exists>o' g l m. c' = c\<lparr>cfAmqpOnOpen := o', cfAmqpOnMessage := g, cfAmqpOnClose := l, cfMem := m\<rparr>" using c' by blast
qed

definition port_ok :: "port_cfg \<Rightarrow> bool" where
  "port_ok w \<longleftrightarrow> 0 < cfReadDeadline w \<and> 0 < cfSendDeadline w \<and> cfPackLimit w \<noteq> 0 \<and> 0 < cfReadBufferSize w"

lemma init_worker_ok:
  "init_worker ne w = Some w' \<Longrightarrow> port_ok w' \<and> 0 < cfSendChanCap w' \<and>
     (cfListenAddress w \<noteq> '''' \<longrightarrow> cfPortHeartbeat w' \<noteq> [] \<and> listen_address ne (cfListenAddress w) = Some (cfListenAddress w'))"
  unfolding init_worker_def Let_def port_ok_def by (auto simp: second_def split: if_splits option.splits)

lemma init_task_ok:
  "init_task ne k = Some k' \<Longrightarrow> port_ok k' \<and> cfPortHeartbeat k' \<noteq> [] \<and> listen_address ne (cfListenAddress k) = Some (cfListenAddress k')"
  unfolding init_task_def Let_def port_ok_def by (auto simp: second_def split: if_splits option.splits)

section \<open>Properties\<close>

definition sample_port :: port_cfg where
  "sample_port = \<lparr>cfListenAddress = ''h'', cfReadDeadline = 0, cfSendDeadline = 0, cfPackLimit = 0, cfReadBufferSize = 0,
     cfSendChanCap = 0, cfPortHeartbeat = [112]\<rparr>"

definition sample_redis :: "string \<Rightarrow> RedisQueue" where
  "sample_redis k = \<lparr>rqAddress = ''r'', rqPassword = None, rqDB = None, rqKey = ''q'', rqKeyType = k\<rparr>"

definition sample_amqp :: AMQP091Queue where
  "sample_amqp = \<lparr>aqAddress = ''m'', aqUsername = ''u'', aqPassword = ''p'', aqVHost = None, aqExchange = ''x'', aqExchangeType = '''',
     aqQueue = None, aqRoutingKey = None, aqDurable = None, aqAutoDelete = None\<rparr>"

definition sample_config :: config where
  "sample_config = \<lparr>cfLogLevel = ''info'', cfLogFile = '''', cfShutdownWaitTime = 0, cfPprofListenAddress = '''', cfAutobahn = False,
     cfLimitOnOpen = 0, cfLimitOnMessage = 0,
     cfCustomer = \<lparr>cfMulticore = 100, cfCustomerListenAddress = ''0.0.0.0:6060'', cfHandlePattern = '''', cfAllowOrigin = [],
       cfMaxOnlineNum = 1000, cfHeartbeatInterval = 0, cfHeartbeatIntervalSecond = 0,
       cfReceivePackLimit = 0, cfSendMessageType = 0, cfHeartbeatMessage = [112], cfCompressionLevel = 0, cfLimitWindowSize = 0,
       cfLimitWindowSizeSeconds = 0, cfLimitWindowMaxRequests = 0, cfLimitZeroWindowMaxRequests = 0\<rparr>,
     cfOnOpenApi = '''', cfOnMessageApi = '''', cfOnCloseApi = '''', cfCallbackTimeout = 0,
     cfRedis = sample_redis '''', cfRedisOnOpen = sample_redis '''', cfRedisOnMessage = sample_redis '''', cfRedisOnClose = sample_redis '''',
     cfAmqp = sample_amqp, cfAmqpOnOpen = sample_amqp, cfAmqpOnMessage = sample_amqp, cfAmqpOnClose = sample_amqp,
     cfWorker = sample_port, cfTask = sample_port, cfMetricsItem = [],
     cfMem = \<lparr>strAt = (\<lambda>_. ''''), intAt = (\<lambda>_. 0), boolAt = (\<lambda>_. False), mnext = 0\<rparr>\<rparr>"

text \<open>The host is an IPv4 address; a name that resolves to an IPv6 address is looked up in the second environment.\<close>

definition sample_net :: "bool \<Rightarrow> net_env" where
  "sample_net v4 = \<lparr>LookupHost = (\<lambda>_. Some [''fd00::1'']), InterfaceAddrs = None, SplitHostPort = (\<lambda>_. Some (''h'', ''1'')),
     JoinHostPort = (\<lambda>h p. h @ '':'' @ p), parseIP = (\<lambda>_. v4), isGlobalUnicast = (\<lambda>_. True), isLoopback = (\<lambda>_. False),
     isUnspecified = (\<lambda>_. False), isLinkLocalUnicast = (\<lambda>_. False), to4 = (\<lambda>_. if v4 then Some ''1.2.3.4'' else None)\<rparr>"

lemma config_init_parts:
  assumes "config_init ne c = Some c'"
  obtains x r a w k where "init_customer (cfCustomer c) = Some x" "init_redis (c\<lparr>cfCustomer := x\<rparr>) = Some r" "init_amqp r = Some a"
    "init_worker ne (cfWorker a) = Some w" "init_task ne (cfTask a) = Some k" "c' = a\<lparr>cfWorker := w, cfTask := k\<rparr>"
  using assms unfolding config_init_def by (auto split: option.splits)


lemma amqp_defaults_type:
  "aqExchangeType (fst (setAMQP091QueueDefaultParams c (q, m))) = (if aqExchangeType q = '''' then aqExchangeType c else aqExchangeType q)"
  by (cases "aqVHost q") (simp_all add: setAMQP091QueueDefaultParams_def case_prod_unfold Let_def)

lemma sample_config_accepted: "\<exists>c'. config_init (sample_net True) sample_config = Some c'"
proof -
  have l: "listen_address (sample_net True) ''h'' = Some ''h''" by (simp add: listen_address_def sample_net_def IsValidIPv4_def)
  have c: "init_customer (cfCustomer sample_config) \<noteq> None"
    by (simp add: init_customer_def sample_config_def customer_limits_def customer_heartbeat_def Let_def OpText_def)
  have r: "init_redis (sample_config\<lparr>cfCustomer := x\<rparr>) \<noteq> None" for x
    by (simp add: init_redis_def sample_config_def sample_redis_def setRedisQueueDefaultParams_def or_new_def new_cell_def check_key_type_def)
  have a: "init_amqp c \<noteq> None" if "\<forall>q \<in> {cfAmqp c, cfAmqpOnOpen c, cfAmqpOnMessage c, cfAmqpOnClose c}. aqExchangeType q = ''''" for c
  proof -
    have "check_exchange_type (fst (setAMQP091QueueDefaultParams (cfAmqp c) (cfAmqpOnOpen c, m))) \<noteq> None"
      "check_exchange_type (fst (setAMQP091QueueDefaultParams (cfAmqp c) (cfAmqpOnMessage c, m))) \<noteq> None"
      "check_exchange_type (fst (setAMQP091QueueDefaultParams (cfAmqp c) (cfAmqpOnClose c, m))) \<noteq> None" for m
      using that by (auto simp: check_exchange_type_def amqp_defaults_type)
    then show ?thesis unfolding init_amqp_def case_prod_unfold Let_def by (simp split: option.split del: not_None_eq)
  qed
  have wk: "init_worker (sample_net True) sample_port \<noteq> None" "init_task (sample_net True) sample_port \<noteq> None"
    using l by (simp_all add: init_worker_def init_task_def sample_port_def)
  obtain x where x: "init_customer (cfCustomer sample_config) = Some x" using c by blast
  obtain y where y: "init_redis (sample_config\<lparr>cfCustomer := x\<rparr>) = Some y" using r by blast
  have "cfAmqp y = sample_amqp" "cfAmqpOnOpen y = sample_amqp" "cfAmqpOnMessage y = sample_amqp" "cfAmqpOnClose y = sample_amqp"
    "cfWorker y = sample_port" "cfTask y = sample_port"
    using y by (auto simp: init_redis_def case_prod_unfold Let_def sample_config_def split: option.splits)
  moreover from this obtain z where z: "init_amqp y = Some z" using a [of y] by (auto simp: sample_amqp_def)
  ultimately have "cfWorker z = sample_port" "cfTask z = sample_port" using init_amqp_ok(2) [OF z] by auto
  then show ?thesis using wk x y z by (auto simp: config_init_def)
qed


lemma redis_defaults_type:
  "setRedisQueueDefaultParams c (q\<lparr>rqKeyType := x\<rparr>, m)
   = ((fst (setRedisQueueDefaultParams c (q, m)))\<lparr>rqKeyType := (if x = '''' then rqKeyType c else x)\<rparr>, snd (setRedisQueueDefaultParams c (q, m)))"
  by (simp add: setRedisQueueDefaultParams_def case_prod_unfold Let_def)

lemma init_redis_message_type:
  assumes "init_redis c = Some c'" "x \<noteq> ''''"
  shows "init_redis (c\<lparr>cfRedisOnMessage := (cfRedisOnMessage c)\<lparr>rqKeyType := x\<rparr>\<rparr>)
     = Some (c'\<lparr>cfRedisOnMessage := (cfRedisOnMessage c')\<lparr>rqKeyType := toLower x\<rparr>\<rparr>)"
proof -
  have k: "check_key_type False (q\<lparr>rqKeyType := x\<rparr>) = Some (q\<lparr>rqKeyType := toLower x\<rparr>)" for q
    using assms(2) by (simp add: check_key_type_def Let_def)
  have k': "\<exists>y. check_key_type False q = Some (q\<lparr>rqKeyType := y\<rparr>)" for q
    by (auto simp: check_key_type_def Let_def)
  show ?thesis
    using assms k' [of "fst (setRedisQueueDefaultParams (cfRedis c) (cfRedisOnMessage c, snd (setRedisQueueDefaultParams (cfRedis c) (cfRedisOnOpen c, cfMem c))))"]
    by (auto simp: init_redis_def case_prod_unfold Let_def redis_defaults_type k split: option.splits)
qed

lemma init_amqp_message: "init_amqp (c\<lparr>cfRedisOnMessage := q\<rparr>) = map_option (\<lambda>c. c\<lparr>cfRedisOnMessage := q\<rparr>) (init_amqp c)"
  unfolding init_amqp_def case_prod_unfold Let_def by (simp split: option.split)

text \<open>The key type of the message queue is not checked: whatever it is set to, the configuration is accepted as before.\<close>

lemma config_message_type:
  assumes "config_init ne c = Some c'" "x \<noteq> ''''"
  shows "config_init ne (c\<lparr>cfRedisOnMessage := (cfRedisOnMessage c)\<lparr>rqKeyType := x\<rparr>\<rparr>)
     = Some (c'\<lparr>cfRedisOnMessage := (cfRedisOnMessage c')\<lparr>rqKeyType := toLower x\<rparr>\<rparr>)"
proof -
  obtain y r a w k where p: "init_customer (cfCustomer c) = Some y" "init_redis (c\<lparr>cfCustomer := y\<rparr>) = Some r" "init_amqp r = Some a"
    "init_worker ne (cfWorker a) = Some w" "init_task ne (cfTask a) = Some k" and c': "c' = a\<lparr>cfWorker := w, cfTask := k\<rparr>"
    using config_init_parts [OF assms(1)] .
  let ?q = "(cfRedisOnMessage r)\<lparr>rqKeyType := toLower x\<rparr>"
  have "init_redis (c\<lparr>cfRedisOnMessage := (cfRedisOnMessage c)\<lparr>rqKeyType := x\<rparr>, cfCustomer := y\<rparr>) = Some (r\<lparr>cfRedisOnMessage := ?q\<rparr>)"
  proof -
    have "c\<lparr>cfRedisOnMessage := (cfRedisOnMessage c)\<lparr>rqKeyType := x\<rparr>, cfCustomer := y\<rparr>
        = c\<lparr>cfCustomer := y, cfRedisOnMessage := (cfRedisOnMessage (c\<lparr>cfCustomer := y\<rparr>))\<lparr>rqKeyType := x\<rparr>\<rparr>"
      by (cases c) simp
    then show ?thesis using init_redis_message_type [OF p(2) assms(2)] by metis
  qed
  then have "config_init ne (c\<lparr>cfRedisOnMessage := (cfRedisOnMessage c)\<lparr>rqKeyType := x\<rparr>\<rparr>)
      = Some (a\<lparr>cfRedisOnMessage := ?q, cfWorker := w, cfTask := k\<rparr>)"
    using p by (simp add: config_init_def init_amqp_message)
  moreover have "cfRedisOnMessage a = cfRedisOnMessage r" using init_amqp_ok(2) [OF p(3)] by auto
  ultimately show ?thesis by (simp add: c')
qed

text \<open>
  A host name that resolves to a global IPv6 address last makes the port listen on the address \<^verbatim>\<open><nil>\<close>: the conversion accepts it,
  because the result differs from the name.
\<close>

theorem host_by_name_nil:
  assumes "SplitHostPort ne a = Some (name, port)" "\<not> IsValidIPv4 ne name" "LookupHost ne name = Some (as @ [x])"
    "isGlobalUnicast ne x" "to4 ne x = None" "name \<noteq> ''<nil>''"
  shows "GetHostByName ne name = ''<nil>'' \<and> listen_address ne a = Some (JoinHostPort ne ''<nil>'' port)"
proof -
  have "GetHostByName ne name = ''<nil>''"
    using assms(3-6) by (simp add: GetHostByName_def case_prod_unfold IP_String_def)
  then show ?thesis using assms(1,2,6) by (simp add: listen_address_def Let_def)
qed

theorem host_by_name_nil_witness:
  "GetHostByName (sample_net False) ''h'' = ''<nil>'' \<and> listen_address (sample_net False) ''a'' = Some (JoinHostPort (sample_net False) ''<nil>'' ''1'')"
  using host_by_name_nil [of "sample_net False" "''a''" "''h''" "''1''" "[]" "''fd00::1''"] by (simp add: sample_net_def IsValidIPv4_def)

text \<open>
  The log file's name is looked at in its second byte: the function panics exactly on names of one byte other than the slash, and
  otherwise keeps absolute names and joins relative ones with the working directory.
\<close>

theorem log_file_panics:
  "(GetLogFile join r = None \<longleftrightarrow> length (cfLogFile r) = 1 \<and> cfLogFile r \<noteq> ''/'') \<and>
   (cfLogFile r = ''/'' @ x \<longrightarrow> GetLogFile join r = Some (cfLogFile r))"
proof (cases "cfLogFile r")
  case (Cons a f)
  then show ?thesis by (cases f) (auto simp: GetLogFile_def Let_def)
qed (simp add: GetLogFile_def)

section \<open>Finding and reading the file\<close>

text \<open>The operating system, \<^verbatim>\<open>filepath.Join\<close> and the TOML decoder, which fills a given configuration, are parameters.\<close>

record load_env =
  leGetwd :: "string option"
  leJoin :: "string \<Rightarrow> string \<Rightarrow> string"
  leReadFile :: "string \<Rightarrow> string option"
  leToml :: "string \<Rightarrow> config \<Rightarrow> config option"
  leParseInt :: "string \<Rightarrow> int option"

datatype load_res = Exits nat | Loaded config

text \<open>\<^verbatim>\<open>strings.TrimSuffix\<close> and \<^verbatim>\<open>strings.SplitN(s, sep, 2)\<close>, the part before the first separator if there is one.\<close>

definition TrimSuffix :: "string \<Rightarrow> string \<Rightarrow> string" where
  "TrimSuffix s x = (if length x \<le> length s \<and> drop (length s - length x) s = x then take (length s - length x) s else s)"

fun before :: "string \<Rightarrow> string \<Rightarrow> string option" where
  "before sep [] = (if sep = [] then Some [] else None)"
| "before sep (c # cs) = (if take (length sep) (c # cs) = sep then Some [] else map_option ((#) c) (before sep cs))"

definition RootPath :: "load_env \<Rightarrow> string option" where
  "RootPath e = map_option (\<lambda>dir. TrimSuffix dir ''/'' @ ''/'') (leGetwd e)"

text \<open>The command line: whether \<^verbatim>\<open>-version\<close> is given, and the argument of \<^verbatim>\<open>-config\<close>. Inside the sources, where tests run, it is not read.\<close>

definition config_flags :: "load_env \<Rightarrow> string \<Rightarrow> bool \<times> string option \<Rightarrow> bool \<times> string" where
  "config_flags e root flags = (case before ''/internal/'' root of
      Some repo \<Rightarrow> (False, leJoin e repo ''configs/netsvr.toml'')
    | None \<Rightarrow> (fst flags, case snd flags of Some f \<Rightarrow> f | None \<Rightarrow> leJoin e root ''configs/netsvr.toml''))"

definition config_load :: "load_env \<Rightarrow> net_env \<Rightarrow> string \<Rightarrow> config \<Rightarrow> bool \<times> string option \<Rightarrow> load_res" where
  "config_load e ne timestamp new flags = (case RootPath e of
      None \<Rightarrow> Exits 1
    | Some root \<Rightarrow>
       (let (version, configFile) = config_flags e root flags
        in if version then (case leParseInt e timestamp of None \<Rightarrow> Exits 1 | Some _ \<Rightarrow> Exits 0)
           else case leReadFile e configFile of
                  None \<Rightarrow> Exits 1
                | Some c \<Rightarrow> (case leToml e c (new\<lparr>cfCustomer := (cfCustomer new)\<lparr>cfMulticore := 100\<rparr>\<rparr>) of
                    None \<Rightarrow> Exits 1
                  | Some cf \<Rightarrow> (case config_init ne cf of None \<Rightarrow> Exits 1 | Some cf \<Rightarrow> Loaded cf))))"

text \<open>The process goes on exactly with a configuration that was read and accepted, and exits with 0 only to print its version.\<close>

lemma config_load_cases:
  "config_load e ne timestamp new flags = Loaded cf \<longleftrightarrow>
     (\<exists>root c raw. RootPath e = Some root \<and> \<not> fst (config_flags e root flags) \<and> leReadFile e (snd (config_flags e root flags)) = Some c \<and>
        leToml e c (new\<lparr>cfCustomer := (cfCustomer new)\<lparr>cfMulticore := 100\<rparr>\<rparr>) = Some raw \<and> config_init ne raw = Some cf)"
  "config_load e ne timestamp new flags = Exits 0 \<longleftrightarrow>
     (\<exists>root. RootPath e = Some root \<and> fst (config_flags e root flags) \<and> leParseInt e timestamp \<noteq> None)"
  unfolding config_load_def by (auto simp: case_prod_unfold Let_def split: option.splits)

lemma before_append: "before sep s = Some p \<Longrightarrow> \<exists>r. s = p @ sep @ r"
proof (induction s arbitrary: p)
  case (Cons c s)
  show ?case
  proof (cases "take (length sep) (c # s) = sep")
    case True
    then have "c # s = sep @ drop (length sep) (c # s)" by (metis append_take_drop_id)
    then show ?thesis using Cons.prems True by auto
  next
    case False
    then obtain q where "before sep s = Some q" "p = c # q" using Cons.prems by auto
    then show ?thesis using Cons.IH [of q] by auto
  qed
qed (simp split: if_splits)

text \<open>Tests inside the repository all read the file of the repository, whatever the command line.\<close>

lemma test_config: "before ''/internal/'' root = Some repo \<Longrightarrow> config_flags e root flags = (False, leJoin e repo ''configs/netsvr.toml'') \<and> (\<exists>r. root = repo @ ''/internal/'' @ r)"
  using before_append [of "''/internal/''" root repo] by (simp add: config_flags_def)

end
