(* ===== verification/RedisManager.thy ===== *)
theory RedisManager
  imports RedisSink Config
begin

text \<open>
  The Redis queues of the events, \<^verbatim>\<open>src/internal/queue/redisQueue/manager.go\<close>: at the start a client and a queue are made for
  every configured section and shared between sections with the same identifier; at the end all queues are closed.
  A panic is \<open>None\<close>. \<open>ping\<close> says whether the server answers the \<^verbatim>\<open>PING\<close> of a new client.
\<close>

section \<open>Identifiers\<close>

text \<open>Decimal digits, \<^verbatim>\<open>%d\<close>.\<close>

definition digit :: "nat \<Rightarrow> char" where "digit n = char_of (48 + n)"

fun decimal :: "nat \<Rightarrow> string" where
  "decimal n = (if n < 10 then [digit n] else decimal (n div 10) @ [digit (n mod 10)])"

declare decimal.simps [simp del]

text \<open>\<^verbatim>\<open>queueConfig.DB\<close> is a pointer, of which \<^verbatim>\<open>%d\<close> prints the address.\<close>

definition redisId :: "RedisQueue \<Rightarrow> string" where
  "redisId q = ''Address'' @ rqAddress q @ ''DB'' @ decimal (case rqDB q of None \<Rightarrow> 0 | Some p \<Rightarrow> p)"

definition queueId :: "RedisQueue \<Rightarrow> string" where
  "queueId q = redisId q @ ''Key'' @ rqKey q @ ''KeyType'' @ rqKeyType q"

section \<open>Start\<close>

definition unconfigured :: "RedisQueue \<Rightarrow> bool" where
  "unconfigured q \<longleftrightarrow> rqAddress q = '''' \<or> rqKey q = ''''"

type_synonym clientMp = "string \<rightharpoonup> rclient"

text \<open>Queues are pointers too: indices into the list of the queues made so far.\<close>

type_synonym queueMp = "string \<rightharpoonup> nat"

definition makeRedisClient :: "(rclient \<Rightarrow> bool) \<Rightarrow> mem \<Rightarrow> RedisQueue \<Rightarrow> clientMp \<Rightarrow> clientMp option" where
  "makeRedisClient ping m q mp =
     (if unconfigured q then Some mp
      else if mp (redisId q) \<noteq> None then Some mp
      else case (rqPassword q, rqDB q) of
        (Some p, Some d) \<Rightarrow>
          (let c = \<lparr>rcAddr = rqAddress q, rcPassword = strAt m p, rcDB = intAt m d\<rparr>
           in if ping c then Some (mp(redisId q \<mapsto> c)) else None)
      | _ \<Rightarrow> None)"

definition makeQueue :: "mem \<Rightarrow> clientMp \<Rightarrow> RedisQueue \<Rightarrow> queueMp \<times> rqueue list \<Rightarrow> (nat option \<times> queueMp \<times> rqueue list) option" where
  "makeQueue m mp q = (\<lambda>(qm, qs).
     if unconfigured q then Some (None, qm, qs)
     else case qm (queueId q) of
       Some i \<Rightarrow> Some (Some i, qm, qs)
     | None \<Rightarrow> (case (mp (redisId q), rqDB q) of
         (Some c, Some d) \<Rightarrow> (case newRQueue c (rqKey q) (intAt m d) (rqKeyType q) 256 of
             None \<Rightarrow> None
           | Some new \<Rightarrow> Some (Some (length qs), qm(queueId q \<mapsto> length qs), qs @ [new]))
       | _ \<Rightarrow> None))"

record rmanager =
  rmOnOpen :: "nat option"
  rmOnMessage :: "nat option"
  rmOnClose :: "nat option"
  rmQueues :: "rqueue list"

definition RManager_Get :: "rmanager \<Rightarrow> Event \<Rightarrow> rqueue option" where
  "RManager_Get r e = map_option (\<lambda>i. rmQueues r ! i)
     (case e of Event_OnOpen \<Rightarrow> rmOnOpen r | Event_OnMessage \<Rightarrow> rmOnMessage r | Event_OnClose \<Rightarrow> rmOnClose r | Event_Placeholder \<Rightarrow> None)"

definition RManager_Start :: "(rclient \<Rightarrow> bool) \<Rightarrow> config \<Rightarrow> rmanager option" where
  "RManager_Start ping cf =
     (let m = cfMem cf; opn = cfRedisOnOpen cf; msg = cfRedisOnMessage cf; cls = cfRedisOnClose cf
      in case makeRedisClient ping m opn (\<lambda>_. None) of None \<Rightarrow> None | Some mp \<Rightarrow>
         (case makeRedisClient ping m msg mp of None \<Rightarrow> None | Some mp \<Rightarrow>
         (case makeRedisClient ping m cls mp of None \<Rightarrow> None | Some mp \<Rightarrow>
         (case makeQueue m mp opn (\<lambda>_. None, []) of None \<Rightarrow> None | Some (i, qm) \<Rightarrow>
         (case makeQueue m mp msg qm of None \<Rightarrow> None | Some (j, qm) \<Rightarrow>
         (case makeQueue m mp cls qm of None \<Rightarrow> None | Some (k, _, qs) \<Rightarrow>
            Some \<lparr>rmOnOpen = i, rmOnMessage = j, rmOnClose = k, rmQueues = qs\<rparr>))))))"

section \<open>Shutdown\<close>

text \<open>\<^verbatim>\<open>Close\<close> on a queue alone; the order of the goroutines does not matter, as \<^verbatim>\<open>Close\<close> sets a flag once.\<close>

definition close_flags :: "rqueue \<Rightarrow> rqueue" where
  "close_flags q = (if rqCloseLock q then q else q\<lparr>rqCloseLock := True, rqCloseTimer := True\<rparr>)"

definition RManager_Shutdown :: "rmanager \<Rightarrow> rmanager" where
  "RManager_Shutdown r = fold (\<lambda>i r. case i of None \<Rightarrow> r | Some i \<Rightarrow> r\<lparr>rmQueues := (rmQueues r)[i := close_flags (rmQueues r ! i)]\<rparr>)
     [rmOnOpen r, rmOnMessage r, rmOnClose r] r"

lemma close_flags_Close: "rsQ (snd (RQueue_Close s)) = close_flags (rsQ s)"
  by (simp add: RQueue_Close_def close_flags_def)

section \<open>Identifiers tell sections apart\<close>

fun undecimal :: "nat \<Rightarrow> string \<Rightarrow> nat" where
  "undecimal v [] = v"
| "undecimal v (c # cs) = undecimal (10 * v + (of_char c - 48)) cs"

lemma undecimal_append: "undecimal v (xs @ ys) = undecimal (undecimal v xs) ys"
  by (induction xs arbitrary: v) simp_all

lemma digit_val: "n < 10 \<Longrightarrow> of_char (digit n) = (48 + n :: nat)"
  by (simp add: digit_def)

lemma undecimal_decimal: "undecimal 0 (decimal n) = n"
proof (induction n rule: decimal.induct)
  case (1 n)
  show ?case
  proof (cases "n < 10")
    case False
    then show ?thesis using 1 by (simp add: decimal.simps [of n] undecimal_append digit_val)
  qed (simp add: decimal.simps [of n] digit_val)
qed

lemma decimal_inj: "decimal n = decimal k \<longleftrightarrow> n = k"
  using undecimal_decimal by metis

definition isDigit :: "char \<Rightarrow> bool" where "isDigit c \<longleftrightarrow> of_char c \<in> {48 ..< 58 :: nat}"

lemma decimal_digits: "c \<in> set (decimal n) \<Longrightarrow> isDigit c"
proof (induction n arbitrary: c rule: decimal.induct)
  case (1 n)
  then show ?case by (cases "n < 10") (auto simp: decimal.simps [of n] isDigit_def digit_val)
qed

lemma takeWhile_split:
  assumes "\<forall>x \<in> set xs. P x" "\<forall>x \<in> set ys. P x" "\<not> P a" "\<not> P b"
  shows "xs @ a # us = ys @ b # vs \<longleftrightarrow> xs = ys \<and> a # us = b # vs"
proof
  assume e: "xs @ a # us = ys @ b # vs"
  have "takeWhile P (xs @ a # us) = xs" "takeWhile P (ys @ b # vs) = ys" using assms by (simp_all add: takeWhile_append2)
  then show "xs = ys \<and> a # us = b # vs" using e by simp
qed simp

lemma decimal_suffix:
  assumes "a @ ''DB'' @ decimal n = b @ ''DB'' @ decimal k"
  shows "a = b \<and> n = k"
proof -
  have "rev (decimal n) @ CHR ''B'' # CHR ''D'' # rev a = rev (decimal k) @ CHR ''B'' # CHR ''D'' # rev b"
    using arg_cong [OF assms, of rev] by simp
  then have "rev (decimal n) = rev (decimal k) \<and> rev a = rev b"
    by (subst (asm) takeWhile_split [where P = isDigit]) (auto simp: decimal_digits, simp_all add: isDigit_def)
  then show ?thesis by (simp add: decimal_inj)
qed

lemma redisId_inj:
  assumes "redisId q = redisId r" "rqDB q \<noteq> None" "rqDB r \<noteq> None"
  shows "rqAddress q = rqAddress r \<and> rqDB q = rqDB r"
proof -
  obtain p p' where p: "rqDB q = Some p" "rqDB r = Some p'" using assms(2,3) by blast
  then have "rqAddress q @ ''DB'' @ decimal p = rqAddress r @ ''DB'' @ decimal p'" using assms(1) by (simp add: redisId_def)
  from decimal_suffix [OF this] show ?thesis by (simp add: p)
qed

lemma redisId_noK: "CHR ''K'' \<notin> set (rqAddress q) \<Longrightarrow> CHR ''K'' \<notin> set (redisId q)"
  using decimal_digits [of "CHR ''K''"] by (auto simp: redisId_def isDigit_def)

lemma queueId_inj:
  assumes e: "queueId q = queueId r" and k: "CHR ''K'' \<notin> set (rqAddress q)" "CHR ''K'' \<notin> set (rqAddress r)"
    and "keyType_ok q" "keyType_ok r"
  shows "redisId q = redisId r \<and> rqKey q = rqKey r \<and> rqKeyType q = rqKeyType r"
proof -
  have "redisId q = redisId r \<and> CHR ''K'' # ''ey'' @ rqKey q @ ''KeyType'' @ rqKeyType q = CHR ''K'' # ''ey'' @ rqKey r @ ''KeyType'' @ rqKeyType r"
    using e redisId_noK [OF k(1)] redisId_noK [OF k(2)]
    unfolding queueId_def by (subst (asm) append_Cons, subst (asm) append_Cons) (subst (asm) takeWhile_split [where P = "\<lambda>c. c \<noteq> CHR ''K''"], auto)
  then have "redisId q = redisId r" and s: "rqKey q @ ''KeyType'' @ rqKeyType q = rqKey r @ ''KeyType'' @ rqKeyType r" by simp_all
  moreover have "rqKeyType q = rqKeyType r"
    using arg_cong [OF s, of List.last] assms(4,5) by (auto simp: keyType_ok_def)
  ultimately show ?thesis by simp
qed

section \<open>What the start makes\<close>

text \<open>A section whose queue can be made: its optional values are set and its key type is valid.\<close>

definition usable :: "RedisQueue \<Rightarrow> bool" where
  "usable q \<longleftrightarrow> redis_set q \<and> keyType_ok q \<and> CHR ''K'' \<notin> set (rqAddress q)"

definition serves :: "mem \<Rightarrow> RedisQueue \<Rightarrow> rqueue \<Rightarrow> bool" where
  "serves m q x \<longleftrightarrow> (\<exists>pw. newRQueue \<lparr>rcAddr = rqAddress q, rcPassword = pw, rcDB = intAt m (the (rqDB q))\<rparr>
     (rqKey q) (intAt m (the (rqDB q))) (rqKeyType q) 256 = Some x)"

definition clients_ok :: "mem \<Rightarrow> clientMp \<Rightarrow> bool" where
  "clients_ok m mp \<longleftrightarrow> (\<forall>k c. mp k = Some c \<longrightarrow> (\<exists>q. usable q \<and> k = redisId q \<and> rcAddr c = rqAddress q \<and> rcDB c = intAt m (the (rqDB q))))"

definition queues_ok :: "mem \<Rightarrow> queueMp \<times> rqueue list \<Rightarrow> bool" where
  "queues_ok m = (\<lambda>(qm, qs). (\<forall>k i. qm k = Some i \<longrightarrow> i < length qs \<and> (\<exists>q. usable q \<and> k = queueId q \<and> serves m q (qs ! i))) \<and>
     (\<forall>k k' i. qm k = Some i \<longrightarrow> qm k' = Some i \<longrightarrow> k = k'))"

lemma makeRedisClient_ok:
  assumes "clients_ok m mp" "usable q" "\<forall>c. ping c"
  shows "\<exists>mp'. makeRedisClient ping m q mp = Some mp' \<and> clients_ok m mp' \<and> dom mp' = dom mp \<union> (if unconfigured q then {} else {redisId q})"
proof -
  obtain p d where pd: "rqPassword q = Some p" "rqDB q = Some d" using assms(2) by (auto simp: usable_def redis_set_def)
  show ?thesis
    using assms pd by (cases "unconfigured q"; cases "mp (redisId q)") (auto simp: makeRedisClient_def clients_ok_def Let_def)
qed

lemma newRQueue_same:
  "newRQueue c k d t n = Some x \<Longrightarrow> rcAddr c = rcAddr c' \<Longrightarrow> rcDB c = rcDB c' \<Longrightarrow> rcPassword c' = rcPassword c \<Longrightarrow> newRQueue c' k d t n = Some x"
  by (cases c; cases c') simp

lemma serves_same: "serves m q x \<Longrightarrow> rqAddress q = rqAddress r \<Longrightarrow> rqDB q = rqDB r \<Longrightarrow> rqKey q = rqKey r \<Longrightarrow> rqKeyType q = rqKeyType r \<Longrightarrow> serves m r x"
  by (simp add: serves_def)

lemma queues_ok_insert:
  assumes "queues_ok m (qm, qs)" "usable q" "serves m q x"
  shows "queues_ok m (qm(queueId q \<mapsto> length qs), qs @ [x])"
proof -
  have old: "i < length qs \<and> (\<exists>q. usable q \<and> k = queueId q \<and> serves m q (qs ! i))" if "qm k = Some i" for k i
    using assms(1) that by (simp add: queues_ok_def)
  have inj: "k = k'" if "qm k = Some i" "qm k' = Some i" for k k' i using assms(1) that unfolding queues_ok_def by blast
  have "i < length (qs @ [x]) \<and> (\<exists>q. usable q \<and> k = queueId q \<and> serves m q ((qs @ [x]) ! i))"
    if "(qm(queueId q \<mapsto> length qs)) k = Some i" for k i
    using that old [of k i] assms(2,3) by (cases "k = queueId q") (auto simp: nth_append)
  moreover have "k = k'" if "(qm(queueId q \<mapsto> length qs)) k = Some i" "(qm(queueId q \<mapsto> length qs)) k' = Some i" for k k' i
    using that old [of k i] old [of k' i] inj [of k i k'] by (simp split: if_splits)
  ultimately show ?thesis unfolding queues_ok_def by blast
qed

lemma makeQueue_ok:
  assumes "clients_ok m mp" "queues_ok m (qm, qs)" "usable q" "\<not> unconfigured q \<Longrightarrow> redisId q \<in> dom mp"
  shows "\<exists>i qm' qs'. makeQueue m mp q (qm, qs) = Some (i, qm', qs @ qs') \<and> queues_ok m (qm', qs @ qs') \<and> qm \<subseteq>\<^sub>m qm' \<and>
     (if unconfigured q then i = None else \<exists>n < length (qs @ qs'). i = Some n \<and> qm' (queueId q) = i \<and> serves m q ((qs @ qs') ! n))"
proof (cases "unconfigured q")
  case True
  then show ?thesis using assms(2) by (intro exI [of _ None] exI [of _ qm] exI [of _ "[]"]) (simp add: makeQueue_def)
next
  case conf: False
  show ?thesis
  proof (cases "qm (queueId q)")
    case (Some n)
    then obtain r where r: "n < length qs" "usable r" "queueId q = queueId r" "serves m r (qs ! n)"
      using assms(2) unfolding queues_ok_def by blast
    have "redisId q = redisId r \<and> rqKey q = rqKey r \<and> rqKeyType q = rqKeyType r"
      using queueId_inj [OF r(3)] assms(3) r(2) by (simp add: usable_def)
    then have "serves m q (qs ! n)"
      using redisId_inj [of r q] serves_same [OF r(4), of q] assms(3) r(2) by (simp add: usable_def redis_set_def)
    then show ?thesis using assms(2) conf Some r(1)
      by (intro exI [of _ "Some n"] exI [of _ qm] exI [of _ "[]"]) (simp add: makeQueue_def)
  next
    case None
    obtain c where c: "mp (redisId q) = Some c" using assms(4) [OF conf] by blast
    then obtain r where r: "usable r" "redisId q = redisId r" "rcAddr c = rqAddress r" "rcDB c = intAt m (the (rqDB r))"
      using assms(1) unfolding clients_ok_def by blast
    obtain d where d: "rqDB q = Some d" using assms(3) by (auto simp: usable_def redis_set_def)
    have eq: "rqAddress q = rqAddress r" "rqDB q = rqDB r"
      using redisId_inj [OF r(2)] assms(3) r(1) by (simp_all add: usable_def redis_set_def)
    have "keyType_ok q" using assms(3) by (simp add: usable_def)
    then obtain x where x: "newRQueue c (rqKey q) (intAt m d) (rqKeyType q) 256 = Some x"
      by (auto simp: keyType_ok_def newRQueue_def)
    have "c = \<lparr>rcAddr = rqAddress q, rcPassword = rcPassword c, rcDB = intAt m (the (rqDB q))\<rparr>" using r(3,4) eq by simp
    then have s: "serves m q x" using x d unfolding serves_def by (metis option.sel)
    have "queues_ok m (qm(queueId q \<mapsto> length qs), qs @ [x])"
      by (rule queues_ok_insert [OF assms(2,3) s])
    then show ?thesis using c d x s conf None
      by (intro exI [of _ "Some (length qs)"] exI [of _ "qm(queueId q \<mapsto> length qs)"] exI [of _ "[x]"])
        (auto simp: makeQueue_def map_le_def)
  qed
qed

text \<open>The queue of a section: none without address or key, else one for its server, database, key and key type.\<close>

definition section_served :: "mem \<Rightarrow> RedisQueue \<Rightarrow> rqueue list \<Rightarrow> nat option \<Rightarrow> bool" where
  "section_served m q qs i \<longleftrightarrow> (if unconfigured q then i = None else \<exists>n < length qs. i = Some n \<and> serves m q (qs ! n))"

lemma section_served_more: "section_served m q qs i \<Longrightarrow> section_served m q (qs @ qs') i"
  by (auto simp: section_served_def nth_append split: if_splits)

lemma start_parts:
  assumes u: "usable (cfRedisOnOpen cf)" "usable (cfRedisOnMessage cf)" "usable (cfRedisOnClose cf)" and ping: "\<forall>c. ping c"
  obtains r qm where "RManager_Start ping cf = Some r" "queues_ok (cfMem cf) (qm, rmQueues r)"
    "section_served (cfMem cf) (cfRedisOnOpen cf) (rmQueues r) (rmOnOpen r)"
    "section_served (cfMem cf) (cfRedisOnMessage cf) (rmQueues r) (rmOnMessage r)"
    "section_served (cfMem cf) (cfRedisOnClose cf) (rmQueues r) (rmOnClose r)"
    "\<not> unconfigured (cfRedisOnOpen cf) \<Longrightarrow> qm (queueId (cfRedisOnOpen cf)) = rmOnOpen r"
    "\<not> unconfigured (cfRedisOnMessage cf) \<Longrightarrow> qm (queueId (cfRedisOnMessage cf)) = rmOnMessage r"
    "\<not> unconfigured (cfRedisOnClose cf) \<Longrightarrow> qm (queueId (cfRedisOnClose cf)) = rmOnClose r"
proof -
  let ?m = "cfMem cf" and ?o = "cfRedisOnOpen cf" and ?g = "cfRedisOnMessage cf" and ?l = "cfRedisOnClose cf"
  have c0: "clients_ok ?m (\<lambda>_. None)" by (simp add: clients_ok_def)
  obtain m1 where m1: "makeRedisClient ping ?m ?o (\<lambda>_. None) = Some m1" "clients_ok ?m m1" "dom m1 = (if unconfigured ?o then {} else {redisId ?o})"
    using makeRedisClient_ok [OF c0 u(1) ping] by auto
  obtain m2 where m2: "makeRedisClient ping ?m ?g m1 = Some m2" "clients_ok ?m m2" "dom m2 = dom m1 \<union> (if unconfigured ?g then {} else {redisId ?g})"
    using makeRedisClient_ok [OF m1(2) u(2) ping] by blast
  obtain m3 where m3: "makeRedisClient ping ?m ?l m2 = Some m3" "clients_ok ?m m3" "dom m3 = dom m2 \<union> (if unconfigured ?l then {} else {redisId ?l})"
    using makeRedisClient_ok [OF m2(2) u(3) ping] by blast
  have d: "\<not> unconfigured ?o \<Longrightarrow> redisId ?o \<in> dom m3" "\<not> unconfigured ?g \<Longrightarrow> redisId ?g \<in> dom m3" "\<not> unconfigured ?l \<Longrightarrow> redisId ?l \<in> dom m3"
    unfolding m3(3) m2(3) m1(3) by simp_all
  have q0: "queues_ok ?m (\<lambda>_. None, [])" by (simp add: queues_ok_def)
  from makeQueue_ok [OF m3(2) q0 u(1) d(1)] obtain i qm1 qs1 where
    1: "makeQueue ?m m3 ?o (\<lambda>_. None, []) = Some (i, qm1, qs1)" "queues_ok ?m (qm1, qs1)" "section_served ?m ?o qs1 i"
       "\<not> unconfigured ?o \<Longrightarrow> qm1 (queueId ?o) = i"
    by (auto simp: section_served_def split: if_splits)
  from makeQueue_ok [OF m3(2) 1(2) u(2) d(2)] obtain j qm2 qs2 where
    2: "makeQueue ?m m3 ?g (qm1, qs1) = Some (j, qm2, qs1 @ qs2)" "queues_ok ?m (qm2, qs1 @ qs2)" "section_served ?m ?g (qs1 @ qs2) j"
       "\<not> unconfigured ?g \<Longrightarrow> qm2 (queueId ?g) = j" "qm1 \<subseteq>\<^sub>m qm2"
    by (auto simp: section_served_def split: if_splits)
  from makeQueue_ok [OF m3(2) 2(2) u(3) d(3)] obtain k qm3 qs3 where
    3: "makeQueue ?m m3 ?l (qm2, qs1 @ qs2) = Some (k, qm3, (qs1 @ qs2) @ qs3)" "queues_ok ?m (qm3, (qs1 @ qs2) @ qs3)"
       "section_served ?m ?l ((qs1 @ qs2) @ qs3) k" "\<not> unconfigured ?l \<Longrightarrow> qm3 (queueId ?l) = k" "qm2 \<subseteq>\<^sub>m qm3"
    by (auto simp: section_served_def split: if_splits)
  let ?r = "\<lparr>rmOnOpen = i, rmOnMessage = j, rmOnClose = k, rmQueues = (qs1 @ qs2) @ qs3\<rparr>"
  have "RManager_Start ping cf = Some ?r" unfolding RManager_Start_def Let_def m1(1) m2(1) m3(1) 1(1) by (simp add: m2(1) m3(1) 1(1) 2(1) 3(1))
  moreover have "section_served ?m ?o (rmQueues ?r) (rmOnOpen ?r)" "section_served ?m ?g (rmQueues ?r) (rmOnMessage ?r)"
    using section_served_more [OF 1(3), of "qs2 @ qs3"] section_served_more [OF 2(3), of qs3] by simp_all
  moreover have "qm3 (queueId ?o) = i" if c: "\<not> unconfigured ?o"
    using 1(3,4) 2(5) 3(5) c map_le_trans by (fastforce simp: section_served_def map_le_def dom_def)
  moreover have "qm3 (queueId ?g) = j" if c: "\<not> unconfigured ?g"
    using 2(3,4) 3(5) c by (fastforce simp: section_served_def map_le_def dom_def)
  ultimately show ?thesis using that [of ?r qm3] 3 by simp
qed

section \<open>Properties\<close>

definition sections_of :: "config \<Rightarrow> (Event \<times> RedisQueue) list" where
  "sections_of cf = [(Event_OnOpen, cfRedisOnOpen cf), (Event_OnMessage, cfRedisOnMessage cf), (Event_OnClose, cfRedisOnClose cf)]"

lemma accepted_usable:
  assumes "config_init ne c = Some cf" "keyType_ok (cfRedisOnMessage cf)" "\<forall>(e, q) \<in> set (sections_of cf). CHR ''K'' \<notin> set (rqAddress q)"
  shows "usable (cfRedisOnOpen cf)" "usable (cfRedisOnMessage cf)" "usable (cfRedisOnClose cf)"
proof -
  obtain x r a w k where p: "init_redis (c\<lparr>cfCustomer := x\<rparr>) = Some r" "init_amqp r = Some a" and cf: "cf = a\<lparr>cfWorker := w, cfTask := k\<rparr>"
    using config_init_parts [OF assms(1)] .
  have "cfRedisOnOpen cf = cfRedisOnOpen r" "cfRedisOnMessage cf = cfRedisOnMessage r" "cfRedisOnClose cf = cfRedisOnClose r"
    using init_amqp_ok(2) [OF p(2)] by (auto simp: cf)
  then show "usable (cfRedisOnOpen cf)" "usable (cfRedisOnMessage cf)" "usable (cfRedisOnClose cf)"
    using init_redis_ok(1-5) [OF p(1)] assms(2,3) by (simp_all add: usable_def sections_of_def)
qed

text \<open>
  Every event gets the queue its section describes: with an accepted configuration, a valid key type for messages and servers that
  answer, the start succeeds; an event whose section has no address or no key has no queue, any other one has a queue on the
  server, the database, the key and the key type of its own section.
\<close>

theorem redis_start_serves:
  assumes "config_init ne c = Some cf" "keyType_ok (cfRedisOnMessage cf)" "\<forall>c. ping c"
    "\<forall>(e, q) \<in> set (sections_of cf). CHR ''K'' \<notin> set (rqAddress q)"
  shows "\<exists>r. RManager_Start ping cf = Some r \<and> (\<forall>(e, q) \<in> set (sections_of cf).
     if unconfigured q then RManager_Get r e = None else \<exists>x. RManager_Get r e = Some x \<and> serves (cfMem cf) q x)"
proof -
  obtain r qm where r: "RManager_Start ping cf = Some r"
    "section_served (cfMem cf) (cfRedisOnOpen cf) (rmQueues r) (rmOnOpen r)"
    "section_served (cfMem cf) (cfRedisOnMessage cf) (rmQueues r) (rmOnMessage r)"
    "section_served (cfMem cf) (cfRedisOnClose cf) (rmQueues r) (rmOnClose r)"
    using start_parts [OF accepted_usable [OF assms(1,2,4)] assms(3)] by metis
  then show ?thesis by (auto simp: sections_of_def RManager_Get_def section_served_def split: if_splits)
qed

text \<open>
  Sections share a queue by the address of their database number: two configured sections use the same queue exactly when server, key,
  key type and the pointer to the number agree. Two sections that spell out the same database number get two queues.
\<close>

theorem redis_queue_shared_iff:
  assumes "config_init ne c = Some cf" "keyType_ok (cfRedisOnMessage cf)" "\<forall>c. ping c"
    "\<forall>(e, q) \<in> set (sections_of cf). CHR ''K'' \<notin> set (rqAddress q)"
    "\<not> unconfigured (cfRedisOnOpen cf)" "\<not> unconfigured (cfRedisOnMessage cf)"
  shows "\<exists>r. RManager_Start ping cf = Some r \<and> (rmOnOpen r = rmOnMessage r \<longleftrightarrow>
     rqAddress (cfRedisOnOpen cf) = rqAddress (cfRedisOnMessage cf) \<and> rqDB (cfRedisOnOpen cf) = rqDB (cfRedisOnMessage cf) \<and>
     rqKey (cfRedisOnOpen cf) = rqKey (cfRedisOnMessage cf) \<and> rqKeyType (cfRedisOnOpen cf) = rqKeyType (cfRedisOnMessage cf))"
proof -
  let ?o = "cfRedisOnOpen cf" and ?g = "cfRedisOnMessage cf"
  note u = accepted_usable [OF assms(1,2,4)]
  obtain r qm where r: "RManager_Start ping cf = Some r" "queues_ok (cfMem cf) (qm, rmQueues r)"
    "section_served (cfMem cf) ?o (rmQueues r) (rmOnOpen r)" "section_served (cfMem cf) ?g (rmQueues r) (rmOnMessage r)"
    "qm (queueId ?o) = rmOnOpen r" "qm (queueId ?g) = rmOnMessage r"
    using start_parts [OF u assms(3)] assms(5,6) by metis
  obtain i where i: "rmOnOpen r = Some i" using r(3) assms(5) by (auto simp: section_served_def)
  have "rmOnOpen r = rmOnMessage r \<longleftrightarrow> queueId ?o = queueId ?g"
  proof
    assume "rmOnOpen r = rmOnMessage r"
    then have "qm (queueId ?o) = Some i" "qm (queueId ?g) = Some i" using r(5,6) i by simp_all
    then show "queueId ?o = queueId ?g" using r(2) unfolding queues_ok_def by blast
  qed (use r(5,6) in simp)
  moreover have "queueId ?o = queueId ?g \<Longrightarrow> redisId ?o = redisId ?g \<and> rqKey ?o = rqKey ?g \<and> rqKeyType ?o = rqKeyType ?g"
    by (erule queueId_inj) (use u in \<open>simp_all add: usable_def\<close>)
  moreover have "redisId ?o = redisId ?g \<Longrightarrow> rqAddress ?o = rqAddress ?g \<and> rqDB ?o = rqDB ?g"
    by (erule redisId_inj) (use u in \<open>simp_all add: usable_def redis_set_def\<close>)
  moreover have "rqAddress ?o = rqAddress ?g \<and> rqDB ?o = rqDB ?g \<and> rqKey ?o = rqKey ?g \<and> rqKeyType ?o = rqKeyType ?g \<Longrightarrow> queueId ?o = queueId ?g"
    by (simp add: queueId_def redisId_def)
  ultimately show ?thesis using r(1) by blast
qed

text \<open>Key types are in lower case, so that they can be read off the identifier.\<close>

lemma keyType_split:
  assumes "a @ ''KeyType'' @ s = b @ ''KeyType'' @ t" "CHR ''K'' \<notin> set s" "CHR ''K'' \<notin> set t"
  shows "s = t"
proof -
  have "rev (''eyType'' @ s) @ CHR ''K'' # rev a = rev (''eyType'' @ t) @ CHR ''K'' # rev b"
    using arg_cong [OF assms(1), of rev] by simp
  moreover have "\<forall>c \<in> set (rev (''eyType'' @ u)). c \<noteq> CHR ''K''" if "CHR ''K'' \<notin> set u" for u using that by auto
  ultimately have "rev (''eyType'' @ s) = rev (''eyType'' @ t)"
    using takeWhile_split [of "rev (''eyType'' @ s)" "\<lambda>c. c \<noteq> CHR ''K''" "rev (''eyType'' @ t)" "CHR ''K''" "CHR ''K''"] assms(2,3) by metis
  then show ?thesis by simp
qed

lemma toLower_noK: "CHR ''K'' \<notin> set (toLower x)"
proof
  assume "CHR ''K'' \<in> set (toLower x)"
  then obtain c where "CHR ''K'' = lowChar c" by (auto simp: toLower_def)
  then have "of_char (lowChar c) = (75 :: nat)" by (simp flip: \<open>CHR ''K'' = lowChar c\<close>)
  then show False by (auto simp: lowChar_def split: if_splits)
qed

lemma start_message_panics:
  assumes "\<not> keyType_ok (cfRedisOnMessage cf)" "CHR ''K'' \<notin> set (rqKeyType (cfRedisOnMessage cf))" "\<not> unconfigured (cfRedisOnMessage cf)"
    "keyType_ok (cfRedisOnOpen cf)"
  shows "RManager_Start ping cf = None"
proof -
  let ?m = "cfMem cf" and ?o = "cfRedisOnOpen cf" and ?g = "cfRedisOnMessage cf"
  have "CHR ''K'' \<notin> set (rqKeyType ?o)" using assms(4) by (auto simp: keyType_ok_def)
  then have "queueId ?o \<noteq> queueId ?g"
    using keyType_split [of "redisId ?o @ ''Key'' @ rqKey ?o" "rqKeyType ?o" "redisId ?g @ ''Key'' @ rqKey ?g" "rqKeyType ?g"] assms(1,2,4)
    by (auto simp: queueId_def keyType_ok_def)
  then have new: "qm (queueId ?g) = None" if "makeQueue ?m mp ?o (\<lambda>_. None, []) = Some (i, qm, qs)" for mp i qm qs
    using that by (auto simp: makeQueue_def split: if_splits option.splits)
  have "newRQueue c k d (rqKeyType ?g) n = None" for c k d n using assms(1) by (simp add: newRQueue_def keyType_ok_def)
  then have "makeQueue ?m mp ?g (qm, qs) = None" if "qm (queueId ?g) = None" for mp qm qs
    using that assms(3) by (auto simp: makeQueue_def split: option.splits)
  then show ?thesis using new unfolding RManager_Start_def Let_def by (auto split: option.splits)
qed

text \<open>
  A wrong key type for messages ends the process late: any configuration that is accepted and has a message queue is also accepted with
  an invalid key type in the message section, as the check there does not exit; the start of the queues then panics.
\<close>

theorem message_key_type_panics:
  assumes "config_init ne c = Some c'" "\<not> unconfigured (cfRedisOnMessage c')" "toLower x \<notin> {'''', ''list'', ''stream''}"
  shows "\<exists>c''. config_init ne (c\<lparr>cfRedisOnMessage := (cfRedisOnMessage c)\<lparr>rqKeyType := x\<rparr>\<rparr>) = Some c'' \<and> RManager_Start ping c'' = None"
proof -
  have "x \<noteq> ''''" using assms(3) by (auto simp: toLower_def)
  note e = config_message_type [OF assms(1) this]
  obtain z r a w k where p: "init_redis (c\<lparr>cfCustomer := z\<rparr>) = Some r" "init_amqp r = Some a" and c': "c' = a\<lparr>cfWorker := w, cfTask := k\<rparr>"
    using config_init_parts [OF assms(1)] .
  have "cfRedisOnOpen c' = cfRedisOnOpen r" using init_amqp_ok(2) [OF p(2)] by (auto simp: c')
  then have "keyType_ok (cfRedisOnOpen c')" using init_redis_ok(1) [OF p(1)] by simp
  then have "RManager_Start ping (c'\<lparr>cfRedisOnMessage := (cfRedisOnMessage c')\<lparr>rqKeyType := toLower x\<rparr>\<rparr>) = None"
    using assms(2,3) toLower_noK by (intro start_message_panics) (auto simp: keyType_ok_def unconfigured_def)
  then show ?thesis using e by blast
qed

lemma close_flags_idem: "close_flags (close_flags q) = close_flags q"
  by (simp add: close_flags_def)

definition close_at :: "nat option \<Rightarrow> rqueue list \<Rightarrow> rqueue list" where
  "close_at i qs = (case i of None \<Rightarrow> qs | Some i \<Rightarrow> qs[i := close_flags (qs ! i)])"

lemma Shutdown_queues:
  "RManager_Shutdown r = r\<lparr>rmQueues := close_at (rmOnClose r) (close_at (rmOnMessage r) (close_at (rmOnOpen r) (rmQueues r)))\<rparr>"
  by (simp add: RManager_Shutdown_def close_at_def split: option.split)

lemma close_at_nth: "n < length qs \<Longrightarrow> close_at i qs ! n = (if i = Some n then close_flags (qs ! n) else qs ! n)"
  by (auto simp: close_at_def nth_list_update split: option.split)

lemma close_at_length [simp]: "length (close_at i qs) = length qs"
  by (simp add: close_at_def split: option.split)

text \<open>At the end every queue is told to close, once, also one that serves several events.\<close>

lemma redis_shutdown_closes:
  assumes u: "usable (cfRedisOnOpen cf)" "usable (cfRedisOnMessage cf)" "usable (cfRedisOnClose cf)" and "\<forall>c. ping c"
    and "RManager_Start ping cf = Some r" "RManager_Get r e = Some x"
  shows "RManager_Get (RManager_Shutdown r) e = Some (x\<lparr>rqCloseLock := True, rqCloseTimer := True\<rparr>)"
proof -
  let ?m = "cfMem cf"
  have s: "section_served ?m (cfRedisOnOpen cf) (rmQueues r) (rmOnOpen r)"
    "section_served ?m (cfRedisOnMessage cf) (rmQueues r) (rmOnMessage r)"
    "section_served ?m (cfRedisOnClose cf) (rmQueues r) (rmOnClose r)"
    using start_parts [OF u assms(4)] assms(5) by (metis option.inject)+
  have "x\<lparr>rqCloseLock := True, rqCloseTimer := True\<rparr> = close_flags x" if "serves ?m q x" for q
    using that by (auto simp: serves_def newRQueue_def close_flags_def split: if_splits)
  moreover have "\<exists>q. serves ?m q x" using s assms(6) by (cases e) (auto simp: RManager_Get_def section_served_def split: if_splits)
  moreover have "RManager_Get (RManager_Shutdown r) e = Some (close_flags x)"
    using s assms(6) by (cases e) (auto simp: RManager_Get_def Shutdown_queues section_served_def close_at_nth close_flags_idem split: if_splits)
  ultimately show ?thesis by metis
qed

section \<open>Witnesses\<close>

lemma sample_accepted_parts:
  obtains cf where "config_init (sample_net True) sample_config = Some cf"
    "cfRedisOnOpen cf = \<lparr>rqAddress = ''r'', rqPassword = Some 0, rqDB = Some 1, rqKey = ''q'', rqKeyType = ''list''\<rparr>"
    "cfRedisOnMessage cf = \<lparr>rqAddress = ''r'', rqPassword = Some 2, rqDB = Some 3, rqKey = ''q'', rqKeyType = ''list''\<rparr>"
    "cfRedisOnClose cf = \<lparr>rqAddress = ''r'', rqPassword = Some 4, rqDB = Some 5, rqKey = ''q'', rqKeyType = ''list''\<rparr>"
proof -
  obtain cf where cf: "config_init (sample_net True) sample_config = Some cf" using sample_config_accepted by blast
  obtain x r a w k where p: "init_redis (sample_config\<lparr>cfCustomer := x\<rparr>) = Some r" "init_amqp r = Some a" and c': "cf = a\<lparr>cfWorker := w, cfTask := k\<rparr>"
    using config_init_parts [OF cf] .
  have "cfRedisOnOpen cf = cfRedisOnOpen r" "cfRedisOnMessage cf = cfRedisOnMessage r" "cfRedisOnClose cf = cfRedisOnClose r"
    using init_amqp_ok(2) [OF p(2)] by (auto simp: c')
  moreover have
    "cfRedisOnOpen r = \<lparr>rqAddress = ''r'', rqPassword = Some 0, rqDB = Some 1, rqKey = ''q'', rqKeyType = ''list''\<rparr>"
    "cfRedisOnMessage r = \<lparr>rqAddress = ''r'', rqPassword = Some 2, rqDB = Some 3, rqKey = ''q'', rqKeyType = ''list''\<rparr>"
    "cfRedisOnClose r = \<lparr>rqAddress = ''r'', rqPassword = Some 4, rqDB = Some 5, rqKey = ''q'', rqKeyType = ''list''\<rparr>"
    using p(1) by (auto simp: init_redis_def sample_config_def sample_redis_def setRedisQueueDefaultParams_def or_new_def new_cell_def check_key_type_def)
  ultimately show ?thesis using that [OF cf] by simp
qed

theorem redis_start_serves_witness:
  "\<exists>cf r x. config_init (sample_net True) sample_config = Some cf \<and> RManager_Start (\<lambda>_. True) cf = Some r \<and>
     RManager_Get r Event_OnClose = Some x \<and> rqRedisKey x = ''q''"
proof -
  obtain cf where cf: "config_init (sample_net True) sample_config = Some cf"
    "cfRedisOnOpen cf = \<lparr>rqAddress = ''r'', rqPassword = Some 0, rqDB = Some 1, rqKey = ''q'', rqKeyType = ''list''\<rparr>"
    "cfRedisOnMessage cf = \<lparr>rqAddress = ''r'', rqPassword = Some 2, rqDB = Some 3, rqKey = ''q'', rqKeyType = ''list''\<rparr>"
    "cfRedisOnClose cf = \<lparr>rqAddress = ''r'', rqPassword = Some 4, rqDB = Some 5, rqKey = ''q'', rqKeyType = ''list''\<rparr>"
    using sample_accepted_parts .
  obtain r x where "RManager_Start (\<lambda>_. True) cf = Some r" "RManager_Get r Event_OnClose = Some x" "serves (cfMem cf) (cfRedisOnClose cf) x"
    using redis_start_serves [OF cf(1), of "\<lambda>_. True"] cf(2-4) by (auto simp: sections_of_def keyType_ok_def unconfigured_def)
  moreover from this have "rqRedisKey x = ''q''" using cf(4) by (auto simp: serves_def newRQueue_def split: if_splits)
  ultimately show ?thesis using cf(1) by blast
qed

theorem redis_queue_shared_iff_witness:
  "\<exists>cf r. config_init (sample_net True) sample_config = Some cf \<and> RManager_Start (\<lambda>_. True) cf = Some r \<and> rmOnOpen r \<noteq> rmOnMessage r"
proof -
  obtain cf where cf: "config_init (sample_net True) sample_config = Some cf"
    "cfRedisOnOpen cf = \<lparr>rqAddress = ''r'', rqPassword = Some 0, rqDB = Some 1, rqKey = ''q'', rqKeyType = ''list''\<rparr>"
    "cfRedisOnMessage cf = \<lparr>rqAddress = ''r'', rqPassword = Some 2, rqDB = Some 3, rqKey = ''q'', rqKeyType = ''list''\<rparr>"
    "cfRedisOnClose cf = \<lparr>rqAddress = ''r'', rqPassword = Some 4, rqDB = Some 5, rqKey = ''q'', rqKeyType = ''list''\<rparr>"
    using sample_accepted_parts .
  show ?thesis
    using redis_queue_shared_iff [OF cf(1), of "\<lambda>_. True"] cf by (auto simp: sections_of_def keyType_ok_def unconfigured_def)
qed

theorem message_key_type_panics_witness:
  "\<exists>c''. config_init (sample_net True) (sample_config\<lparr>cfRedisOnMessage := (cfRedisOnMessage sample_config)\<lparr>rqKeyType := ''SET''\<rparr>\<rparr>) = Some c'' \<and>
     RManager_Start (\<lambda>_. True) c'' = None"
proof -
  obtain cf where cf: "config_init (sample_net True) sample_config = Some cf"
    "cfRedisOnMessage cf = \<lparr>rqAddress = ''r'', rqPassword = Some 2, rqDB = Some 3, rqKey = ''q'', rqKeyType = ''list''\<rparr>"
    using sample_accepted_parts .
  show ?thesis
    using message_key_type_panics [OF cf(1), of "''SET''" "\<lambda>_. True"] cf(2) by (simp add: unconfigured_def toLower_def lowChar_def)
qed

end
