(* ===== verification/AmqpPool.thy ===== *)
theory AmqpPool
  imports Prelude
begin

text \<open>
  The pools of AMQP connections and channels, \<^verbatim>\<open>src/internal/queue/amqp091/connPool.go\<close> and \<^verbatim>\<open>channelPool.go\<close>. Both keep
  idle sockets in a buffered Go channel \<^verbatim>\<open>pool\<close> and permits to create one in a buffered Go channel \<^verbatim>\<open>size\<close>. A thread is
  a goroutine inside \<^verbatim>\<open>getAmqpConnection\<close>, between getting and releasing a socket, or inside \<^verbatim>\<open>heartbeat\<close>; one move
  of it is one operation on the two Go channels. A send on a full Go channel blocks: the move is \<open>None\<close>. Dialling and closing are the
  library's and may happen at any time.
\<close>

section \<open>State\<close>

record tpool =
  tpCap :: nat
  tpTokens :: nat
  tpPool :: "nat list"

text \<open>Where a thread is; \<open>Have c\<close> is the caller's use of the socket, \<open>Gone\<close> the end (with or without a socket).\<close>

datatype pthread =
    GetIdle | GetToken | GetDial | GetSleep | GetWait
  | Have nat | Gone
  | Beat nat | BeatHave nat nat

text \<open>What the environment decides: whether dialling gives an open socket, whether the timer fires, whether the process ends.\<close>

record pchoice =
  dialOk :: bool
  timeout :: bool
  quitDone :: bool

record cpsys =
  cpPool :: tpool
  cpThreads :: "pthread list"
  cpClosed :: "nat set"
  cpNext :: nat

record chsys = cpsys +
  chRef :: "nat \<Rightarrow> int"

definition put_token :: "tpool \<Rightarrow> tpool option" where
  "put_token p = (if tpTokens p < tpCap p then Some (p\<lparr>tpTokens := tpTokens p + 1\<rparr>) else None)"

definition put_pool :: "nat \<Rightarrow> tpool \<Rightarrow> tpool option" where
  "put_pool c p = (if length (tpPool p) < tpCap p then Some (p\<lparr>tpPool := tpPool p @ [c]\<rparr>) else None)"

definition new_tpool :: "nat \<Rightarrow> tpool" where
  "new_tpool poolSize = \<lparr>tpCap = poolSize, tpTokens = poolSize, tpPool = []\<rparr>"

section \<open>Operations\<close>

definition release :: "nat set \<Rightarrow> nat option \<Rightarrow> tpool \<Rightarrow> tpool option" where
  "release closed socket p = (case socket of
      None \<Rightarrow> put_token p
    | Some c \<Rightarrow> if c \<in> closed then put_token p else put_pool c p)"

text \<open>\<^verbatim>\<open>getAmqpConnection\<close>: an idle one, else a permit and a new one, else wait for an idle one.\<close>

fun getAmqpConnection :: "pchoice \<Rightarrow> nat \<Rightarrow> pthread \<Rightarrow> tpool \<Rightarrow> (pthread \<times> tpool) option" where
  "getAmqpConnection ch new GetIdle p = (case tpPool p of c # cs \<Rightarrow> Some (Have c, p\<lparr>tpPool := cs\<rparr>) | [] \<Rightarrow> Some (GetToken, p))"
| "getAmqpConnection ch new GetToken p =
     (if tpTokens p > 0 then Some (GetDial, p\<lparr>tpTokens := tpTokens p - 1\<rparr>) else Some (GetWait, p))"
| "getAmqpConnection ch new GetDial p = Some (if dialOk ch then Have new else GetSleep, p)"
| "getAmqpConnection ch new GetSleep p = map_option (Pair Gone) (put_token p)"
| "getAmqpConnection ch new GetWait p =
     (if timeout ch then Some (Gone, p)
      else case tpPool p of c # cs \<Rightarrow> Some (Have c, p\<lparr>tpPool := cs\<rparr>) | [] \<Rightarrow> None)"
| "getAmqpConnection ch new t p = None"

text \<open>\<^verbatim>\<open>heartbeat\<close>: as many rounds as there were idle sockets at its start.\<close>

fun heartbeat :: "pchoice \<Rightarrow> nat set \<Rightarrow> pthread \<Rightarrow> tpool \<Rightarrow> (pthread \<times> tpool) option" where
  "heartbeat ch closed (Beat 0) p = Some (Gone, p)"
| "heartbeat ch closed (Beat (Suc i)) p =
     (if quitDone ch then Some (Gone, p)
      else case tpPool p of c # cs \<Rightarrow> Some (BeatHave i c, p\<lparr>tpPool := cs\<rparr>) | [] \<Rightarrow> Some (Beat i, p))"
| "heartbeat ch closed (BeatHave i c) p =
     map_option (Pair (Beat i)) (if c \<notin> closed then put_pool c p else release closed None p)"
| "heartbeat ch closed t p = None"

definition pool_move :: "pchoice \<Rightarrow> nat set \<Rightarrow> nat \<Rightarrow> pthread \<Rightarrow> tpool \<Rightarrow> (pthread \<times> tpool) option" where
  "pool_move ch closed new t p = (case t of
      Have c \<Rightarrow> map_option (Pair Gone) (release closed (Some c) p)
    | Beat _ \<Rightarrow> heartbeat ch closed t p
    | BeatHave _ _ \<Rightarrow> heartbeat ch closed t p
    | _ \<Rightarrow> getAmqpConnection ch new t p)"

text \<open>Thread \<open>i\<close> moves; a dialled socket is a new one.\<close>

definition conn_move :: "pchoice \<Rightarrow> nat \<Rightarrow> 'a cpsys_scheme \<Rightarrow> 'a cpsys_scheme option" where
  "conn_move ch i s =
     (let t = cpThreads s ! i
      in map_option (\<lambda>(t', p). s\<lparr>cpPool := p, cpThreads := (cpThreads s)[i := t'],
             cpNext := (if t = GetDial \<and> dialOk ch then cpNext s + 1 else cpNext s)\<rparr>)
           (pool_move ch (cpClosed s) (cpNext s) t (cpPool s)))"

text \<open>
  The channels' pool is the same with a reference count: every return of \<^verbatim>\<open>getAmqpChannel\<close> with a channel adds one,
  \<^verbatim>\<open>release\<close> takes it back. The heartbeat releases \<^verbatim>\<open>nil\<close> and leaves the counts alone.
\<close>

definition count_ref :: "pthread \<Rightarrow> pthread \<Rightarrow> (nat \<Rightarrow> int) \<Rightarrow> nat \<Rightarrow> int" where
  "count_ref t t' ref = (case t of
      Have c \<Rightarrow> ref(c := ref c - 1)
    | _ \<Rightarrow> (case t' of Have c \<Rightarrow> ref(c := ref c + 1) | _ \<Rightarrow> ref))"

definition chan_move :: "pchoice \<Rightarrow> nat \<Rightarrow> chsys \<Rightarrow> chsys option" where
  "chan_move ch i s = map_option (\<lambda>s'. s'\<lparr>chRef := count_ref (cpThreads s ! i) (cpThreads s' ! i) (chRef s)\<rparr>) (conn_move ch i s)"

section \<open>Runs\<close>

definition spawn :: "pthread \<Rightarrow> 'a cpsys_scheme \<Rightarrow> 'a cpsys_scheme" where
  "spawn t s = s\<lparr>cpThreads := cpThreads s @ [t]\<rparr>"

definition entry :: "'a cpsys_scheme \<Rightarrow> pthread \<Rightarrow> bool" where
  "entry s t \<longleftrightarrow> t = GetIdle \<or> t = Beat (length (tpPool (cpPool s)))"

inductive conn_step :: "cpsys \<Rightarrow> cpsys \<Rightarrow> bool" where
  spawn: "entry s t \<Longrightarrow> conn_step s (spawn t s)"
| move: "i < length (cpThreads s) \<Longrightarrow> conn_move ch i s = Some s' \<Longrightarrow> conn_step s s'"
| close: "conn_step s (s\<lparr>cpClosed := insert c (cpClosed s)\<rparr>)"

inductive chan_step :: "chsys \<Rightarrow> chsys \<Rightarrow> bool" where
  spawn: "entry s t \<Longrightarrow> chan_step s (spawn t s)"
| move: "i < length (cpThreads s) \<Longrightarrow> chan_move ch i s = Some s' \<Longrightarrow> chan_step s s'"
| close: "chan_step s (s\<lparr>cpClosed := insert c (cpClosed s)\<rparr>)"

definition newConnPool :: "nat \<Rightarrow> cpsys" where
  "newConnPool n = \<lparr>cpPool = new_tpool n, cpThreads = [], cpClosed = {}, cpNext = 0\<rparr>"

definition newChannelPool :: "nat \<Rightarrow> chsys" where
  "newChannelPool n = \<lparr>cpPool = new_tpool n, cpThreads = [], cpClosed = {}, cpNext = 0, chRef = (\<lambda>_. 0)\<rparr>"

section \<open>Permits\<close>

text \<open>
  The contract that both pools keep: permits, idle sockets and permits in use add up to the size. So there is always room for
  what a thread in possession of one has to put back.
\<close>

locale token_pool =
  fixes step :: "'s \<Rightarrow> 's \<Rightarrow> bool" and pcap tokens idle busy :: "'s \<Rightarrow> nat"
  assumes step_cap: "step s s' \<Longrightarrow> pcap s' = pcap s"
    and step_total: "step s s' \<Longrightarrow> tokens s' + idle s' + busy s' = tokens s + idle s + busy s"
begin

lemma run_total:
  assumes "step\<^sup>*\<^sup>* s s'" "tokens s + idle s + busy s = pcap s"
  shows "tokens s' + idle s' + busy s' = pcap s'" "pcap s' = pcap s"
proof -
  have "tokens s' + idle s' + busy s' = tokens s + idle s + busy s \<and> pcap s' = pcap s"
    using assms(1) by induction (simp_all add: step_cap step_total)
  then show "tokens s' + idle s' + busy s' = pcap s'" "pcap s' = pcap s" using assms(2) by simp_all
qed

lemma run_room:
  assumes "step\<^sup>*\<^sup>* s s'" "tokens s + idle s + busy s = pcap s" "0 < busy s'"
  shows "tokens s' < pcap s' \<and> idle s' < pcap s'"
  using run_total [OF assms(1,2)] assms(3) by simp

end

text \<open>A thread that has taken a permit or a socket and has not put it back.\<close>

definition holder :: "pthread \<Rightarrow> bool" where
  "holder t \<longleftrightarrow> (case t of GetDial \<Rightarrow> True | GetSleep \<Rightarrow> True | Have _ \<Rightarrow> True | BeatHave _ _ \<Rightarrow> True | _ \<Rightarrow> False)"

definition busyThreads :: "'a cpsys_scheme \<Rightarrow> nat" where
  "busyThreads s = length (filter holder (cpThreads s))"

lemma pool_move_total:
  assumes "pool_move ch closed new t p = Some (t', p')"
  shows "tpCap p' = tpCap p"
    "tpTokens p' + length (tpPool p') + of_bool (holder t') = tpTokens p + length (tpPool p) + of_bool (holder t)"
proof -
  have "tpCap p' = tpCap p \<and>
    tpTokens p' + length (tpPool p') + of_bool (holder t') = tpTokens p + length (tpPool p) + of_bool (holder t)"
    using assms
  proof (cases t)
    case (Beat i)
    then show ?thesis using assms by (cases i; cases "tpPool p") (auto simp: pool_move_def holder_def split: if_splits)
  qed (auto simp: pool_move_def release_def put_token_def put_pool_def holder_def split: if_splits list.splits)
  then show "tpCap p' = tpCap p"
    "tpTokens p' + length (tpPool p') + of_bool (holder t') = tpTokens p + length (tpPool p) + of_bool (holder t)" by simp_all
qed

lemma length_filter_update:
  "i < length xs \<Longrightarrow> length (filter P (xs[i := x])) + of_bool (P (xs ! i)) = length (filter P xs) + of_bool (P x)"
proof (induction xs arbitrary: i)
  case (Cons y ys)
  then show ?case by (cases i) auto
qed simp

lemma conn_move_total:
  assumes "conn_move ch i s = Some s'" "i < length (cpThreads s)"
  shows "tpCap (cpPool s') = tpCap (cpPool s)"
    "tpTokens (cpPool s') + length (tpPool (cpPool s')) + busyThreads s' = tpTokens (cpPool s) + length (tpPool (cpPool s)) + busyThreads s"
proof -
  obtain t' p' where m: "pool_move ch (cpClosed s) (cpNext s) (cpThreads s ! i) (cpPool s) = Some (t', p')"
    and s': "cpPool s' = p'" "cpThreads s' = (cpThreads s)[i := t']"
    using assms(1) by (auto simp: conn_move_def Let_def)
  show "tpCap (cpPool s') = tpCap (cpPool s)"
    "tpTokens (cpPool s') + length (tpPool (cpPool s')) + busyThreads s' = tpTokens (cpPool s) + length (tpPool (cpPool s)) + busyThreads s"
    using pool_move_total [OF m] length_filter_update [OF assms(2), of holder t'] by (simp_all add: s' busyThreads_def)
qed

lemma spawn_total: "entry s t \<Longrightarrow> cpPool (spawn t s) = cpPool s \<and> busyThreads (spawn t s) = busyThreads s"
  by (auto simp: spawn_def entry_def busyThreads_def holder_def)

lemma conn_step_total:
  assumes "conn_step s s'"
  shows "tpCap (cpPool s') = tpCap (cpPool s) \<and>
    tpTokens (cpPool s') + length (tpPool (cpPool s')) + busyThreads s' = tpTokens (cpPool s) + length (tpPool (cpPool s)) + busyThreads s"
  using assms
proof cases
  case (spawn t)
  then show ?thesis using spawn_total [OF spawn(2)] by simp
next
  case (move i ch)
  then show ?thesis using conn_move_total by blast
qed (simp add: busyThreads_def)

interpretation connections: token_pool conn_step "\<lambda>s. tpCap (cpPool s)" "\<lambda>s. tpTokens (cpPool s)" "\<lambda>s. length (tpPool (cpPool s))" busyThreads
  by unfold_locales (simp_all add: conn_step_total)

lemma chan_move_conn: "chan_move ch i s = Some s' \<Longrightarrow> \<exists>s''. conn_move ch i s = Some s'' \<and> s' = s''\<lparr>chRef := count_ref (cpThreads s ! i) (cpThreads s'' ! i) (chRef s)\<rparr>"
  by (auto simp: chan_move_def)

lemma chan_move_total:
  assumes "chan_move ch i s = Some s'" "i < length (cpThreads s)"
  shows "tpCap (cpPool s') = tpCap (cpPool s)"
    "tpTokens (cpPool s') + length (tpPool (cpPool s')) + busyThreads s' = tpTokens (cpPool s) + length (tpPool (cpPool s)) + busyThreads s"
  using chan_move_conn [OF assms(1)] conn_move_total [OF _ assms(2)] by (auto simp: busyThreads_def)

lemma chan_step_total:
  assumes "chan_step s s'"
  shows "tpCap (cpPool s') = tpCap (cpPool s) \<and>
    tpTokens (cpPool s') + length (tpPool (cpPool s')) + busyThreads s' = tpTokens (cpPool s) + length (tpPool (cpPool s)) + busyThreads s"
  using assms
proof cases
  case (spawn t)
  then show ?thesis using spawn_total [OF spawn(2)] by simp
next
  case (move i ch)
  then show ?thesis using chan_move_total by blast
qed (simp add: busyThreads_def)

interpretation channels: token_pool chan_step "\<lambda>s. tpCap (cpPool s)" "\<lambda>s. tpTokens (cpPool s)" "\<lambda>s. length (tpPool (cpPool s))" busyThreads
  by unfold_locales (simp_all add: chan_step_total)

section \<open>One user per socket\<close>

definition held :: "pthread \<Rightarrow> nat list" where
  "held t = (case t of Have c \<Rightarrow> [c] | BeatHave _ c \<Rightarrow> [c] | _ \<Rightarrow> [])"

definition users :: "pthread \<Rightarrow> nat list" where
  "users t = (case t of Have c \<Rightarrow> [c] | _ \<Rightarrow> [])"

text \<open>Every socket is somewhere once, and the numbers of future sockets are not in use.\<close>

definition places :: "'a cpsys_scheme \<Rightarrow> nat multiset" where
  "places s = mset (tpPool (cpPool s)) + mset (concat (map held (cpThreads s)))"

definition places_ok :: "'a cpsys_scheme \<Rightarrow> bool" where
  "places_ok s \<longleftrightarrow> (\<forall>c. count (places s) c \<le> (if c < cpNext s then 1 else 0))"

definition refs_ok :: "chsys \<Rightarrow> bool" where
  "refs_ok s \<longleftrightarrow> (\<forall>c. chRef s c = int (count (mset (concat (map users (cpThreads s)))) c))"

lemma mset_concat_update:
  "i < length ts \<Longrightarrow> mset (concat (map f (ts[i := t]))) + mset (f (ts ! i)) = mset (concat (map f ts)) + mset (f t)"
proof (induction ts arbitrary: i)
  case (Cons y ys)
  then show ?case by (cases i) (simp_all add: ac_simps)
qed simp

text \<open>A move only passes a socket on, drops a closed one, or brings the new one.\<close>

lemma pool_move_places:
  assumes "pool_move ch closed new t p = Some (t', p')"
  shows "mset (tpPool p') + mset (held t') \<subseteq># mset (tpPool p) + mset (held t) + (if t = GetDial \<and> dialOk ch then {#new#} else {#})"
  using assms
proof (cases t)
  case (Beat i)
  then show ?thesis using assms by (cases i; cases "tpPool p") (auto simp: pool_move_def held_def split: if_splits)
qed (auto simp: pool_move_def release_def put_token_def put_pool_def held_def split: if_splits list.splits)

lemma conn_move_places:
  assumes "conn_move ch i s = Some s'" "i < length (cpThreads s)"
  shows "places s' \<subseteq># places s + (if cpThreads s ! i = GetDial \<and> dialOk ch then {#cpNext s#} else {#})"
proof -
  let ?t = "cpThreads s ! i" and ?n = "if cpThreads s ! i = GetDial \<and> dialOk ch then {#cpNext s#} else {#}"
  obtain t' p' where m: "pool_move ch (cpClosed s) (cpNext s) ?t (cpPool s) = Some (t', p')"
    and s': "cpPool s' = p'" "cpThreads s' = (cpThreads s)[i := t']"
    using assms(1) by (auto simp: conn_move_def Let_def)
  let ?A = "mset (concat (map held (cpThreads s)))" and ?B = "mset (concat (map held (cpThreads s')))"
  have b: "?B + mset (held ?t) = ?A + mset (held t')" unfolding s' using mset_concat_update [OF assms(2)] by blast
  have "mset (tpPool p') + mset (held t') + ?A \<subseteq># mset (tpPool (cpPool s)) + mset (held ?t) + ?n + ?A"
    using pool_move_places [OF m] by (rule subset_mset.add_right_mono)
  then have "mset (tpPool p') + ?B + mset (held ?t) \<subseteq># mset (tpPool (cpPool s)) + ?A + ?n + mset (held ?t)"
    using b by (simp add: ac_simps)
  then show ?thesis unfolding places_def s' by (simp add: s' ac_simps)
qed

lemma places_ok_move:
  assumes "conn_move ch i s = Some s'" "i < length (cpThreads s)" "places_ok s"
  shows "places_ok s'"
proof -
  have n: "cpNext s' = (if cpThreads s ! i = GetDial \<and> dialOk ch then cpNext s + 1 else cpNext s)"
    using assms(1) by (auto simp: conn_move_def Let_def)
  have "count (places s') c \<le> count (places s) c + (if cpThreads s ! i = GetDial \<and> dialOk ch \<and> c = cpNext s then 1 else 0)" for c
    using mset_subset_eq_count [OF conn_move_places [OF assms(1,2)], of c] by (auto split: if_splits)
  then have le: "count (places s') c \<le> (if c < cpNext s then 1 else 0) + (if cpThreads s ! i = GetDial \<and> dialOk ch \<and> c = cpNext s then 1 else 0)" for c
    using assms(3) unfolding places_ok_def by (meson add_right_mono le_trans)
  show ?thesis unfolding places_ok_def n by (intro allI order.trans [OF le]) simp
qed

lemma count_ref_users:
  assumes "pool_move ch closed new t p = Some (t', p')"
  shows "count_ref t t' ref c + int (count (mset (users t)) c) = ref c + int (count (mset (users t')) c)"
  using assms by (auto simp: pool_move_def count_ref_def users_def split: pthread.splits)

lemma refs_ok_move:
  assumes "chan_move ch i s = Some s'" "i < length (cpThreads s)" "refs_ok s"
  shows "refs_ok s'"
proof -
  let ?t = "cpThreads s ! i" and ?u = "\<lambda>ts. mset (concat (map users ts))"
  obtain t' p' where m: "pool_move ch (cpClosed s) (cpNext s) ?t (cpPool s) = Some (t', p')"
    and s': "cpThreads s' = (cpThreads s)[i := t']" "chRef s' = count_ref ?t t' (chRef s)"
    using assms(1,2) by (auto simp: chan_move_def conn_move_def Let_def)
  have "chRef s' c = int (count (?u (cpThreads s')) c)" for c
  proof -
    have "count (?u (cpThreads s')) c + count (mset (users ?t)) c = count (?u (cpThreads s)) c + count (mset (users t')) c"
      unfolding s' using mset_concat_update [OF assms(2), of users t'] by (metis count_union)
    moreover have "chRef s c = int (count (?u (cpThreads s)) c)" using assms(3) by (simp add: refs_ok_def)
    ultimately show ?thesis using count_ref_users [OF m, of "chRef s" c] unfolding s'(2) by linarith
  qed
  then show ?thesis by (simp add: refs_ok_def)
qed

lemma chan_run_places:
  assumes "chan_step\<^sup>*\<^sup>* (newChannelPool n) s"
  shows "places_ok s \<and> refs_ok s"
  using assms
proof (induction)
  case base
  show ?case by (simp add: newChannelPool_def new_tpool_def places_ok_def places_def refs_ok_def)
next
  case (step s s')
  from step(2) show ?case
  proof cases
    case (spawn t)
    have "places (spawn t s) = places s" "concat (map users (cpThreads (spawn t s))) = concat (map users (cpThreads s))"
      using spawn(2) by (auto simp: spawn_def entry_def places_def held_def users_def)
    then show ?thesis using step.IH spawn(1) by (simp add: places_ok_def refs_ok_def spawn_def)
  next
    case (move i ch)
    obtain s'' where s'': "conn_move ch i s = Some s''" "s' = s''\<lparr>chRef := count_ref (cpThreads s ! i) (cpThreads s'' ! i) (chRef s)\<rparr>"
      using chan_move_conn [OF move(2)] by blast
    have "places_ok s''" using places_ok_move [OF s''(1) move(1)] step.IH by blast
    then have "places_ok s'" by (simp add: s''(2) places_ok_def places_def)
    moreover have "refs_ok s'" using refs_ok_move [OF move(2,1)] step.IH by blast
    ultimately show ?thesis by blast
  next
    case (close c)
    then show ?thesis using step.IH by (simp add: places_ok_def places_def refs_ok_def)
  qed
qed

lemma held_count: "i < length ts \<Longrightarrow> j < length ts \<Longrightarrow> i \<noteq> j \<Longrightarrow> ts ! i = Have c \<Longrightarrow> ts ! j = Have c \<Longrightarrow> 2 \<le> count (mset (concat (map held ts))) c"
proof (induction ts arbitrary: i j)
  case (Cons t ts)
  have one: "1 \<le> count (mset (concat (map held ts))) c" if "k < length ts" "ts ! k = Have c" for k
  proof -
    have "c \<in> set (concat (map held ts))" using that by (force simp: held_def in_set_conv_nth)
    then show ?thesis by (metis One_nat_def Suc_leI count_greater_zero_iff set_mset_mset)
  qed
  show ?case
  proof (cases i; cases j)
    fix i' j'
    assume "i = Suc i'" "j = Suc j'"
    then show ?thesis using Cons.IH [of i' j'] Cons.prems by (simp add: trans_le_add2)
  next
    fix j'
    assume "i = 0" "j = Suc j'"
    then show ?thesis using Cons.prems one [of j'] by (simp add: held_def)
  next
    fix i'
    assume "i = Suc i'" "j = 0"
    then show ?thesis using Cons.prems one [of i'] by (simp add: held_def)
  qed (use Cons.prems in simp)
qed simp

section \<open>Progress\<close>

text \<open>How many moves a thread has left at most.\<close>

definition moves_left :: "pthread \<Rightarrow> nat" where
  "moves_left t = (case t of GetIdle \<Rightarrow> 5 | GetToken \<Rightarrow> 4 | GetDial \<Rightarrow> 3 | GetWait \<Rightarrow> 3 | GetSleep \<Rightarrow> 1 | Have _ \<Rightarrow> 1 | Gone \<Rightarrow> 0
     | Beat i \<Rightarrow> 2 * i + 1 | BeatHave i _ \<Rightarrow> 2 * i + 2)"

lemma pool_move_progress:
  assumes "t \<noteq> Gone" "t = GetWait \<Longrightarrow> timeout ch" "holder t \<Longrightarrow> tpTokens p < tpCap p \<and> length (tpPool p) < tpCap p"
  shows "\<exists>t' p'. pool_move ch closed new t p = Some (t', p') \<and> moves_left t' < moves_left t"
proof (cases t)
  case (Beat i)
  then show ?thesis using assms by (cases i; cases "tpPool p") (auto simp: pool_move_def moves_left_def)
qed (use assms in \<open>auto simp: pool_move_def release_def put_token_def put_pool_def holder_def moves_left_def split: list.splits\<close>)

section \<open>Properties\<close>

lemma newChannelPool_total: "tpTokens (cpPool (newChannelPool n)) + length (tpPool (cpPool (newChannelPool n))) + busyThreads (newChannelPool n) = tpCap (cpPool (newChannelPool n))"
  by (simp add: newChannelPool_def new_tpool_def busyThreads_def)

lemma newConnPool_total: "tpTokens (cpPool (newConnPool n)) + length (tpPool (cpPool (newConnPool n))) + busyThreads (newConnPool n) = tpCap (cpPool (newConnPool n))"
  by (simp add: newConnPool_def new_tpool_def busyThreads_def)

lemma holder_busy: "i < length (cpThreads s) \<Longrightarrow> holder (cpThreads s ! i) \<Longrightarrow> 0 < busyThreads s"
  by (auto simp: busyThreads_def filter_empty_conv)

lemma users_held: "count (mset (concat (map users ts))) c \<le> count (mset (concat (map held ts))) c"
  by (induction ts) (auto simp: users_def held_def split: pthread.splits)

text \<open>
  C30. A channel has one user at a time: whatever threads get, release and check channels and whenever channels are closed, no
  two threads have the same channel, a channel in use is not in the pool and has the reference count one, a channel not in use the
  count zero, and permits, idle channels and channels or permits in use add up to the size of the pool.
\<close>

theorem channel_exclusive:
  assumes "chan_step\<^sup>*\<^sup>* (newChannelPool n) s"
  shows "(\<forall>i < length (cpThreads s). \<forall>j < length (cpThreads s). \<forall>c. cpThreads s ! i = Have c \<longrightarrow> cpThreads s ! j = Have c \<longrightarrow> i = j) \<and>
     (\<forall>i < length (cpThreads s). \<forall>c. cpThreads s ! i = Have c \<longrightarrow> c \<notin> set (tpPool (cpPool s)) \<and> chRef s c = 1) \<and>
     (\<forall>c. Have c \<notin> set (cpThreads s) \<longrightarrow> chRef s c = 0) \<and>
     tpTokens (cpPool s) + length (tpPool (cpPool s)) + busyThreads s = n"
proof -
  let ?ts = "cpThreads s"
  let ?h = "mset (concat (map held ?ts))" and ?u = "mset (concat (map users ?ts))"
  have p: "places_ok s" "refs_ok s" using chan_run_places [OF assms] by simp_all
  have le: "count (mset (tpPool (cpPool s))) c + count ?h c \<le> 1" for c
  proof -
    have "count (places s) c \<le> (if c < cpNext s then 1 else 0)" using p(1) unfolding places_ok_def by blast
    also have "\<dots> \<le> 1" by simp
    finally show ?thesis unfolding places_def count_union .
  qed
  have in_u: "0 < count ?u c \<longleftrightarrow> Have c \<in> set ?ts" for c
  proof -
    have "c \<in> set (concat (map users ?ts)) \<longleftrightarrow> Have c \<in> set ?ts" by (auto simp: users_def split: pthread.splits)
    then show ?thesis by (metis count_greater_zero_iff set_mset_mset)
  qed
  have uh: "count ?u c \<le> count ?h c" for c by (rule users_held)
  have "i = j" if "i < length ?ts" "j < length ?ts" "?ts ! i = Have c" "?ts ! j = Have c" for i j c
    using held_count [OF that(1,2) _ that(3,4)] le [of c] by linarith
  moreover have "c \<notin> set (tpPool (cpPool s)) \<and> chRef s c = 1" if "i < length ?ts" "?ts ! i = Have c" for i c
  proof -
    have pos: "0 < count ?u c" unfolding in_u using that by (metis nth_mem)
    then have "count (mset (tpPool (cpPool s))) c = 0" "count ?u c = 1" using le [of c] uh [of c] by linarith+
    then show ?thesis using p(2) by (simp add: refs_ok_def count_mset_0_iff)
  qed
  moreover have "chRef s c = 0" if "Have c \<notin> set ?ts" for c using p(2) in_u [of c] that by (simp add: refs_ok_def)
  moreover have "tpTokens (cpPool s) + length (tpPool (cpPool s)) + busyThreads s = n"
    using channels.run_total [OF assms newChannelPool_total] by (simp add: newChannelPool_def new_tpool_def)
  ultimately show ?thesis by blast
qed

text \<open>
  C31. The pools never block a thread for good: in every state that they reach, every thread that is not finished, and, if it waits for an
  idle socket, whose timer has fired, can move, also when it puts something back into a Go channel of fixed
  capacity; and each move brings it closer to its end.
\<close>

theorem pools_never_block:
  "(conn_step\<^sup>*\<^sup>* (newConnPool n) s \<longrightarrow> i < length (cpThreads s) \<longrightarrow> cpThreads s ! i \<noteq> Gone \<longrightarrow> (cpThreads s ! i = GetWait \<longrightarrow> timeout ch) \<longrightarrow>
      (\<exists>s'. conn_move ch i s = Some s' \<and> moves_left (cpThreads s' ! i) < moves_left (cpThreads s ! i))) \<and>
   (chan_step\<^sup>*\<^sup>* (newChannelPool n) t \<longrightarrow> i < length (cpThreads t) \<longrightarrow> cpThreads t ! i \<noteq> Gone \<longrightarrow> (cpThreads t ! i = GetWait \<longrightarrow> timeout ch) \<longrightarrow>
      (\<exists>t'. chan_move ch i t = Some t' \<and> moves_left (cpThreads t' ! i) < moves_left (cpThreads t ! i)))"
proof -
  have mv: "\<exists>s'. conn_move ch i s = Some s' \<and> moves_left (cpThreads s' ! i) < moves_left (cpThreads s ! i)"
    if "i < length (cpThreads s)" "cpThreads s ! i \<noteq> Gone" "cpThreads s ! i = GetWait \<longrightarrow> timeout ch"
      "0 < busyThreads s \<Longrightarrow> tpTokens (cpPool s) < tpCap (cpPool s) \<and> length (tpPool (cpPool s)) < tpCap (cpPool s)" for s :: "'a cpsys_scheme"
    using pool_move_progress [of "cpThreads s ! i" ch "cpPool s" "cpClosed s" "cpNext s"] that holder_busy [of i s]
    by (fastforce simp: conn_move_def Let_def)
  have "\<exists>t'. chan_move ch i t = Some t' \<and> moves_left (cpThreads t' ! i) < moves_left (cpThreads t ! i)"
    if "chan_step\<^sup>*\<^sup>* (newChannelPool n) t" "i < length (cpThreads t)" "cpThreads t ! i \<noteq> Gone" "cpThreads t ! i = GetWait \<longrightarrow> timeout ch"
    using pool_move_progress [of "cpThreads t ! i" ch "cpPool t" "cpClosed t" "cpNext t"] that holder_busy [of i t]
      channels.run_room [OF that(1) newChannelPool_total] by (fastforce simp: chan_move_def conn_move_def Let_def)
  then show ?thesis using mv [of s] connections.run_room [OF _ newConnPool_total] by blast
qed

section \<open>Witnesses\<close>

text \<open>A thread has got a new channel.\<close>

definition sample_chan :: chsys where
  "sample_chan = (newChannelPool 1)\<lparr>cpPool := \<lparr>tpCap = 1, tpTokens = 0, tpPool = []\<rparr>, cpThreads := [Have 0], cpNext := 1, chRef := (\<lambda>_. 0)(0 := 1)\<rparr>"

definition sample_pick :: pchoice where "sample_pick = \<lparr>dialOk = True, timeout = False, quitDone = False\<rparr>"

lemma sample_chan_run: "chan_step\<^sup>*\<^sup>* (newChannelPool 1) sample_chan"
proof -
  let ?s0 = "spawn GetIdle (newChannelPool 1)"
  let ?s1 = "?s0\<lparr>cpThreads := [GetToken]\<rparr>"
  let ?s2 = "?s0\<lparr>cpPool := \<lparr>tpCap = 1, tpTokens = 0, tpPool = []\<rparr>, cpThreads := [GetDial]\<rparr>"
  note d = chan_move_def conn_move_def pool_move_def count_ref_def newChannelPool_def new_tpool_def spawn_def sample_pick_def sample_chan_def
  have "chan_step (newChannelPool 1) ?s0" by (rule chan_step.spawn) (simp add: entry_def)
  moreover have "chan_step ?s0 ?s1" by (rule chan_step.move [of 0 _ sample_pick]) (simp_all add: d)
  moreover have "chan_step ?s1 ?s2" by (rule chan_step.move [of 0 _ sample_pick]) (simp_all add: d)
  moreover have "chan_step ?s2 sample_chan" by (rule chan_step.move [of 0 _ sample_pick]) (simp_all add: d)
  ultimately show ?thesis by (blast intro: converse_rtranclp_into_rtranclp)
qed

theorem channel_exclusive_witness: "chRef sample_chan 0 = 1 \<and> 0 \<notin> set (tpPool (cpPool sample_chan)) \<and> busyThreads sample_chan = 1"
proof -
  have "cpThreads sample_chan = [Have 0]" "tpTokens (cpPool sample_chan) = 0" "tpPool (cpPool sample_chan) = []" by (simp_all add: sample_chan_def)
  then show ?thesis using channel_exclusive [OF sample_chan_run] by simp
qed

theorem pools_never_block_witness: "\<exists>t'. chan_move sample_pick 0 sample_chan = Some t' \<and> moves_left (cpThreads t' ! 0) < 1"
proof -
  have "cpThreads sample_chan = [Have 0]" by (simp add: sample_chan_def)
  then show ?thesis using pools_never_block [of 1 "newConnPool 1" 0 sample_pick sample_chan] sample_chan_run by (simp add: moves_left_def)
qed

end
