(* ===== verification/AmqpSink.thy ===== *)
theory AmqpSink
  imports RedisSink AmqpPool "HOL-Library.AList"
begin

text \<open>
  The AMQP queue that events are handed to, \<^verbatim>\<open>src/internal/queue/amqp091/queue.go\<close>, and the monitor of a channel,
  \<^verbatim>\<open>channelPool.monitor\<close>, which counts what the broker confirms. Batches are published by the tasks of the goroutine pool, each
  on a channel of its own (\<open>AmqpPool\<close>). A step is one iteration of the publishing loop, one
  round of the monitor's \<^verbatim>\<open>select\<close>, or the broker's. The capacity of the Go channel \<^verbatim>\<open>publishedCh\<close> only delays the sender and
  is left out here; \<open>AmqpMonitor\<close> has it. The library \<^verbatim>\<open>amqp091-go\<close> numbers the published messages of a channel one after the other.
\<close>

section \<open>State\<close>

text \<open>The monitor watches the channel, is past \<^verbatim>\<open>delayEnd\<close>, or has returned.\<close>

datatype mphase = Watching | Draining | Ended

record achan =
  acSeq :: nat
  acPublishedCh :: "(nat \<times> nat) list"
  acConfirmCh :: "(nat \<times> bool) list"
  acMp :: "(nat \<times> nat) list"
  acPhase :: mphase

record aqueue =
  aqCloseLock :: bool
  aqSendCh :: "bytes list"
  aqSendClosed :: bool
  aqCloseTimer :: bool
  aqDequeueSize :: nat
  aqDeliveryMode :: nat
  aqToExchange :: string
  aqToRoutingKey :: string

text \<open>The queue, the batches in the goroutine pool, the running tasks with what is left to publish, and the channels.\<close>

record asys =
  amQ :: aqueue
  amPool :: "bytes list list"
  amWork :: "(nat \<times> bytes list) list"
  amCh :: "nat \<Rightarrow> achan"
  amReg :: metricsRegistry
  amLoopDone :: bool

definition newAQueue :: "string \<Rightarrow> string \<Rightarrow> bool \<Rightarrow> nat \<Rightarrow> aqueue" where
  "newAQueue exchange routingKey durable dequeueSize =
     \<lparr>aqCloseLock = False, aqSendCh = [], aqSendClosed = False, aqCloseTimer = False, aqDequeueSize = dequeueSize,
      aqDeliveryMode = (if durable then 2 else 1), aqToExchange = exchange, aqToRoutingKey = routingKey\<rparr>"

text \<open>
  \<^verbatim>\<open>createChannel\<close>: whether the connection, the channel and its confirm mode could be had; the connection goes back to its pool
  on every path. The new channel has its monitor.
\<close>

definition new_achan :: achan where
  "new_achan = \<lparr>acSeq = 0, acPublishedCh = [], acConfirmCh = [], acMp = [], acPhase = Watching\<rparr>"

definition createChannel :: "nat option \<Rightarrow> bool \<Rightarrow> bool \<Rightarrow> achan option" where
  "createChannel amqpConn channelOk confirmOk = (case amqpConn of
      None \<Rightarrow> None
    | Some _ \<Rightarrow> if \<not> channelOk then None else if \<not> confirmOk then None else Some new_achan)"

section \<open>The queue\<close>

definition AQueue_Send :: "(message \<Rightarrow> bytes option) \<Rightarrow> message \<Rightarrow> cmd \<Rightarrow> asys \<Rightarrow> asys" where
  "AQueue_Send marshal msg c s = (case Packet_Set marshal msg c of
      None \<Rightarrow> s
    | Some pkg \<Rightarrow>
        let q = amQ s
        in if \<not> aqSendClosed q \<and> length (aqSendCh q) < New_capacity 1024
           then s\<lparr>amQ := q\<lparr>aqSendCh := aqSendCh q @ [pkg]\<rparr>\<rparr>
           else s\<lparr>amReg := Mark ItemAMQP091ToBusinessFailedCount 1 (amReg s)\<rparr>)"

text \<open>One turn of \<^verbatim>\<open>loopSend\<close>; \<open>ok\<close> is whether the goroutine pool takes the batch.\<close>

definition aloop_turn :: "bool \<Rightarrow> asys \<Rightarrow> asys" where
  "aloop_turn ok s =
     (let q = amQ s;
          packets = take (aqDequeueSize q) (aqSendCh q);
          s = s\<lparr>amQ := q\<lparr>aqSendCh := drop (aqDequeueSize q) (aqSendCh q)\<rparr>\<rparr>
      in if length packets = 0 then s\<lparr>amLoopDone := True\<rparr>
         else if ok then s\<lparr>amPool := amPool s @ [packets]\<rparr>
         else s\<lparr>amReg := Mark ItemAMQP091ToBusinessFailedCount (int (length packets)) (amReg s)\<rparr>)"

definition aclose :: "asys \<Rightarrow> bool \<times> asys" where
  "aclose s =
     (if aqCloseLock (amQ s) then (False, s)
      else (True, s\<lparr>amQ := (amQ s)\<lparr>aqCloseLock := True, aqCloseTimer := True\<rparr>\<rparr>))"

definition aclose_timer :: "asys \<Rightarrow> asys" where
  "aclose_timer s = (if aqCloseTimer (amQ s) then s\<lparr>amQ := (amQ s)\<lparr>aqSendClosed := True, aqCloseTimer := False\<rparr>\<rparr> else s)"

section \<open>Publishing a batch\<close>

text \<open>The outcome of \<^verbatim>\<open>Publish\<close>; on an error, whether the channel is closed.\<close>

datatype pub = PubOk | PubErr bool

text \<open>\<^verbatim>\<open>sendBatch\<close> up to the loop: without a channel the batch has failed.\<close>

definition sendBatch_start :: "nat option \<Rightarrow> bytes list \<Rightarrow> asys \<Rightarrow> asys" where
  "sendBatch_start ch packets s = (case ch of
      None \<Rightarrow> s\<lparr>amReg := Mark ItemAMQP091ToBusinessFailedCount (int (length packets)) (amReg s)\<rparr>
    | Some c \<Rightarrow> s\<lparr>amWork := amWork s @ [(c, packets)]\<rparr>)"

text \<open>
  One iteration of the loop, on channel \<open>c\<close> with the packets that are left: the size is recorded before the message is published and taken
  back if that fails. The packets that are left afterwards are returned.
\<close>

definition sendBatch_turn :: "pub \<Rightarrow> nat \<Rightarrow> bytes \<Rightarrow> bytes list \<Rightarrow> asys \<Rightarrow> bytes list \<times> asys" where
  "sendBatch_turn r c pkg rest s =
     (let ch = amCh s c;
          seqNo = acSeq ch + 1
      in case r of
           PubOk \<Rightarrow> (rest, s\<lparr>amCh := (amCh s)(c := ch\<lparr>acSeq := seqNo, acPublishedCh := acPublishedCh ch @ [(seqNo, length pkg)]\<rparr>)\<rparr>)
         | PubErr closed \<Rightarrow>
             (let s = s\<lparr>amCh := (amCh s)(c := ch\<lparr>acPublishedCh := acPublishedCh ch @ [(seqNo, length pkg), (seqNo, 0)]\<rparr>)\<rparr>
              in if closed
                 then ([], s\<lparr>amReg := Mark ItemAMQP091ToBusinessFailedCount (int (length (pkg # rest))) (amReg s)\<rparr>)
                 else (rest, s\<lparr>amReg := Mark ItemAMQP091ToBusinessFailedCount 1 (amReg s)\<rparr>)))"

section \<open>The monitor\<close>

text \<open>\<^verbatim>\<open>case pb := <-amqpChInfo.publishedCh\<close>, the same before and after \<^verbatim>\<open>delayEnd\<close>.\<close>

definition mon_published :: "nat \<Rightarrow> asys \<Rightarrow> asys" where
  "mon_published c s = (case acPublishedCh (amCh s c) of
      [] \<Rightarrow> s
    | (seqNo, sz) # pbs \<Rightarrow> s\<lparr>amCh := (amCh s)(c := (amCh s c)\<lparr>acPublishedCh := pbs,
         acMp := (if sz > 0 then AList.update seqNo sz (acMp (amCh s c)) else AList.delete seqNo (acMp (amCh s c)))\<rparr>)\<rparr>)"

text \<open>\<^verbatim>\<open>case confirm, ok := <-confirmCh\<close>; a missing entry of the map has the size zero.\<close>

definition mon_confirm :: "nat \<Rightarrow> asys \<Rightarrow> asys" where
  "mon_confirm c s = (case acConfirmCh (amCh s c) of
      [] \<Rightarrow> s
    | (tag, ack) # cfs \<Rightarrow>
        (let sz = (case map_of (acMp (amCh s c)) tag of None \<Rightarrow> 0 | Some z \<Rightarrow> z)
         in s\<lparr>amReg := (if ack
                then Mark ItemAMQP091ToBusinessSucceedByte (int sz) (Mark ItemAMQP091ToBusinessSucceedCount 1 (amReg s))
                else Mark ItemAMQP091ToBusinessFailedCount 1 (amReg s)),
              amCh := (amCh s)(c := (amCh s c)\<lparr>acConfirmCh := cfs, acMp := AList.delete tag (acMp (amCh s c))\<rparr>)\<rparr>))"

text \<open>\<^verbatim>\<open>goto delayEnd\<close>, when the channel or its confirmations are closed.\<close>

definition mon_close :: "nat \<Rightarrow> asys \<Rightarrow> asys" where
  "mon_close c s = s\<lparr>amCh := (amCh s)(c := (amCh s c)\<lparr>acPhase := Draining\<rparr>)\<rparr>"

text \<open>The deferred function: what was published and never confirmed has failed.\<close>

definition mon_end :: "nat \<Rightarrow> asys \<Rightarrow> asys" where
  "mon_end c s =
     (let failedCount = length (filter (\<lambda>(_, sz). sz > 0) (acMp (amCh s c)));
          s' = s\<lparr>amCh := (amCh s)(c := (amCh s c)\<lparr>acPhase := Ended, acMp := []\<rparr>)\<rparr>
      in if failedCount > 0 then s'\<lparr>amReg := Mark ItemAMQP091ToBusinessFailedCount (int failedCount) (amReg s)\<rparr> else s')"

text \<open>The broker confirms a message.\<close>

definition broker_confirm :: "nat \<Rightarrow> nat \<Rightarrow> bool \<Rightarrow> asys \<Rightarrow> asys" where
  "broker_confirm c tag ack s = s\<lparr>amCh := (amCh s)(c := (amCh s c)\<lparr>acConfirmCh := acConfirmCh (amCh s c) @ [(tag, ack)]\<rparr>)\<rparr>"

section \<open>What the monitor's map stands for\<close>

text \<open>The map after the records that are still in \<^verbatim>\<open>publishedCh\<close>.\<close>

definition apply_pb :: "nat \<times> nat \<Rightarrow> (nat \<rightharpoonup> nat) \<Rightarrow> (nat \<rightharpoonup> nat)" where
  "apply_pb = (\<lambda>(n, z) m. if z > 0 then m(n \<mapsto> z) else m(n := None))"

definition effective :: "(nat \<times> nat) list \<Rightarrow> (nat \<rightharpoonup> nat) \<Rightarrow> (nat \<rightharpoonup> nat)" where
  "effective rs m = fold apply_pb rs m"

lemma effective_simps [simp]:
  "effective [] m = m" "effective (r # rs) m = effective rs (apply_pb r m)" "effective (rs @ rs') m = effective rs' (effective rs m)"
  by (simp_all add: effective_def)

lemma effective_other: "n \<notin> fst ` set rs \<Longrightarrow> effective rs m n = m n"
  by (induction rs arbitrary: m) (auto simp: apply_pb_def)

lemma effective_delete: "n \<notin> fst ` set rs \<Longrightarrow> effective rs (m(n := None)) = (effective rs m)(n := None)"
proof (induction rs arbitrary: m)
  case (Cons r rs)
  have "apply_pb r (m(n := None)) = (apply_pb r m)(n := None)" using Cons.prems by (cases r) (auto simp: apply_pb_def fun_upd_twist)
  moreover have "n \<notin> fst ` set rs" using Cons.prems by simp
  ultimately show ?case by (simp only: effective_simps Cons.IH not_False_eq_True)
qed simp

text \<open>\<open>ps\<close> are the messages of the channel that are published and whose confirmation has not been handled, with their sizes.\<close>

definition chan_ok :: "(nat \<times> nat) list \<Rightarrow> achan \<Rightarrow> bool" where
  "chan_ok ps ch \<longleftrightarrow> effective (acPublishedCh ch) (map_of (acMp ch)) = map_of ps \<and> distinct (map fst ps) \<and>
     (\<forall>n \<in> fst ` set ps. n \<le> acSeq ch) \<and> distinct (map fst (acMp ch))"

lemma chan_ok_new: "chan_ok [] new_achan"
  by (simp add: chan_ok_def new_achan_def)

lemma map_of_snoc: "n \<notin> fst ` set ps \<Longrightarrow> map_of (ps @ [(n, z)]) = (map_of ps)(n \<mapsto> z)"
  by (induction ps) auto

lemma map_of_remove:
  assumes "n \<notin> fst ` set (ps @ qs)"
  shows "(map_of (ps @ (n, z) # qs))(n := None) = map_of (ps @ qs)"
proof
  fix x
  have "map_of (ps @ qs) n = None" unfolding map_of_eq_None_iff using assms .
  moreover have "x \<noteq> n \<Longrightarrow> map_of (ps @ (n, z) # qs) x = map_of (ps @ qs) x" by (induction ps) auto
  ultimately show "((map_of (ps @ (n, z) # qs))(n := None)) x = map_of (ps @ qs) x" by (simp del: map_of_append)
qed

lemma chan_ok_publish:
  assumes "chan_ok ps ch" "0 < z"
  shows "chan_ok (ps @ [(acSeq ch + 1, z)]) (ch\<lparr>acSeq := acSeq ch + 1, acPublishedCh := acPublishedCh ch @ [(acSeq ch + 1, z)]\<rparr>)"
proof -
  have new: "acSeq ch + 1 \<notin> fst ` set ps" using assms(1) unfolding chan_ok_def by fastforce
  then have "map_of (ps @ [(acSeq ch + 1, z)]) = (map_of ps)(acSeq ch + 1 \<mapsto> z)"
    by (intro map_of_snoc)
  then show ?thesis using assms new unfolding chan_ok_def by (auto simp: apply_pb_def)
qed

lemma chan_ok_refused:
  assumes "chan_ok ps ch" "0 < z"
  shows "chan_ok ps (ch\<lparr>acPublishedCh := acPublishedCh ch @ [(acSeq ch + 1, z), (acSeq ch + 1, 0)]\<rparr>)"
proof -
  have "acSeq ch + 1 \<notin> fst ` set ps" using assms(1) unfolding chan_ok_def by fastforce
  then have "map_of ps (acSeq ch + 1) = None" by (simp add: map_of_eq_None_iff)
  then have "(map_of ps)(acSeq ch + 1 := None) = map_of ps" by (simp add: fun_upd_idem)
  then show ?thesis using assms unfolding chan_ok_def by (simp add: apply_pb_def)
qed

lemma chan_ok_published:
  assumes "chan_ok ps ch" "acPublishedCh ch = (n, z) # rs"
  shows "chan_ok ps (ch\<lparr>acPublishedCh := rs, acMp := (if z > 0 then AList.update n z (acMp ch) else AList.delete n (acMp ch))\<rparr>)"
  using assms unfolding chan_ok_def
  by (auto simp: apply_pb_def update_conv' delete_conv' restrict_complement_singleton_eq distinct_update distinct_delete)

lemma chan_ok_confirm:
  assumes "chan_ok (ps @ (n, z) # qs) ch" "n \<notin> fst ` set (acPublishedCh ch)"
  shows "chan_ok (ps @ qs) (ch\<lparr>acConfirmCh := cfs, acMp := AList.delete n (acMp ch)\<rparr>)" "map_of (acMp ch) n = Some z"
proof -
  have e: "effective (acPublishedCh ch) (map_of (acMp ch)) = map_of (ps @ (n, z) # qs)" "distinct (map fst (ps @ (n, z) # qs))"
    using assms(1) by (simp_all add: chan_ok_def)
  have "map_of (ps @ (n, z) # qs) n = Some z" using e(2) by (intro map_of_is_SomeI) auto
  then show "map_of (acMp ch) n = Some z" using effective_other [OF assms(2), of "map_of (acMp ch)"] e(1) by simp
  have d: "(map_of (ps @ (n, z) # qs))(n := None) = map_of (ps @ qs)"
    using e(2) by (intro map_of_remove) auto
  have "effective (acPublishedCh ch) (map_of (AList.delete n (acMp ch))) = map_of (ps @ qs)"
    unfolding delete_conv' effective_delete [OF assms(2)] e(1) d ..
  then show "chan_ok (ps @ qs) (ch\<lparr>acConfirmCh := cfs, acMp := AList.delete n (acMp ch)\<rparr>)"
    using assms(1) unfolding chan_ok_def by (auto simp: distinct_delete)
qed

lemma chan_ok_end:
  assumes "chan_ok ps ch" "acPublishedCh ch = []" "\<forall>(n, z) \<in> set ps. 0 < z"
  shows "length (filter (\<lambda>(_, z). z > 0) (acMp ch)) = length ps"
proof -
  have d: "distinct (map fst ps)" "distinct (map fst (acMp ch))" "map_of (acMp ch) = map_of ps" using assms(1,2) by (simp_all add: chan_ok_def)
  then have "set (acMp ch) = set ps" by (metis map_of_inject_set)
  moreover have "distinct ps" "distinct (acMp ch)" using d(1,2) by (simp_all add: distinct_map)
  ultimately have "length (acMp ch) = length ps" by (metis distinct_card)
  moreover have "filter (\<lambda>(_, z). z > 0) (acMp ch) = acMp ch" using assms(3) \<open>set (acMp ch) = set ps\<close> by (intro filter_True) auto
  ultimately show ?thesis by simp
qed

lemma chan_ok_ended: "chan_ok ps ch \<Longrightarrow> acPublishedCh ch = [] \<Longrightarrow> chan_ok [] (ch\<lparr>acPhase := ph, acMp := []\<rparr>)"
  by (simp add: chan_ok_def)

lemma chan_ok_cong: "acSeq ch' = acSeq ch \<Longrightarrow> acPublishedCh ch' = acPublishedCh ch \<Longrightarrow> acMp ch' = acMp ch \<Longrightarrow> chan_ok ps ch' = chan_ok ps ch"
  by (simp add: chan_ok_def)

section \<open>Runs\<close>

definition awaiting :: "asys \<Rightarrow> bytes list" where
  "awaiting s = aqSendCh (amQ s) @ concat (amPool s) @ concat (map snd (amWork s))"

text \<open>The packets of channel \<open>c\<close> among those published.\<close>

definition lost_of :: "nat \<Rightarrow> (nat \<times> nat \<times> bytes) list \<Rightarrow> bytes list" where
  "lost_of c pend = map (snd \<circ> snd) (filter (\<lambda>e. fst e = c) pend)"

text \<open>
  A run, with the packets handed in, counted as delivered and as failed, and those published whose confirmation has not been handled (channel,
  number and packet). The monitor handles a confirmation only after all records of its message: the code
  leaves this to the choice of \<^verbatim>\<open>select\<close> (see \<open>confirm_overtakes_record\<close> below).
\<close>

inductive amqp_run :: "(message \<Rightarrow> bytes option) \<Rightarrow> asys \<Rightarrow> asys \<Rightarrow> bytes list \<Rightarrow> bytes list \<Rightarrow> bytes list \<Rightarrow> (nat \<times> nat \<times> bytes) list \<Rightarrow> bool"
  for marshal s0 where
  start: "amqp_run marshal s0 s0 [] [] [] []"
| send: "amqp_run marshal s0 s sent ok bad pend \<Longrightarrow> Packet_Set marshal m c = Some p \<Longrightarrow>
    amqp_run marshal s0 (AQueue_Send marshal m c s) (sent @ [p]) ok
      (if \<not> aqSendClosed (amQ s) \<and> length (aqSendCh (amQ s)) < New_capacity 1024 then bad else bad @ [p]) pend"
| unmarshalled: "amqp_run marshal s0 s sent ok bad pend \<Longrightarrow> Packet_Set marshal m c = None \<Longrightarrow>
    amqp_run marshal s0 (AQueue_Send marshal m c s) sent ok bad pend"
| turn: "amqp_run marshal s0 s sent ok bad pend \<Longrightarrow> \<not> amLoopDone s \<Longrightarrow> aqSendCh (amQ s) \<noteq> [] \<or> aqSendClosed (amQ s) \<Longrightarrow>
    amqp_run marshal s0 (aloop_turn took s) sent ok (if took then bad else bad @ take (aqDequeueSize (amQ s)) (aqSendCh (amQ s))) pend"
| batch: "amqp_run marshal s0 s sent ok bad pend \<Longrightarrow> amPool s = xs @ b # ys \<Longrightarrow>
    amqp_run marshal s0 (sendBatch_start ch b (s\<lparr>amPool := xs @ ys\<rparr>)) sent ok (if ch = None then bad @ b else bad) pend"
| publish: "amqp_run marshal s0 s sent ok bad pend \<Longrightarrow> amWork s = xs @ (c, p # ps) # ys \<Longrightarrow> sendBatch_turn r c p ps s = (rest, s') \<Longrightarrow>
    amqp_run marshal s0 (s'\<lparr>amWork := xs @ (c, rest) # ys\<rparr>) sent ok
      (bad @ (case r of PubOk \<Rightarrow> [] | PubErr closed \<Rightarrow> if closed then p # ps else [p]))
      (pend @ (if r = PubOk then [(c, acSeq (amCh s c) + 1, p)] else []))"
| finish: "amqp_run marshal s0 s sent ok bad pend \<Longrightarrow> amWork s = xs @ (c, []) # ys \<Longrightarrow>
    amqp_run marshal s0 (s\<lparr>amWork := xs @ ys\<rparr>) sent ok bad pend"
| confirm: "amqp_run marshal s0 s sent ok bad pend \<Longrightarrow> (c, tag, p) \<in> set pend \<Longrightarrow> tag \<notin> fst ` set (acConfirmCh (amCh s c)) \<Longrightarrow>
    amqp_run marshal s0 (broker_confirm c tag ack s) sent ok bad pend"
| published: "amqp_run marshal s0 s sent ok bad pend \<Longrightarrow> acPhase (amCh s c) \<noteq> Ended \<Longrightarrow>
    amqp_run marshal s0 (mon_published c s) sent ok bad pend"
| confirmed: "amqp_run marshal s0 s sent ok bad pend \<Longrightarrow>
    acPhase (amCh s c) = Watching \<or> acPhase (amCh s c) = Draining \<and> acPublishedCh (amCh s c) = [] \<and> c \<notin> fst ` set (amWork s) \<Longrightarrow>
    acConfirmCh (amCh s c) = (tag, ack) # cfs \<Longrightarrow> tag \<notin> fst ` set (acPublishedCh (amCh s c)) \<Longrightarrow> pend = xs @ (c, tag, p) # ys \<Longrightarrow>
    amqp_run marshal s0 (mon_confirm c s) sent (if ack then ok @ [p] else ok) (if ack then bad else bad @ [p]) (xs @ ys)"
| closed: "amqp_run marshal s0 s sent ok bad pend \<Longrightarrow> acPhase (amCh s c) = Watching \<Longrightarrow>
    amqp_run marshal s0 (mon_close c s) sent ok bad pend"
| ended: "amqp_run marshal s0 s sent ok bad pend \<Longrightarrow> acPhase (amCh s c) = Draining \<Longrightarrow> acPublishedCh (amCh s c) = [] \<Longrightarrow>
    acConfirmCh (amCh s c) = [] \<Longrightarrow> c \<notin> fst ` set (amWork s) \<Longrightarrow>
    amqp_run marshal s0 (mon_end c s) sent ok (bad @ lost_of c pend) [e \<leftarrow> pend. fst e \<noteq> c]"
| close: "amqp_run marshal s0 s sent ok bad pend \<Longrightarrow> amqp_run marshal s0 (snd (aclose s)) sent ok bad pend"
| timer: "amqp_run marshal s0 s sent ok bad pend \<Longrightarrow> amqp_run marshal s0 (aclose_timer s) sent ok bad pend"

section \<open>The invariant\<close>

definition pend_of :: "nat \<Rightarrow> (nat \<times> nat \<times> bytes) list \<Rightarrow> (nat \<times> nat) list" where
  "pend_of c pend = map (\<lambda>(_, n, p). (n, length p)) (filter (\<lambda>e. fst e = c) pend)"

lemma pend_of_simps [simp]:
  "pend_of c [] = []" "pend_of c (xs @ ys) = pend_of c xs @ pend_of c ys"
  "pend_of c ((c', n, p) # ys) = (if c' = c then (n, length p) # pend_of c ys else pend_of c ys)"
  by (simp_all add: pend_of_def)

definition amqp_inv :: "asys \<Rightarrow> asys \<Rightarrow> bytes list \<Rightarrow> bytes list \<Rightarrow> bytes list \<Rightarrow> (nat \<times> nat \<times> bytes) list \<Rightarrow> bool" where
  "amqp_inv s0 s sent ok bad pend \<longleftrightarrow>
     mset sent = mset ok + mset bad + mset (map (snd \<circ> snd) pend) + mset (awaiting s) \<and>
     metered amqpMeters (amReg s) \<and> counted amqpMeters (amReg s0) (amReg s) ok bad \<and>
     (\<forall>c. chan_ok (pend_of c pend) (amCh s c)) \<and> (\<forall>p \<in> set (awaiting s) \<union> (snd \<circ> snd) ` set pend. 4 \<le> length p)"

definition amqp_fresh :: "asys \<Rightarrow> bool" where
  "amqp_fresh s \<longleftrightarrow> aqSendCh (amQ s) = [] \<and> amPool s = [] \<and> amWork s = [] \<and> amCh s = (\<lambda>_. new_achan) \<and> metered amqpMeters (amReg s)"

lemma amqp_inv_send:
  assumes "amqp_inv s0 s sent ok bad pend" "Packet_Set marshal m c = Some p"
  shows "amqp_inv s0 (AQueue_Send marshal m c s) (sent @ [p]) ok
      (if \<not> aqSendClosed (amQ s) \<and> length (aqSendCh (amQ s)) < New_capacity 1024 then bad else bad @ [p]) pend"
  using assms Packet_Set_length [OF assms(2)] amqp_fail [of "amReg s" "amReg s0" ok bad 1 "[p]"]
  by (auto simp: amqp_inv_def AQueue_Send_def Let_def awaiting_def)

lemma amqp_inv_turn:
  assumes "amqp_inv s0 s sent ok bad pend"
  shows "amqp_inv s0 (aloop_turn took s) sent ok (if took then bad else bad @ take (aqDequeueSize (amQ s)) (aqSendCh (amQ s))) pend"
proof -
  let ?ps = "take (aqDequeueSize (amQ s)) (aqSendCh (amQ s))"
  let ?t = "s\<lparr>amQ := (amQ s)\<lparr>aqSendCh := drop (aqDequeueSize (amQ s)) (aqSendCh (amQ s))\<rparr>\<rparr>"
  have ch: "mset (aqSendCh (amQ s)) = mset ?ps + mset (aqSendCh (amQ ?t))" by (simp flip: mset_append)
  have sets: "set ?ps \<subseteq> set (aqSendCh (amQ s))" "set (aqSendCh (amQ ?t)) \<subseteq> set (aqSendCh (amQ s))" by (simp_all add: set_take_subset set_drop_subset)
  consider "?ps = []" "aloop_turn took s = ?t\<lparr>amLoopDone := True\<rparr>" | "took" "aloop_turn took s = ?t\<lparr>amPool := amPool s @ [?ps]\<rparr>"
    | "\<not> took" "aloop_turn took s = ?t\<lparr>amReg := Mark ItemAMQP091ToBusinessFailedCount (int (length ?ps)) (amReg s)\<rparr>"
    unfolding aloop_turn_def Let_def length_0_conv by (cases "?ps = []") (simp_all only: if_True if_False, auto)
  then show ?thesis
  proof cases
    case 1
    show ?thesis using assms ch sets 1(1) unfolding 1(2) by (auto simp: amqp_inv_def awaiting_def)
  next
    case 2
    show ?thesis using assms ch sets 2(1) unfolding 2(2) by (auto simp: amqp_inv_def awaiting_def)
  next
    case 3
    show ?thesis using assms ch sets 3(1) amqp_fail [of "amReg s" "amReg s0" ok bad _ ?ps] unfolding 3(2)
      by (auto simp: amqp_inv_def awaiting_def)
  qed
qed

lemma amqp_inv_batch:
  assumes "amqp_inv s0 s sent ok bad pend" "amPool s = xs @ b # ys"
  shows "amqp_inv s0 (sendBatch_start ch b (s\<lparr>amPool := xs @ ys\<rparr>)) sent ok (if ch = None then bad @ b else bad) pend"
  using assms amqp_fail [of "amReg s" "amReg s0" ok bad _ b]
  by (auto simp: amqp_inv_def awaiting_def sendBatch_start_def split: option.split)

lemma amqp_inv_chan:
  "amqp_inv s0 s sent ok bad pend \<Longrightarrow> chan_ok (pend_of c pend) ch \<Longrightarrow> amqp_inv s0 (s\<lparr>amCh := (amCh s)(c := ch)\<rparr>) sent ok bad pend"
  by (simp add: amqp_inv_def awaiting_def)

lemma amqp_inv_published:
  assumes "amqp_inv s0 s sent ok bad pend"
  shows "amqp_inv s0 (mon_published c s) sent ok bad pend"
proof (cases "acPublishedCh (amCh s c)")
  case (Cons r rs)
  obtain n z where r: "r = (n, z)" by (cases r)
  have "chan_ok (pend_of c pend) (amCh s c)" using assms by (simp add: amqp_inv_def)
  from amqp_inv_chan [OF assms chan_ok_published [OF this Cons [unfolded r]]] show ?thesis
    unfolding mon_published_def Cons r list.case prod.case .
qed (use assms in \<open>simp add: mon_published_def\<close>)

lemma amqp_inv_publish:
  assumes inv: "amqp_inv s0 s sent ok bad pend" and w: "amWork s = xs @ (c, p # ps) # ys" and t: "sendBatch_turn r c p ps s = (rest, s')"
  shows "amqp_inv s0 (s'\<lparr>amWork := xs @ (c, rest) # ys\<rparr>) sent ok
      (bad @ (case r of PubOk \<Rightarrow> [] | PubErr gone \<Rightarrow> if gone then p # ps else [p]))
      (pend @ (if r = PubOk then [(c, acSeq (amCh s c) + 1, p)] else []))"
proof -
  have k: "chan_ok (pend_of c pend) (amCh s c)" and p: "0 < length p" and m: "metered amqpMeters (amReg s)" "counted amqpMeters (amReg s0) (amReg s) ok bad"
    using inv w by (auto simp: amqp_inv_def awaiting_def)
  show ?thesis
  proof (cases r)
    case PubOk
    let ?ch = "(amCh s c)\<lparr>acSeq := acSeq (amCh s c) + 1, acPublishedCh := acPublishedCh (amCh s c) @ [(acSeq (amCh s c) + 1, length p)]\<rparr>"
    have s': "rest = ps" "s' = s\<lparr>amCh := (amCh s)(c := ?ch)\<rparr>" using t PubOk by (simp_all add: sendBatch_turn_def Let_def)
    have "chan_ok (pend_of d (pend @ [(c, acSeq (amCh s c) + 1, p)])) (((amCh s)(c := ?ch)) d)" for d
      using inv chan_ok_publish [OF k p] by (auto simp: amqp_inv_def)
    then show ?thesis using inv w PubOk unfolding s' amqp_inv_def by (auto simp: awaiting_def)
  next
    case (PubErr gone)
    let ?s = "s\<lparr>amCh := (amCh s)(c := (amCh s c)\<lparr>acPublishedCh := acPublishedCh (amCh s c) @ [(acSeq (amCh s c) + 1, length p), (acSeq (amCh s c) + 1, 0)]\<rparr>)\<rparr>"
    have inv': "amqp_inv s0 ?s sent ok bad pend" by (rule amqp_inv_chan [OF inv chan_ok_refused [OF k p]])
    have "(rest, s') = (if gone then ([], ?s\<lparr>amReg := Mark ItemAMQP091ToBusinessFailedCount (int (length (p # ps))) (amReg s)\<rparr>)
        else (ps, ?s\<lparr>amReg := Mark ItemAMQP091ToBusinessFailedCount 1 (amReg s)\<rparr>))"
      using t PubErr by (cases gone) (simp_all add: sendBatch_turn_def Let_def)
    then show ?thesis
      using inv' w PubErr amqp_fail [OF m, of _ "p # ps"] amqp_fail [OF m, of _ "[p]"]
      by (cases gone) (auto simp: amqp_inv_def awaiting_def)
  qed
qed

lemma amqp_inv_confirmed:
  assumes inv: "amqp_inv s0 s sent ok bad (xs @ (c, tag, p) # ys)" and c: "acConfirmCh (amCh s c) = (tag, ack) # cfs"
    and t: "tag \<notin> fst ` set (acPublishedCh (amCh s c))"
  shows "amqp_inv s0 (mon_confirm c s) sent (if ack then ok @ [p] else ok) (if ack then bad else bad @ [p]) (xs @ ys)"
proof -
  have k: "chan_ok (pend_of c xs @ (tag, length p) # pend_of c ys) (amCh s c)" and m: "metered amqpMeters (amReg s)" "counted amqpMeters (amReg s0) (amReg s) ok bad"
    using inv by (auto simp: amqp_inv_def dest: spec [of _ c])
  note f = chan_ok_confirm [OF k t]
  have o': "chan_ok (pend_of d (xs @ ys)) (amCh s d)" if "d \<noteq> c" for d using inv that by (auto simp: amqp_inv_def dest: spec [of _ d])
  show ?thesis
    using inv f o' amqp_fail [OF m, of _ "[p]"] amqp_succeed [OF m, of _ "[p]"]
    by (cases ack) (auto simp: amqp_inv_def awaiting_def mon_confirm_def c)
qed

lemma pend_split: "mset (map (snd \<circ> snd) pend) = mset (lost_of c pend) + mset (map (snd \<circ> snd) [e \<leftarrow> pend. fst e \<noteq> c])"
  by (induction pend) (auto simp: lost_of_def)

lemma pend_of_filter: "pend_of d [e \<leftarrow> pend. fst e \<noteq> c] = (if d = c then [] else pend_of d pend)"
  by (induction pend) auto

lemma amqp_inv_ended:
  assumes inv: "amqp_inv s0 s sent ok bad pend" and e: "acPublishedCh (amCh s c) = []"
  shows "amqp_inv s0 (mon_end c s) sent ok (bad @ lost_of c pend) [e \<leftarrow> pend. fst e \<noteq> c]"
proof -
  let ?lost = "lost_of c pend" and ?n = "length (filter (\<lambda>(_, sz). sz > 0) (acMp (amCh s c)))"
  have k: "chan_ok (pend_of c pend) (amCh s c)" and m: "metered amqpMeters (amReg s)" "counted amqpMeters (amReg s0) (amReg s) ok bad"
    and four: "\<forall>p \<in> (snd \<circ> snd) ` set pend. 4 \<le> length p"
    using inv by (auto simp: amqp_inv_def)
  have "\<forall>(n, z) \<in> set (pend_of c pend). 0 < z" using four by (fastforce simp: pend_of_def)
  then have "?n = length (pend_of c pend)" by (rule chan_ok_end [OF k e])
  moreover have "length (pend_of c pend) = length ?lost" by (simp add: pend_of_def lost_of_def)
  ultimately have n: "int ?n = int (length ?lost)" by simp
  have k': "chan_ok [] ((amCh s c)\<lparr>acPhase := Ended, acMp := []\<rparr>)" by (rule chan_ok_ended [OF k e])
  have reg: "counted amqpMeters (amReg s0) (amReg (mon_end c s)) ok (bad @ ?lost)" "metered amqpMeters (amReg (mon_end c s))"
  proof -
    have "?lost = []" if "?n = 0"
    proof -
      have "length ?lost = 0" using n that by linarith
      then show ?thesis by (simp only: length_0_conv)
    qed
    then show "counted amqpMeters (amReg s0) (amReg (mon_end c s)) ok (bad @ ?lost)"
      using amqp_fail [OF m n] m(2) unfolding mon_end_def Let_def by (cases "?n = 0") simp_all
    show "metered amqpMeters (amReg (mon_end c s))" using m(1) by (simp add: mon_end_def Let_def)
  qed
  have "amCh (mon_end c s) = (amCh s)(c := (amCh s c)\<lparr>acPhase := Ended, acMp := []\<rparr>)" "awaiting (mon_end c s) = awaiting s"
    by (simp_all add: mon_end_def Let_def awaiting_def)
  then show ?thesis
    using inv reg k' pend_split [of pend c] four unfolding amqp_inv_def
    by (simp add: pend_of_filter ac_simps) auto
qed

section \<open>Properties\<close>

lemma amqp_run_inv: "amqp_run marshal s0 s sent ok bad pend \<Longrightarrow> amqp_fresh s0 \<Longrightarrow> amqp_inv s0 s sent ok bad pend"
proof (induction rule: amqp_run.induct)
  case start
  then show ?case by (simp add: amqp_inv_def amqp_fresh_def awaiting_def counted_refl chan_ok_new)
next
  case (send s sent ok bad pend m c p)
  then show ?case using amqp_inv_send by blast
next
  case (unmarshalled s sent ok bad pend m c)
  then show ?case by (simp add: AQueue_Send_def)
next
  case (turn s sent ok bad pend took)
  then show ?case using amqp_inv_turn by blast
next
  case (batch s sent ok bad pend xs b ys ch)
  then show ?case using amqp_inv_batch by blast
next
  case (publish s sent ok bad pend xs c p ps ys r rest s')
  show ?case by (rule amqp_inv_publish [OF publish.IH [OF publish.prems] publish.hyps(2,3)])
next
  case (finish s sent ok bad pend xs c ys)
  then show ?case by (simp add: amqp_inv_def awaiting_def)
next
  case (confirm s sent ok bad pend c tag p ack)
  then have "chan_ok (pend_of c pend) (amCh s c)" by (simp add: amqp_inv_def)
  then show ?case unfolding broker_confirm_def by (intro amqp_inv_chan [OF confirm.IH [OF confirm.prems]]) (simp add: chan_ok_def)
next
  case (published s sent ok bad pend c)
  then show ?case using amqp_inv_published by blast
next
  case (confirmed s sent ok bad pend c tag ack cfs xs p ys)
  have "amqp_inv s0 s sent ok bad (xs @ (c, tag, p) # ys)" using confirmed.IH [OF confirmed.prems] confirmed.hyps(5) by simp
  from amqp_inv_confirmed [OF this confirmed.hyps(3,4)] show ?case .
next
  case (closed s sent ok bad pend c)
  then have "chan_ok (pend_of c pend) (amCh s c)" by (simp add: amqp_inv_def)
  then show ?case unfolding mon_close_def by (intro amqp_inv_chan [OF closed.IH [OF closed.prems]]) (simp add: chan_ok_def)
next
  case (ended s sent ok bad pend c)
  show ?case by (rule amqp_inv_ended [OF ended.IH [OF ended.prems] ended.hyps(3)])
next
  case (close s sent ok bad pend)
  then show ?case by (simp add: aclose_def amqp_inv_def awaiting_def)
next
  case (timer s sent ok bad pend)
  then show ?case by (simp add: aclose_timer_def amqp_inv_def awaiting_def)
qed


text \<open>
  C12. Without that order a message is counted twice: if the monitor's \<^verbatim>\<open>select\<close> takes the confirmation before the record, which
  \<^verbatim>\<open>sendBatch\<close> had sent before publishing, the message counts as delivered with zero bytes, its late record stays in the map, and when
  the channel ends it counts as failed as well.
\<close>

theorem confirm_overtakes_record:
  assumes "amCh s c = new_achan" "metered amqpMeters (amReg s)" "p \<noteq> []"
    and s': "s' = mon_end c (mon_close c (mon_published c (mon_confirm c (broker_confirm c 1 True (snd (sendBatch_turn PubOk c p [] s))))))"
  shows "meterCount (amReg s' ItemAMQP091ToBusinessSucceedCount) = meterCount (amReg s ItemAMQP091ToBusinessSucceedCount) + 1 \<and>
     meterCount (amReg s' ItemAMQP091ToBusinessSucceedByte) = meterCount (amReg s ItemAMQP091ToBusinessSucceedByte) \<and>
     meterCount (amReg s' ItemAMQP091ToBusinessFailedCount) = meterCount (amReg s ItemAMQP091ToBusinessFailedCount) + 1"
proof -
  have "amReg s' = Mark ItemAMQP091ToBusinessFailedCount 1 (Mark ItemAMQP091ToBusinessSucceedByte 0 (Mark ItemAMQP091ToBusinessSucceedCount 1 (amReg s)))"
    unfolding s' using assms(1,3)
    by (simp add: sendBatch_turn_def broker_confirm_def mon_confirm_def mon_published_def mon_close_def mon_end_def new_achan_def Let_def)
  then show ?thesis using assms(2) by (auto simp: metered_def amqpMeters_def Mark_counts)
qed

section \<open>Witnesses\<close>

definition sample_asys :: asys where
  "sample_asys = \<lparr>amQ = newAQueue ''x'' ''k'' True 256, amPool = [], amWork = [], amCh = (\<lambda>_. new_achan), amReg = (\<lambda>_. StandardMeter 0),
     amLoopDone = False\<rparr>"

lemma sample_asys_fresh: "amqp_fresh sample_asys"
  by (simp add: amqp_fresh_def sample_asys_def newAQueue_def metered_on)

text \<open>One event goes the whole way to the broker and back.\<close>

lemma sample_amqp_run:
  "\<exists>s. amqp_run (rMarshal sample_redis_env) sample_asys s [[0, 0, 0, 7, 1, 2]] [[0, 0, 0, 7, 1, 2]] [] []"
proof -
  let ?p = "[0, 0, 0, 7, 1, 2] :: bytes" and ?m = "rMarshal sample_redis_env"
  let ?ch = "new_achan\<lparr>acSeq := 1, acPublishedCh := [(1, 6)]\<rparr>"
  let ?s4 = "sample_asys\<lparr>amWork := [(0, [])], amCh := (amCh sample_asys)(0 := ?ch)\<rparr>"
  note d = sample_asys_def newAQueue_def
  have "amqp_run ?m sample_asys (AQueue_Send ?m MUnRegisterResp 7 sample_asys) [?p] [] [] []"
    using amqp_run.send [OF amqp_run.start sample_packet, of sample_asys] by (simp add: d New_capacity_def)
  moreover have "AQueue_Send ?m MUnRegisterResp 7 sample_asys = sample_asys\<lparr>amQ := (amQ sample_asys)\<lparr>aqSendCh := [?p]\<rparr>\<rparr>"
    using sample_packet by (simp add: AQueue_Send_def d New_capacity_def)
  ultimately have r1: "amqp_run ?m sample_asys (sample_asys\<lparr>amQ := (amQ sample_asys)\<lparr>aqSendCh := [?p]\<rparr>\<rparr>) [?p] [] [] []" by simp
  have r2: "amqp_run ?m sample_asys (sample_asys\<lparr>amPool := [[?p]]\<rparr>) [?p] [] [] []"
    using amqp_run.turn [OF r1, of True] by (simp add: d aloop_turn_def)
  have r3: "amqp_run ?m sample_asys (sample_asys\<lparr>amWork := [(0, [?p])]\<rparr>) [?p] [] [] []"
    using amqp_run.batch [OF r2, of "[]" _ "[]" "Some 0"] by (simp add: d sendBatch_start_def)
  have r4: "amqp_run ?m sample_asys ?s4 [?p] [] [] [(0, 1, ?p)]"
    using amqp_run.publish [OF r3, of "[]" 0 ?p "[]" "[]" PubOk] by (simp add: d sendBatch_turn_def new_achan_def eval_nat_numeral)
  have r5: "amqp_run ?m sample_asys (broker_confirm 0 1 True ?s4) [?p] [] [] [(0, 1, ?p)]"
    using amqp_run.confirm [OF r4, of 0 1 ?p True] by (simp add: d new_achan_def)
  have r6: "amqp_run ?m sample_asys (mon_published 0 (broker_confirm 0 1 True ?s4)) [?p] [] [] [(0, 1, ?p)]"
    using amqp_run.published [OF r5, of 0] by (simp add: broker_confirm_def new_achan_def)
  have "amqp_run ?m sample_asys (mon_confirm 0 (mon_published 0 (broker_confirm 0 1 True ?s4))) [?p] ([] @ [?p]) [] ([] @ [])"
    using amqp_run.confirmed [OF r6, of 0 1 True "[]" "[]" ?p "[]"] by (simp add: broker_confirm_def mon_published_def new_achan_def)
  then show ?thesis by auto
qed


theorem confirm_overtakes_record_witness:
  "meterCount (amReg (mon_end 0 (mon_close 0 (mon_published 0 (mon_confirm 0 (broker_confirm 0 1 True (snd (sendBatch_turn PubOk 0 [1] [] sample_asys)))))))
     ItemAMQP091ToBusinessFailedCount) = 1"
proof -
  have "amCh sample_asys 0 = new_achan" "metered amqpMeters (amReg sample_asys)"
    "meterCount (amReg sample_asys ItemAMQP091ToBusinessFailedCount) = 0" by (simp_all add: sample_asys_def metered_on meterCount_def)
  then show ?thesis using confirm_overtakes_record [of sample_asys 0 "[1]", OF _ _ _ refl] by simp
qed

end
