(* ===== verification/AmqpManager.thy ===== *)
theory AmqpManager
  imports AmqpSink Config "HOL-Library.Monad_Syntax"
begin

text \<open>
  The AMQP queues of the events, \<^verbatim>\<open>src/internal/queue/amqp091/manager.go\<close>: at the start a pool of connections and channels per
  server and user, the exchanges, queues and bindings, and a queue per exchange and routing key. A nil pointer that is followed panics,
  \<open>None\<close>. What the broker does is the environment's.
\<close>

section \<open>Sizes\<close>

definition getPoolSize :: "nat \<Rightarrow> nat \<times> nat" where
  "getPoolSize cpu =
     (let offset = (if cpu \<le> 8 then 1 else if cpu \<le> 16 then 2 else if cpu \<le> 32 then 3 else 5);
          connPoolSize = max (cpu div 4) 1 + offset;
          connPoolSize = (if cpu < 4 then 1 else connPoolSize)
      in (connPoolSize, connPoolSize * 12))"

section \<open>Connections\<close>

text \<open>\<^verbatim>\<open>url.QueryEscape\<close> of the standard library, on bytes.\<close>

definition hexUpper :: "nat \<Rightarrow> char" where
  "hexUpper n = char_of (if n < 10 then 48 + n else 55 + n)"

definition unreserved :: "char \<Rightarrow> bool" where
  "unreserved c \<longleftrightarrow> (let n = of_char c :: nat in 48 \<le> n \<and> n \<le> 57 \<or> 65 \<le> n \<and> n \<le> 90 \<or> 97 \<le> n \<and> n \<le> 122) \<or> c \<in> set ''-_.~''"

definition QueryEscape :: "string \<Rightarrow> string" where
  "QueryEscape s = concat (map (\<lambda>c. if unreserved c then [c] else if c = CHR '' '' then ''+''
     else [CHR ''%'', hexUpper (of_char c div 16), hexUpper (of_char c mod 16)]) s)"

text \<open>What the broker answers, by the URL that a pool dials: a connection, a channel, and each declaration.\<close>

datatype decl =
    ExchangeDeclare string string bool
  | QueueDeclare string bool
  | QueueBind string string string

record broker =
  brConn :: "string \<Rightarrow> bool"
  brChannel :: "string \<Rightarrow> bool"
  brDeclare :: "string \<Rightarrow> decl \<Rightarrow> bool"

definition amqp_unconfigured :: "AMQP091Queue \<Rightarrow> bool" where
  "amqp_unconfigured q \<longleftrightarrow> aqAddress q = '''' \<or> aqExchange q = ''''"

definition connChannelPoolId :: "AMQP091Queue \<Rightarrow> string" where
  "connChannelPoolId q = ''Address'' @ aqAddress q @ ''Username'' @ aqUsername q"

definition amqp_url :: "AMQP091Queue \<Rightarrow> string \<Rightarrow> string" where
  "amqp_url q vhost = ''amqp://'' @ QueryEscape (aqUsername q) @ '':'' @ QueryEscape (aqPassword q) @ ''@'' @ aqAddress q @ vhost"

text \<open>A pool of connections and channels is known by its URL. A pool that cannot be made is left out without an error.\<close>

type_synonym poolMp = "string \<rightharpoonup> string"

definition makeConnChannel :: "broker \<Rightarrow> mem \<Rightarrow> AMQP091Queue \<Rightarrow> poolMp \<Rightarrow> poolMp option" where
  "makeConnChannel br m q mp =
     (if amqp_unconfigured q \<or> mp (connChannelPoolId q) \<noteq> None then Some mp
      else do {
        v \<leftarrow> aqVHost q;
        let url = amqp_url q (strAt m v);
        Some (if brConn br url \<and> brChannel br url then mp(connChannelPoolId q \<mapsto> url) else mp)
      })"

section \<open>Topology\<close>

definition topologyId :: "AMQP091Queue \<Rightarrow> string \<Rightarrow> string \<Rightarrow> string" where
  "topologyId q qname key = ''Address'' @ aqAddress q @ ''Exchange'' @ aqExchange q @ ''Queue'' @ qname @ ''RoutingKey'' @ key"

text \<open>The declarations made so far are recorded with the URL they went to. A declaration that fails ends the function.\<close>

type_synonym topology = "string set \<times> (string \<times> decl) list"

fun declare_all :: "broker \<Rightarrow> string \<Rightarrow> decl list \<Rightarrow> (string \<times> decl) list \<Rightarrow> bool \<times> (string \<times> decl) list" where
  "declare_all br url [] dl = (True, dl)"
| "declare_all br url (d # ds) dl = (if brDeclare br url d then declare_all br url ds (dl @ [(url, d)]) else (False, dl))"

definition makeTopology :: "broker \<Rightarrow> mem \<Rightarrow> poolMp \<Rightarrow> AMQP091Queue \<Rightarrow> topology \<Rightarrow> topology option" where
  "makeTopology br m mp q = (\<lambda>(tm, dl).
     if amqp_unconfigured q then Some (tm, dl)
     else do {
       qp \<leftarrow> aqQueue q;
       kp \<leftarrow> aqRoutingKey q;
       let qname = strAt m qp;
       let key = strAt m kp;
       if topologyId q qname key \<in> tm then Some (tm, dl)
       else case mp (connChannelPoolId q) of
         None \<Rightarrow> Some (tm, dl)
       | Some url \<Rightarrow>
           if \<not> brChannel br url then Some (tm, dl)
           else do {
             ap \<leftarrow> aqAutoDelete q;
             let ds = [ExchangeDeclare (aqExchange q) (aqExchangeType q) (boolAt m ap)] @
                  (if qname \<noteq> '''' then [QueueDeclare qname (boolAt m ap), QueueBind qname key (aqExchange q)] else []);
             let (fine, dl) = declare_all br url ds dl;
             Some (if fine then insert (topologyId q qname key) tm else tm, dl)
           }
     })"

section \<open>Queues\<close>

definition amqpQueueId :: "AMQP091Queue \<Rightarrow> string \<Rightarrow> string" where
  "amqpQueueId q key = ''Address'' @ aqAddress q @ ''Exchange'' @ aqExchange q @ ''RoutingKey'' @ key"

text \<open>A queue and the URL of its pool; queues are pointers, indices into the list of the queues made so far.\<close>

type_synonym queues = "(string \<rightharpoonup> nat) \<times> (aqueue \<times> string) list"

definition makeAQueue :: "mem \<Rightarrow> poolMp \<Rightarrow> AMQP091Queue \<Rightarrow> nat \<Rightarrow> queues \<Rightarrow> (nat option \<times> queues) option" where
  "makeAQueue m mp q dequeueSize = (\<lambda>(qm, qs).
     if amqp_unconfigured q then Some (None, qm, qs)
     else do {
       kp \<leftarrow> aqRoutingKey q;
       let key = strAt m kp;
       case qm (amqpQueueId q key) of
         Some i \<Rightarrow> Some (Some i, qm, qs)
       | None \<Rightarrow> (case mp (connChannelPoolId q) of
           None \<Rightarrow> Some (None, qm, qs)
         | Some url \<Rightarrow> do {
             dp \<leftarrow> aqDurable q;
             Some (Some (length qs), qm(amqpQueueId q key \<mapsto> length qs),
                   qs @ [(newAQueue (aqExchange q) key (boolAt m dp) dequeueSize, url)])
           })
     })"

record amanager =
  amgOnOpen :: "nat option"
  amgOnMessage :: "nat option"
  amgOnClose :: "nat option"
  amgQueues :: "(aqueue \<times> string) list"
  amgLog :: "(string \<times> decl) list"

definition AManager_Get :: "amanager \<Rightarrow> Event \<Rightarrow> (aqueue \<times> string) option" where
  "AManager_Get r e = map_option (\<lambda>i. amgQueues r ! i)
     (case e of Event_OnOpen \<Rightarrow> amgOnOpen r | Event_OnMessage \<Rightarrow> amgOnMessage r | Event_OnClose \<Rightarrow> amgOnClose r | Event_Placeholder \<Rightarrow> None)"

definition AManager_Start :: "broker \<Rightarrow> config \<Rightarrow> amanager option" where
  "AManager_Start br cf = do {
     let m = cfMem cf;
     let opn = cfAmqpOnOpen cf;
     let msg = cfAmqpOnMessage cf;
     let cls = cfAmqpOnClose cf;
     mp \<leftarrow> makeConnChannel br m opn (\<lambda>_. None);
     mp \<leftarrow> makeConnChannel br m msg mp;
     mp \<leftarrow> makeConnChannel br m cls mp;
     tp \<leftarrow> makeTopology br m mp opn ({}, []);
     tp \<leftarrow> makeTopology br m mp msg tp;
     tp \<leftarrow> makeTopology br m mp cls tp;
     (i, qs) \<leftarrow> makeAQueue m mp opn 256 (\<lambda>_. None, []);
     (j, qs) \<leftarrow> makeAQueue m mp msg 256 qs;
     (k, qs) \<leftarrow> makeAQueue m mp cls 256 qs;
     Some \<lparr>amgOnOpen = i, amgOnMessage = j, amgOnClose = k, amgQueues = snd qs, amgLog = snd tp\<rparr>
   }"

text \<open>\<^verbatim>\<open>Shutdown\<close> closes every queue, once; \<^verbatim>\<open>close\<close> of a queue alone.\<close>

definition aclose_flags :: "aqueue \<Rightarrow> aqueue" where
  "aclose_flags q = (if aqCloseLock q then q else q\<lparr>aqCloseLock := True, aqCloseTimer := True\<rparr>)"

definition AManager_Shutdown :: "amanager \<Rightarrow> amanager" where
  "AManager_Shutdown r = fold (\<lambda>i r. case i of None \<Rightarrow> r
       | Some i \<Rightarrow> r\<lparr>amgQueues := (amgQueues r)[i := apfst aclose_flags (amgQueues r ! i)]\<rparr>)
     [amgOnOpen r, amgOnMessage r, amgOnClose r] r"

section \<open>Properties\<close>

definition amqp_sections :: "config \<Rightarrow> (Event \<times> AMQP091Queue) list" where
  "amqp_sections cf = [(Event_OnOpen, cfAmqpOnOpen cf), (Event_OnMessage, cfAmqpOnMessage cf), (Event_OnClose, cfAmqpOnClose cf)]"

lemma accepted_set:
  assumes "config_init ne c = Some cf"
  shows "amqp_set (cfAmqpOnOpen cf)" "amqp_set (cfAmqpOnMessage cf)" "amqp_set (cfAmqpOnClose cf)"
proof -
  obtain r a w k where p: "init_amqp r = Some a" and cf: "cf = a\<lparr>cfWorker := w, cfTask := k\<rparr>"
    using config_init_parts [OF assms] by metis
  show "amqp_set (cfAmqpOnOpen cf)" "amqp_set (cfAmqpOnMessage cf)" "amqp_set (cfAmqpOnClose cf)"
    using init_amqp_ok(1) [OF p] by (simp_all add: cf)
qed

lemma makeConnChannel_total:
  assumes "amqp_set q"
  obtains mp' where "makeConnChannel br m q mp = Some mp'" "mp \<subseteq>\<^sub>m mp'"
    "\<not> amqp_unconfigured q \<Longrightarrow> mp (connChannelPoolId q) = None \<Longrightarrow> brConn br (amqp_url q (strAt m (the (aqVHost q)))) \<Longrightarrow>
       brChannel br (amqp_url q (strAt m (the (aqVHost q)))) \<Longrightarrow> mp' (connChannelPoolId q) = Some (amqp_url q (strAt m (the (aqVHost q))))"
proof -
  obtain v where v: "aqVHost q = Some v" using assms by (auto simp: amqp_set_def)
  show ?thesis
  proof (cases "amqp_unconfigured q \<or> mp (connChannelPoolId q) \<noteq> None")
    case True
    show ?thesis by (rule that [of mp]) (use True in \<open>auto simp: makeConnChannel_def\<close>)
  next
    case False
    let ?u = "amqp_url q (strAt m v)"
    show ?thesis
      by (rule that [of "if brConn br ?u \<and> brChannel br ?u then mp(connChannelPoolId q \<mapsto> ?u) else mp"])
        (use False in \<open>auto simp: makeConnChannel_def v map_le_def Let_def\<close>)
  qed
qed

lemma makeTopology_total: "amqp_set q \<Longrightarrow> \<exists>tp'. makeTopology br m mp q tp = Some tp'"
  by (cases tp) (auto simp: makeTopology_def amqp_set_def Let_def case_prod_unfold split: option.splits)

lemma makeAQueue_total:
  assumes "amqp_set q"
  obtains i qm' ex where "makeAQueue m mp q n (qm, qs) = Some (i, qm', qs @ ex)"
    "amqp_unconfigured q \<Longrightarrow> i = None"
    "\<And>url. (\<forall>k j. qm k = Some j \<longrightarrow> j < length qs \<and> snd (qs ! j) = url) \<Longrightarrow> mp (connChannelPoolId q) = Some url \<Longrightarrow> \<not> amqp_unconfigured q \<Longrightarrow>
       (\<exists>j < length (qs @ ex). i = Some j \<and> snd ((qs @ ex) ! j) = url) \<and> (\<forall>k j. qm' k = Some j \<longrightarrow> j < length (qs @ ex) \<and> snd ((qs @ ex) ! j) = url)"
proof -
  obtain kp dp where p: "aqRoutingKey q = Some kp" "aqDurable q = Some dp" using assms by (auto simp: amqp_set_def)
  let ?id = "amqpQueueId q (strAt m kp)"
  consider (none) "amqp_unconfigured q" | (known) j where "\<not> amqp_unconfigured q" "qm ?id = Some j"
    | (nopool) "\<not> amqp_unconfigured q" "qm ?id = None" "mp (connChannelPoolId q) = None"
    | (new) url where "\<not> amqp_unconfigured q" "qm ?id = None" "mp (connChannelPoolId q) = Some url"
    by (cases "mp (connChannelPoolId q)"; cases "qm ?id") auto
  then show ?thesis
  proof cases
    case none
    then show ?thesis by (intro that [of None qm "[]"]) (simp_all add: makeAQueue_def)
  next
    case (known j)
    then show ?thesis using p by (intro that [of "Some j" qm "[]"]) (auto simp: makeAQueue_def Let_def)
  next
    case nopool
    then show ?thesis using p by (intro that [of None qm "[]"]) (auto simp: makeAQueue_def Let_def)
  next
    case (new url)
    then show ?thesis using p
      by (intro that [of "Some (length qs)" "qm(?id \<mapsto> length qs)" "[(newAQueue (aqExchange q) (strAt m kp) (boolAt m dp) n, url)]"])
        (auto simp: makeAQueue_def Let_def nth_append intro: less_SucI)
  qed
qed


text \<open>The sizes of the pools: at least one connection, and no more than the processors once there are four of them.\<close>

lemma pool_sizes: "getPoolSize cpu = (n, k) \<Longrightarrow> 1 \<le> n \<and> k = 12 * n \<and> (4 \<le> cpu \<longrightarrow> n \<le> cpu)"
  by (auto simp: getPoolSize_def Let_def split: if_splits)


end
