(* ===== verification/AmqpMonitor.thy ===== *)
theory AmqpMonitor
  imports AmqpSink
begin

text \<open>
  One AMQP channel with everything that touches it at the grain of single operations: the monitor of \<^verbatim>\<open>channelPool.go\<close>, the
  publishing task of \<^verbatim>\<open>queue.go\<close> that has it, the goroutines that take it from the pool and put it back, and the bounded Go channel
  \<^verbatim>\<open>publishedCh\<close> between the task and the monitor. The pointer to a channel is in one place at a time (\<open>channel_exclusive\<close> of
  \<open>AmqpPool\<close>), so the state has the place. The reference count is changed after the channel was taken and before the pool has it
  back, and the monitor reads the count and the length of \<^verbatim>\<open>publishedCh\<close> one after the other; the steps between are visible here.
\<close>

section \<open>Runs of an executable step function\<close>

primrec runs :: "('a \<Rightarrow> 's \<Rightarrow> 's option) \<Rightarrow> 'a list \<Rightarrow> 's \<Rightarrow> 's option" where
  "runs exec [] s = Some s"
| "runs exec (a # acts) s = (case exec a s of None \<Rightarrow> None | Some s' \<Rightarrow> runs exec acts s')"

lemma runs_append: "runs exec (as @ bs) s = (case runs exec as s of None \<Rightarrow> None | Some s' \<Rightarrow> runs exec bs s')"
  by (induction as arbitrary: s) (simp_all split: option.split)

locale action_system =
  fixes exec :: "'a \<Rightarrow> 's \<Rightarrow> 's option" and inv :: "'s \<Rightarrow> bool"
  assumes exec_inv: "inv s \<Longrightarrow> exec a s = Some s' \<Longrightarrow> inv s'"
begin

lemma runs_inv: "runs exec acts s = Some s' \<Longrightarrow> inv s \<Longrightarrow> inv s'"
  by (induction acts arbitrary: s) (auto split: option.splits intro: exec_inv)

end

section \<open>State\<close>

text \<open>
  Where the channel is: just created, in the pool, with a task before its reference is counted, in the loop of \<^verbatim>\<open>sendBatch\<close> (with
  the packets that are left) before a record, before \<^verbatim>\<open>Publish\<close>, before the record is taken back and before \<^verbatim>\<open>IsClosed\<close>, in
  \<^verbatim>\<open>release\<close> before and after the count, on its way into the pool, in the hands of a heartbeat, or dropped with its permit given back.
\<close>

datatype place =
    Created "bytes list" | Idle | Taken "bytes list"
  | Recording "bytes list" | Publishing bytes "bytes list" | Undoing bytes "bytes list" | Refused "bytes list"
  | Releasing | Released | Putting | Beating | Dropped

text \<open>Where the monitor is: the first loop, \<^verbatim>\<open>Close\<close>, the heartbeat, the second loop, between the two tests, the third loop, returned.\<close>

datatype monpc = MWatch | MClose | MBeat | MDrain | MLen | MConfirms | MEnd

record mchan =
  mcCap :: nat
  mcBuf :: "(nat \<times> nat) list"
  mcSeq :: nat
  mcRef :: int
  mcClosed :: bool
  mcAt :: place
  mcPc :: monpc
  mcMp :: "(nat \<times> nat) list"
  mcConfirmCh :: "(nat \<times> bool) list"
  mcQuit :: bool

text \<open>The socket that \<^verbatim>\<open>createChannel\<close> returns to a task with these packets.\<close>

definition new_mchan :: "nat \<Rightarrow> bytes list \<Rightarrow> mchan" where
  "new_mchan dequeueSize packets =
     \<lparr>mcCap = dequeueSize * 2, mcBuf = [], mcSeq = 0, mcRef = 0, mcClosed = False, mcAt = Created packets, mcPc = MWatch, mcMp = [],
      mcConfirmCh = [], mcQuit = False\<rparr>"

section \<open>The task\<close>

text \<open>\<^verbatim>\<open>publishedCh <- published{...}\<close> blocks when the buffer is full.\<close>

definition put_published :: "nat \<Rightarrow> nat \<Rightarrow> mchan \<Rightarrow> mchan option" where
  "put_published seqNo sz s = (if length (mcBuf s) < mcCap s then Some (s\<lparr>mcBuf := mcBuf s @ [(seqNo, sz)]\<rparr>) else None)"

text \<open>\<^verbatim>\<open>getAmqpChannel\<close> once the socket is had: a new one must be open, then the reference is counted.\<close>

definition get_move :: "mchan \<Rightarrow> mchan option" where
  "get_move s = (case mcAt s of
      Created packets \<Rightarrow> Some (s\<lparr>mcAt := (if mcClosed s then Dropped else Taken packets)\<rparr>)
    | Taken packets \<Rightarrow> Some (s\<lparr>mcRef := mcRef s + 1, mcAt := Recording packets\<rparr>)
    | _ \<Rightarrow> None)"

text \<open>The loop of \<^verbatim>\<open>sendBatch\<close>; \<open>ok\<close> is the answer of \<^verbatim>\<open>Publish\<close>, an error on a closed channel.\<close>

definition batch_move :: "bool \<Rightarrow> mchan \<Rightarrow> mchan option" where
  "batch_move ok s = (case mcAt s of
      Recording [] \<Rightarrow> Some (s\<lparr>mcAt := Releasing\<rparr>)
    | Recording (pkg # packets) \<Rightarrow> map_option (mcAt_update (\<lambda>_. Publishing pkg packets)) (put_published (mcSeq s + 1) (length pkg) s)
    | Publishing pkg packets \<Rightarrow>
        if ok \<and> \<not> mcClosed s then Some (s\<lparr>mcSeq := mcSeq s + 1, mcAt := Recording packets\<rparr>)
        else Some (s\<lparr>mcAt := Undoing pkg packets\<rparr>)
    | Undoing pkg packets \<Rightarrow> map_option (mcAt_update (\<lambda>_. Refused packets)) (put_published (mcSeq s + 1) 0 s)
    | Refused packets \<Rightarrow> Some (s\<lparr>mcAt := (if mcClosed s then Releasing else Recording packets)\<rparr>)
    | _ \<Rightarrow> None)"

definition release_move :: "mchan \<Rightarrow> mchan option" where
  "release_move s = (case mcAt s of
      Releasing \<Rightarrow> Some (s\<lparr>mcRef := mcRef s - 1, mcAt := Released\<rparr>)
    | Released \<Rightarrow> Some (s\<lparr>mcAt := (if mcClosed s then Dropped else Putting)\<rparr>)
    | Putting \<Rightarrow> Some (s\<lparr>mcAt := Idle\<rparr>)
    | _ \<Rightarrow> None)"

text \<open>A round of \<^verbatim>\<open>heartbeat\<close> that has taken the channel.\<close>

definition beat_move :: "mchan \<Rightarrow> mchan option" where
  "beat_move s = (case mcAt s of
      Beating \<Rightarrow> Some (s\<lparr>mcAt := (if \<not> mcClosed s then Putting else Dropped)\<rparr>)
    | _ \<Rightarrow> None)"

definition user_move :: "bool \<Rightarrow> mchan \<Rightarrow> mchan option" where
  "user_move ok s = (case mcAt s of
      Created _ \<Rightarrow> get_move s | Taken _ \<Rightarrow> get_move s
    | Recording _ \<Rightarrow> batch_move ok s | Publishing _ _ \<Rightarrow> batch_move ok s | Undoing _ _ \<Rightarrow> batch_move ok s | Refused _ \<Rightarrow> batch_move ok s
    | Releasing \<Rightarrow> release_move s | Released \<Rightarrow> release_move s | Putting \<Rightarrow> release_move s
    | Beating \<Rightarrow> beat_move s
    | Idle \<Rightarrow> None | Dropped \<Rightarrow> None)"

section \<open>The monitor\<close>

text \<open>Which ready case of a \<^verbatim>\<open>select\<close> is taken.\<close>

datatype pick = PickErr | PickPublished | PickConfirm | PickQuit | PickDelay

definition read_published :: "mchan \<Rightarrow> mchan option" where
  "read_published s = (case mcBuf s of
      [] \<Rightarrow> None
    | (seqNo, sz) # pbs \<Rightarrow> Some (s\<lparr>mcBuf := pbs, mcMp := (if sz > 0 then AList.update seqNo sz (mcMp s) else AList.delete seqNo (mcMp s))\<rparr>))"

text \<open>A receive from \<^verbatim>\<open>confirmCh\<close>, which the library closes with the channel; \<open>pc\<close> is where the code goes on then.\<close>

definition read_confirm :: "monpc \<Rightarrow> mchan \<Rightarrow> mchan option" where
  "read_confirm pc s = (case mcConfirmCh s of
      [] \<Rightarrow> if mcClosed s then Some (s\<lparr>mcPc := pc\<rparr>) else None
    | (tag, ack) # cfs \<Rightarrow> Some (s\<lparr>mcConfirmCh := cfs, mcMp := AList.delete tag (mcMp s)\<rparr>))"

fun watch_select :: "pick \<Rightarrow> mchan \<Rightarrow> mchan option" where
  "watch_select PickErr s = Some (s\<lparr>mcPc := MClose\<rparr>)"
| "watch_select PickPublished s = read_published s"
| "watch_select PickConfirm s = read_confirm MClose s"
| "watch_select _ s = None"

fun drain_select :: "pick \<Rightarrow> mchan \<Rightarrow> mchan option" where
  "drain_select PickQuit s = (if mcQuit s then Some (s\<lparr>mcPc := MEnd\<rparr>) else None)"
| "drain_select PickPublished s = read_published s"
| "drain_select PickDelay s = Some (if mcRef s = 0 then s\<lparr>mcPc := MLen\<rparr> else s)"
| "drain_select _ s = None"

definition monitor_move :: "pick \<Rightarrow> mchan \<Rightarrow> mchan option" where
  "monitor_move k s = (case mcPc s of
      MWatch \<Rightarrow> watch_select k s
    | MClose \<Rightarrow> Some (s\<lparr>mcClosed := True, mcPc := MBeat\<rparr>)
    | MBeat \<Rightarrow> Some (s\<lparr>mcPc := MDrain\<rparr>)
    | MDrain \<Rightarrow> drain_select k s
    | MLen \<Rightarrow> Some (s\<lparr>mcPc := (if mcBuf s = [] then MConfirms else MDrain)\<rparr>)
    | MConfirms \<Rightarrow> read_confirm MEnd s
    | MEnd \<Rightarrow> None)"

section \<open>Runs\<close>

text \<open>
  The task and the monitor move; another task or a heartbeat takes the channel out of the pool; the channel is closed by the broker, the
  broker confirms, the process is told to end.
\<close>

datatype mact = AUser bool | AMon pick | ATake "bytes list" | ABeat | AClose | AConfirm nat bool | AQuit

fun mexec :: "mact \<Rightarrow> mchan \<Rightarrow> mchan option" where
  "mexec (AUser ok) s = user_move ok s"
| "mexec (AMon k) s = monitor_move k s"
| "mexec (ATake packets) s = (if mcAt s = Idle then Some (s\<lparr>mcAt := Taken packets\<rparr>) else None)"
| "mexec ABeat s = (if mcAt s = Idle then Some (s\<lparr>mcAt := Beating\<rparr>) else None)"
| "mexec AClose s = Some (s\<lparr>mcClosed := True\<rparr>)"
| "mexec (AConfirm tag ack) s = (if mcClosed s then None else Some (s\<lparr>mcConfirmCh := mcConfirmCh s @ [(tag, ack)]\<rparr>))"
| "mexec AQuit s = Some (s\<lparr>mcQuit := True\<rparr>)"

section \<open>The invariant\<close>

definition counted_place :: "place \<Rightarrow> bool" where
  "counted_place l \<longleftrightarrow> (case l of Recording _ \<Rightarrow> True | Publishing _ _ \<Rightarrow> True | Undoing _ _ \<Rightarrow> True | Refused _ \<Rightarrow> True | Releasing \<Rightarrow> True | _ \<Rightarrow> False)"

text \<open>Once the monitor has left its second loop, at most the two records of one refused message can follow.\<close>

definition late_records :: "mchan \<Rightarrow> bool" where
  "late_records s \<longleftrightarrow> (case mcAt s of
      Publishing pkg _ \<Rightarrow> mcBuf s = [(mcSeq s + 1, length pkg)]
    | Undoing pkg _ \<Rightarrow> mcBuf s = [(mcSeq s + 1, length pkg)]
    | Refused _ \<Rightarrow> (\<exists>z. mcBuf s = [(mcSeq s + 1, z), (mcSeq s + 1, 0)])
    | Releasing \<Rightarrow> mcBuf s = [] \<or> (\<exists>z. mcBuf s = [(mcSeq s + 1, z), (mcSeq s + 1, 0)])
    | Released \<Rightarrow> mcBuf s = [] \<or> (\<exists>z. mcBuf s = [(mcSeq s + 1, z), (mcSeq s + 1, 0)])
    | Dropped \<Rightarrow> mcBuf s = [] \<or> (\<exists>z. mcBuf s = [(mcSeq s + 1, z), (mcSeq s + 1, 0)])
    | _ \<Rightarrow> mcBuf s = [])"

definition mid_records :: "mchan \<Rightarrow> bool" where
  "mid_records s \<longleftrightarrow> (case mcAt s of
      Publishing _ _ \<Rightarrow> mcBuf s \<noteq> [] | Undoing _ _ \<Rightarrow> mcBuf s \<noteq> [] | Refused _ \<Rightarrow> mcBuf s \<noteq> [] | _ \<Rightarrow> True)"

definition mchan_inv :: "mchan \<Rightarrow> bool" where
  "mchan_inv s \<longleftrightarrow> 2 \<le> mcCap s \<and> length (mcBuf s) \<le> mcCap s \<and> mcRef s = of_bool (counted_place (mcAt s)) \<and>
     (mcPc s \<notin> {MWatch, MClose} \<longrightarrow> mcClosed s) \<and> (mcPc s = MLen \<longrightarrow> mid_records s) \<and>
     (mcPc s \<in> {MConfirms, MEnd} \<longrightarrow> \<not> mcQuit s \<longrightarrow> late_records s)"

lemmas records_defs = late_records_def mid_records_def counted_place_def

lemma mchan_inv_new: "0 < d \<Longrightarrow> mchan_inv (new_mchan d packets)"
  by (simp add: mchan_inv_def new_mchan_def records_defs)

lemma put_published_Some: "put_published n z s = Some s' \<longleftrightarrow> length (mcBuf s) < mcCap s \<and> s' = s\<lparr>mcBuf := mcBuf s @ [(n, z)]\<rparr>"
  by (auto simp: put_published_def)

lemmas user_defs = user_move_def get_move_def batch_move_def release_move_def beat_move_def put_published_Some

lemma user_move_frame:
  assumes "user_move ok s = Some s'"
  shows "mcPc s' = mcPc s" "mcClosed s' = mcClosed s" "mcQuit s' = mcQuit s" "mcCap s' = mcCap s"
  using assms by (auto simp: user_defs split: place.splits list.splits if_splits)

lemma user_move_bound: "user_move ok s = Some s' \<Longrightarrow> length (mcBuf s) \<le> mcCap s \<Longrightarrow> length (mcBuf s') \<le> mcCap s'"
  by (auto simp: user_defs split: place.splits list.splits if_splits)

lemma user_move_ref:
  assumes "user_move ok s = Some s'" "mcRef s = of_bool (counted_place (mcAt s))"
  shows "mcRef s' = of_bool (counted_place (mcAt s'))"
  using assms by (auto simp: user_defs counted_place_def split: place.splits list.splits if_splits)

lemma user_move_mid:
  assumes "user_move ok s = Some s'" "mcClosed s" "mid_records s"
  shows "mid_records s'"
  using assms by (auto simp: user_defs mid_records_def split: place.splits list.splits)

lemma user_move_late:
  assumes "user_move ok s = Some s'" "mcClosed s" "late_records s"
  shows "late_records s'"
  using assms by (auto simp: user_defs late_records_def split: place.splits list.splits)

lemma user_move_inv:
  assumes "mchan_inv s" "user_move ok s = Some s'"
  shows "mchan_inv s'"
  using assms(1) user_move_frame [OF assms(2)] user_move_bound [OF assms(2)] user_move_ref [OF assms(2)] user_move_mid [OF assms(2)] user_move_late [OF assms(2)]
  unfolding mchan_inv_def by auto

lemma read_published_Some:
  "read_published s = Some s' \<longleftrightarrow> (\<exists>n z pbs. mcBuf s = (n, z) # pbs \<and>
     s' = s\<lparr>mcBuf := pbs, mcMp := (if z > 0 then AList.update n z (mcMp s) else AList.delete n (mcMp s))\<rparr>)"
  by (auto simp: read_published_def split: list.splits)

lemma read_confirm_Some:
  "read_confirm pc s = Some s' \<longleftrightarrow> mcConfirmCh s = [] \<and> mcClosed s \<and> s' = s\<lparr>mcPc := pc\<rparr> \<or>
     (\<exists>tag ack cfs. mcConfirmCh s = (tag, ack) # cfs \<and> s' = s\<lparr>mcConfirmCh := cfs, mcMp := AList.delete tag (mcMp s)\<rparr>)"
  by (auto simp: read_confirm_def split: list.splits)

lemma mid_records_quiet: "mcRef s = of_bool (counted_place (mcAt s)) \<Longrightarrow> mcRef s = 0 \<Longrightarrow> mid_records s"
  by (simp add: records_defs split: place.splits)

lemma mid_late: "mid_records s \<Longrightarrow> mcBuf s = [] \<Longrightarrow> late_records s"
  by (simp add: records_defs split: place.splits)

lemma late_records_cong: "mcAt s' = mcAt s \<Longrightarrow> mcBuf s' = mcBuf s \<Longrightarrow> mcSeq s' = mcSeq s \<Longrightarrow> late_records s' = late_records s"
  by (cases "mcAt s") (simp_all add: late_records_def)

lemma mid_records_cong: "mcAt s' = mcAt s \<Longrightarrow> mcBuf s' = mcBuf s \<Longrightarrow> mid_records s' = mid_records s"
  by (cases "mcAt s") (simp_all add: mid_records_def)

lemma mchan_inv_cong:
  assumes "mcAt s' = mcAt s" "mcBuf s' = mcBuf s" "mcSeq s' = mcSeq s" "mcRef s' = mcRef s" "mcPc s' = mcPc s" "mcCap s' = mcCap s" "mcQuit s \<longrightarrow> mcQuit s'"
    "mcClosed s \<longrightarrow> mcClosed s'" "mchan_inv s"
  shows "mchan_inv s'"
  using assms late_records_cong [of s' s] mid_records_cong [of s' s] by (auto simp: mchan_inv_def)

lemma monitor_move_inv:
  assumes inv: "mchan_inv s" and m: "monitor_move k s = Some s'"
  shows "mchan_inv s'"
proof (cases "mcPc s")
  case MWatch
  then have "mcCap s' = mcCap s" "length (mcBuf s') \<le> length (mcBuf s)" "mcRef s' = mcRef s" "mcAt s' = mcAt s" "mcPc s' \<in> {MWatch, MClose}"
    using m by (cases k; auto simp: monitor_move_def read_published_Some read_confirm_Some)+
  then show ?thesis using inv by (auto simp: mchan_inv_def)
next
  case MDrain
  then have s': "mcCap s' = mcCap s" "length (mcBuf s') \<le> length (mcBuf s)" "mcRef s' = mcRef s" "mcAt s' = mcAt s" "mcClosed s' = mcClosed s" "mcPc s' = MEnd \<longrightarrow> mcQuit s'"
    "mcPc s' = MLen \<longrightarrow> mcRef s = 0" "mcPc s' \<noteq> MConfirms"
    using m by (cases k; auto simp: monitor_move_def read_published_Some split: if_splits)+
  then have "mcPc s' = MLen \<longrightarrow> mid_records s'" using inv by (intro impI mid_records_quiet) (simp_all add: mchan_inv_def)
  then show ?thesis using inv s' MDrain by (auto simp: mchan_inv_def)
next
  case MLen
  have "mcBuf s = [] \<Longrightarrow> late_records s" using inv mid_late MLen by (simp add: mchan_inv_def)
  then show ?thesis using inv m MLen late_records_cong [of "s\<lparr>mcPc := MConfirms\<rparr>" s] by (auto simp: monitor_move_def mchan_inv_def split: if_splits)
next
  case MConfirms
  then consider "s' = s\<lparr>mcPc := MEnd\<rparr>" | tag cfs where "s' = s\<lparr>mcConfirmCh := cfs, mcMp := AList.delete tag (mcMp s)\<rparr>"
    using m by (auto simp: monitor_move_def read_confirm_Some)
  then show ?thesis
  proof cases
    case 1
    then show ?thesis using inv MConfirms late_records_cong [of s' s] by (auto simp: mchan_inv_def)
  next
    case 2
    then show ?thesis by (intro mchan_inv_cong [OF _ _ _ _ _ _ _ _ inv]) simp_all
  qed
qed (use inv m in \<open>auto simp: monitor_move_def mchan_inv_def\<close>)

lemma mexec_inv:
  assumes "mchan_inv s" "mexec a s = Some s'"
  shows "mchan_inv s'"
proof (cases a)
  case (AUser ok)
  then show ?thesis using assms user_move_inv by simp
next
  case (AMon k)
  then show ?thesis using assms monitor_move_inv by simp
next
  case (ATake packets)
  then show ?thesis using assms by (auto simp: mchan_inv_def records_defs split: if_splits)
next
  case ABeat
  then show ?thesis using assms by (auto simp: mchan_inv_def records_defs split: if_splits)
qed (use assms in \<open>auto intro!: mchan_inv_cong [OF _ _ _ _ _ _ _ _ assms(1)] split: if_splits\<close>)

interpretation channel_life: action_system mexec mchan_inv
  by unfold_locales (rule mexec_inv)


section \<open>Properties\<close>

definition sending :: "mchan \<Rightarrow> bool" where
  "sending s \<longleftrightarrow> (\<exists>p ps. mcAt s = Recording (p # ps) \<or> mcAt s = Undoing p ps)"

lemma user_move_room: "sending s \<Longrightarrow> (\<exists>s'. user_move ok s = Some s') \<longleftrightarrow> length (mcBuf s) < mcCap s"
  by (auto simp: sending_def user_move_def batch_move_def put_published_def split: if_splits)

lemma late_records_short: "late_records s \<Longrightarrow> sending s \<Longrightarrow> length (mcBuf s) < 2"
  by (auto simp: late_records_def sending_def)

text \<open>What the monitor does when a send waits for it.\<close>

definition to_read :: "monpc \<Rightarrow> pick list" where
  "to_read pc = (case pc of
      MWatch \<Rightarrow> [PickPublished] | MClose \<Rightarrow> [PickDelay, PickDelay, PickPublished] | MBeat \<Rightarrow> [PickDelay, PickPublished]
    | MDrain \<Rightarrow> [PickPublished] | MLen \<Rightarrow> [PickDelay, PickPublished] | _ \<Rightarrow> [])"

lemma monitor_makes_room:
  assumes "mcPc s \<notin> {MConfirms, MEnd}" "mcBuf s = r # rs"
  shows "\<exists>s'. runs monitor_move (to_read (mcPc s)) s = Some s' \<and> mcBuf s' = rs \<and> mcCap s' = mcCap s \<and> mcAt s' = mcAt s"
  using assms by (cases "mcPc s"; cases r) (simp_all add: to_read_def monitor_move_def read_published_def)

lemma to_read_short: "length (to_read pc) \<le> 3"
  by (cases pc) (simp_all add: to_read_def)

lemma sending_fed:
  assumes inv: "mchan_inv s" and q: "\<not> mcQuit s" and snd: "sending s"
  shows "\<exists>picks s' s''. length picks \<le> 3 \<and> runs monitor_move picks s = Some s' \<and> user_move ok s' = Some s''"
proof (cases "length (mcBuf s) < mcCap s")
  case True
  then obtain s'' where "user_move ok s = Some s''" using user_move_room [OF snd] by blast
  then show ?thesis by (intro exI [of _ "[]"]) simp
next
  case False
  have pc: "mcPc s \<notin> {MConfirms, MEnd}" using inv q late_records_short [OF _ snd] False by (fastforce simp: mchan_inv_def)
  obtain r rs where b: "mcBuf s = r # rs" using False inv by (cases "mcBuf s") (auto simp: mchan_inv_def)
  obtain s' where s': "runs monitor_move (to_read (mcPc s)) s = Some s'" "mcBuf s' = rs" "mcCap s' = mcCap s" "mcAt s' = mcAt s"
    using monitor_makes_room [OF pc b] by blast
  have "sending s'" "length (mcBuf s') < mcCap s'" using snd inv b s' by (simp_all add: sending_def mchan_inv_def)
  then show ?thesis using s'(1) to_read_short user_move_room by blast
qed


text \<open>
  C13. A publishing task is never left without a reader: whatever the task, other tasks, heartbeats, the broker and the monitor have
  done, as long as the process is not told to end, a task that is about to send a record can do so after at most three moves of the
  monitor. When the monitor returns, it has read the record of every message that was published; what is left unread belongs to one refused
  message.
\<close>

theorem publishers_never_stuck:
  assumes "runs mexec acts (new_mchan d packets) = Some s" "0 < d" "\<not> mcQuit s"
  shows "(sending s \<longrightarrow> (\<exists>picks s' s''. length picks \<le> 3 \<and> runs monitor_move picks s = Some s' \<and> user_move ok s' = Some s'')) \<and>
     (mcPc s = MEnd \<longrightarrow> (\<forall>(n, z) \<in> set (mcBuf s). mcSeq s < n))"
proof -
  have inv: "mchan_inv s" by (rule channel_life.runs_inv [OF assms(1) mchan_inv_new [OF assms(2)]])
  have "\<forall>(n, z) \<in> set (mcBuf s). mcSeq s < n" if "mcPc s = MEnd"
  proof -
    have "late_records s" using inv that assms(3) by (simp add: mchan_inv_def)
    then show ?thesis by (auto simp: late_records_def split: place.splits)
  qed
  then show ?thesis using sending_fed [OF inv assms(3)] by blast
qed

section \<open>At the end of the process\<close>

text \<open>A batch whose messages are all refused, on an open channel, leaves two records for each.\<close>

lemma refused_batch:
  assumes "mcAt s = Recording ps" "\<not> mcClosed s" "length (mcBuf s) + 2 * length ps \<le> mcCap s"
  shows "\<exists>rs. length rs = 2 * length ps \<and>
    runs mexec (concat (replicate (length ps) (replicate 4 (AUser False)))) s = Some (s\<lparr>mcBuf := mcBuf s @ rs, mcAt := Recording []\<rparr>)"
  using assms
proof (induction ps arbitrary: s)
  case Nil
  then show ?case by (intro exI [of _ "[]"]) simp
next
  case (Cons p ps)
  let ?s = "s\<lparr>mcBuf := mcBuf s @ [(mcSeq s + 1, length p), (mcSeq s + 1, 0)], mcAt := Recording ps\<rparr>"
  have four: "runs mexec (replicate 4 (AUser False)) s = Some ?s"
    using Cons.prems by (simp add: numeral_eq_Suc user_move_def batch_move_def put_published_def)
  obtain rs where rs: "length rs = 2 * length ps"
    "runs mexec (concat (replicate (length ps) (replicate 4 (AUser False)))) ?s = Some (?s\<lparr>mcBuf := mcBuf ?s @ rs, mcAt := Recording []\<rparr>)"
    using Cons.IH [of ?s] Cons.prems by auto
  show ?case using four rs
    by (intro exI [of _ "[(mcSeq s + 1, length p), (mcSeq s + 1, 0)] @ rs"]) (simp add: runs_append)
qed

definition strand_acts :: "nat \<Rightarrow> bytes \<Rightarrow> mact list" where
  "strand_acts d p = replicate 2 (AUser True) @ concat (replicate d (replicate 4 (AUser False))) @
     replicate 4 (AUser True) @ [ATake [p], AUser True, AMon PickErr, AMon PickErr, AMon PickErr, AQuit, AMon PickQuit]"

lemma strand_run:
  assumes "0 < d"
  shows "\<exists>s. runs mexec (strand_acts d p) (new_mchan d (replicate d p)) = Some s \<and> mcPc s = MEnd \<and> mcAt s = Recording [p] \<and>
    length (mcBuf s) = mcCap s"
proof -
  let ?s0 = "new_mchan d (replicate d p)"
  let ?s1 = "?s0\<lparr>mcRef := 1, mcAt := Recording (replicate d p)\<rparr>"
  have r1: "runs mexec (replicate 2 (AUser True)) ?s0 = Some ?s1"
    by (simp add: numeral_2_eq_2 user_move_def get_move_def new_mchan_def)
  obtain rs where rs: "length rs = 2 * d"
    "runs mexec (concat (replicate d (replicate 4 (AUser False)))) ?s1 = Some (?s1\<lparr>mcBuf := mcBuf ?s1 @ rs, mcAt := Recording []\<rparr>)"
    using refused_batch [of ?s1 "replicate d p"] by (auto simp: new_mchan_def)
  show ?thesis unfolding strand_acts_def runs_append r1 option.case rs(2)
    using rs(1) by (simp add: numeral_eq_Suc user_move_def batch_move_def release_move_def get_move_def monitor_move_def new_mchan_def)
qed

lemma stranded_inv:
  "mcPc s = MEnd \<and> mcAt s = Recording (p # ps) \<and> length (mcBuf s) = mcCap s \<Longrightarrow> mexec a s = Some s' \<Longrightarrow>
   mcPc s' = MEnd \<and> mcAt s' = Recording (p # ps) \<and> length (mcBuf s') = mcCap s'"
  by (cases a) (auto simp: user_move_def batch_move_def put_published_def monitor_move_def split: if_splits)

interpretation stranded: action_system mexec "\<lambda>s. mcPc s = MEnd \<and> mcAt s = Recording (p # ps) \<and> length (mcBuf s) = mcCap s"
  by unfold_locales (rule stranded_inv)

text \<open>
  C14. The end of the process strands a task: for every batch size there is a run in which \<^verbatim>\<open>publishedCh\<close> is full when the channel
  closes, the monitor sees \<^verbatim>\<open>quit.Ctx.Done()\<close> first and returns, and whatever happens afterwards, the task stays at the send of the same record.
\<close>

theorem quit_strands_publisher:
  assumes "0 < d"
  shows "\<exists>acts s. runs mexec acts (new_mchan d (replicate d p)) = Some s \<and> sending s \<and>
     (\<forall>more s'. runs mexec more s = Some s' \<longrightarrow> mcAt s' = mcAt s)"
proof -
  obtain s where s: "runs mexec (strand_acts d p) (new_mchan d (replicate d p)) = Some s" "mcPc s = MEnd" "mcAt s = Recording [p]"
    "length (mcBuf s) = mcCap s" using strand_run [OF assms] by blast
  have "mcAt s' = mcAt s" if "runs mexec more s = Some s'" for more s'
    using stranded.runs_inv [OF that] s by simp
  then show ?thesis using s unfolding sending_def by blast
qed

section \<open>Witnesses\<close>

definition sample_mchan :: mchan where
  "sample_mchan = (new_mchan 1 [[7]])\<lparr>mcBuf := [(1, 1)], mcRef := 1, mcClosed := True, mcAt := Undoing [7] []\<rparr>"

lemma sample_mchan_run: "runs mexec [AUser True, AUser True, AUser True, AClose, AUser False] (new_mchan 1 [[7]]) = Some sample_mchan"
  by (simp add: sample_mchan_def new_mchan_def user_defs put_published_def)

theorem publishers_never_stuck_witness:
  "\<exists>picks s' s''. length picks \<le> 3 \<and> runs monitor_move picks sample_mchan = Some s' \<and> user_move True s' = Some s''"
proof -
  have "sending sample_mchan" "\<not> mcQuit sample_mchan" by (simp_all add: sending_def sample_mchan_def new_mchan_def)
  then show ?thesis using publishers_never_stuck [OF sample_mchan_run, of True] by simp
qed

theorem quit_strands_publisher_witness:
  "\<exists>acts s. runs mexec acts (new_mchan 256 (replicate 256 [1])) = Some s \<and> sending s \<and> (\<forall>more s'. runs mexec more s = Some s' \<longrightarrow> mcAt s' = mcAt s)"
  by (rule quit_strands_publisher) simp

end
