(* ===== verification/EventLog.thy ===== *)
theory EventLog
  imports RedisSink
begin

text \<open>
  What is logged about an event that could not be handed to the business: \<^verbatim>\<open>FormatSendToBusinessData\<close> of the queues
  (\<^verbatim>\<open>src/internal/queue/internal/fn.go\<close>), the method of the same name of a business connection (\<^verbatim>\<open>src/internal/worker/conn.go\<close>) and
  \<^verbatim>\<open>formatCustomerData\<close> (\<^verbatim>\<open>src/internal/customer/websocket.go\<close>). A line is the list of its fields. A Go slice is the part
  that its length shows and the rest of its array: a slice expression may reach into the rest, and panics behind it. Unmarshalling and the names of
  the commands are generated code and parameters.
\<close>

section \<open>Slices\<close>

record gslice =
  gsVisible :: bytes
  gsBeyond :: bytes

text \<open>\<^verbatim>\<open>b[lo:hi]\<close>; \<open>None\<close> is the panic.\<close>

definition subslice :: "nat \<Rightarrow> nat \<Rightarrow> gslice \<Rightarrow> gslice option" where
  "subslice lo hi b =
     (let arr = gsVisible b @ gsBeyond b
      in if lo \<le> hi \<and> hi \<le> length arr then Some \<lparr>gsVisible = take (hi - lo) (drop lo arr), gsBeyond = drop hi arr\<rparr> else None)"

definition whole :: "bytes \<Rightarrow> gslice" where
  "whole bs = \<lparr>gsVisible = bs, gsBeyond = []\<rparr>"

section \<open>Fields\<close>

datatype fval = FStr string | FStrs "string list" | FText bytes | FHex bytes

type_synonym fields = "(string \<times> fval) list"

record log_env =
  lgTransfer :: "bytes \<Rightarrow> Transfer option"
  lgConnOpen :: "bytes \<Rightarrow> ConnOpen option"
  lgConnClose :: "bytes \<Rightarrow> ConnClose option"
  lgCmdName :: "cmd \<Rightarrow> string"
  lgText :: bool

definition transfer_fields :: "log_env \<Rightarrow> cmd \<Rightarrow> Transfer \<Rightarrow> fields" where
  "transfer_fields env c tf =
     [(''cmd'', FStr (lgCmdName env c)), (''uniqId'', FStr (tfUniqId tf)), (''session'', FStr (tfSession tf)),
      (''customerId'', FStr (tfCustomerId tf)), (''topics'', FStrs (tfTopics tf)),
      (if lgText env then (''data'', FText (tfData tf)) else (''dataHex'', FHex (tfData tf)))]"

definition open_fields :: "log_env \<Rightarrow> cmd \<Rightarrow> ConnOpen \<Rightarrow> fields" where
  "open_fields env c co =
     [(''cmd'', FStr (lgCmdName env c)), (''uniqId'', FStr (coUniqId co)), (''rawQuery'', FStr (coRawQuery co)),
      (''xForwardedFor'', FStr (coXForwardedFor co)), (''xRealIp'', FStr (coXRealIp co)), (''remoteAddr'', FStr (coRemoteAddr co))]"

definition close_fields :: "log_env \<Rightarrow> cmd \<Rightarrow> ConnClose \<Rightarrow> fields" where
  "close_fields env c cl =
     [(''cmd'', FStr (lgCmdName env c)), (''uniqId'', FStr (clUniqId cl)), (''customerId'', FStr (clCustomerId cl)),
      (''session'', FStr (clSession cl)), (''topics'', FStrs (clTopics cl))]"

text \<open>The part that both functions have; a body that cannot be unmarshalled adds nothing to the line.\<close>

definition format_fields :: "log_env \<Rightarrow> cmd \<Rightarrow> bytes \<Rightarrow> fields" where
  "format_fields env c body =
     (if c = Cmd_Transfer then (case lgTransfer env body of None \<Rightarrow> [] | Some tf \<Rightarrow> transfer_fields env c tf)
      else if c = Cmd_ConnOpen then (case lgConnOpen env body of None \<Rightarrow> [] | Some co \<Rightarrow> open_fields env c co)
      else if c = Cmd_ConnClose then (case lgConnClose env body of None \<Rightarrow> [] | Some cl \<Rightarrow> close_fields env c cl)
      else [(''cmd'', FStr (lgCmdName env c))])"

text \<open>The queues call theirs with \<^verbatim>\<open>pkg.Message[0:4]\<close> and \<^verbatim>\<open>pkg.Message[4:]\<close>, the connection its own with the whole header.\<close>

definition FormatSendToBusinessData :: "log_env \<Rightarrow> bytes \<Rightarrow> bytes \<Rightarrow> fields" where
  "FormatSendToBusinessData env cmdBytes body = format_fields env (Uint32 cmdBytes) body"

definition log_discarded :: "log_env \<Rightarrow> bytes \<Rightarrow> fields option" where
  "log_discarded env pkg =
     (if length pkg < 4 then None else Some (FormatSendToBusinessData env (take 4 pkg) (drop 4 pkg)))"

definition formatSendToBusinessData :: "log_env \<Rightarrow> gslice \<Rightarrow> gslice \<Rightarrow> fields option" where
  "formatSendToBusinessData env header body =
     map_option (\<lambda>h. format_fields env (Uint32 (gsVisible h)) (gsVisible body)) (subslice 4 8 header)"

definition formatCustomerData :: "log_env \<Rightarrow> bytes \<Rightarrow> fields" where
  "formatCustomerData env customerData =
     [if lgText env then (''customerData'', FText customerData) else (''customerDataHex'', FHex customerData)]"

section \<open>What a line tells\<close>

text \<open>The fields of a message and its command, as they should be logged.\<close>

definition message_fields :: "log_env \<Rightarrow> message \<Rightarrow> cmd \<Rightarrow> fields" where
  "message_fields env msg c = (case msg of
      MTransfer tf \<Rightarrow> transfer_fields env c tf
    | MConnOpen co \<Rightarrow> open_fields env c co
    | MConnClose cl \<Rightarrow> close_fields env c cl
    | _ \<Rightarrow> [(''cmd'', FStr (lgCmdName env c))])"

text \<open>The generated code reads back what it wrote, and each message goes out under its command.\<close>

definition log_laws :: "log_env \<Rightarrow> (message \<Rightarrow> bytes option) \<Rightarrow> bool" where
  "log_laws env marshal \<longleftrightarrow>
     (\<forall>tf b. marshal (MTransfer tf) = Some b \<longrightarrow> lgTransfer env b = Some tf) \<and>
     (\<forall>co b. marshal (MConnOpen co) = Some b \<longrightarrow> lgConnOpen env b = Some co) \<and>
     (\<forall>cl b. marshal (MConnClose cl) = Some b \<longrightarrow> lgConnClose env b = Some cl)"

fun message_cmd :: "message \<Rightarrow> cmd \<Rightarrow> bool" where
  "message_cmd (MTransfer _) c = (c = Cmd_Transfer)"
| "message_cmd (MConnOpen _) c = (c = Cmd_ConnOpen)"
| "message_cmd (MConnClose _) c = (c = Cmd_ConnClose)"
| "message_cmd (MRegisterResp _ _) c = (c = Cmd_Register)"
| "message_cmd MUnRegisterResp c = (c = Cmd_Unregister)"

lemma format_fields_message:
  assumes "log_laws env marshal" "marshal msg = Some body" "message_cmd msg c"
  shows "format_fields env c body = message_fields env msg c"
  using assms
  by (cases msg) (auto simp: log_laws_def format_fields_def message_fields_def Cmd_Transfer_def Cmd_ConnOpen_def Cmd_ConnClose_def
      Cmd_Register_def Cmd_Unregister_def)

lemma subslice_header: "length h = 8 \<Longrightarrow> subslice 4 8 \<lparr>gsVisible = h, gsBeyond = r\<rparr> = Some \<lparr>gsVisible = drop 4 h, gsBeyond = r\<rparr>"
  by (simp add: subslice_def)

lemma format_whole_packet:
  assumes "packet_set marshal msg c = Some p"
  shows "formatSendToBusinessData env (whole (pheader p)) \<lparr>gsVisible = pbody p, gsBeyond = r\<rparr> = Some (format_fields env c (pbody p))"
proof -
  obtain body where "marshal msg = Some body" "p = \<lparr>pheader = PutUint32 (of_nat (length body + 4)) @ PutUint32 c, pbody = body\<rparr>"
    using assms by (auto simp: packet_set_def split: option.splits)
  then show ?thesis
    using Uint32_Put [of c "[]"] by (simp add: formatSendToBusinessData_def whole_def subslice_header)
qed

section \<open>Properties\<close>

text \<open>
  A line about an event that was not delivered tells the event: for every message that goes out under its command, both functions write
  the fields of that message, with its data, whichever of the two packet formats it is in, and neither panics.
\<close>

theorem discarded_event_logged:
  assumes "log_laws env marshal" "message_cmd msg c" "Packet_Set marshal msg c = Some pkg" "packet_set marshal msg c = Some p"
  shows "log_discarded env pkg = Some (message_fields env msg c) \<and>
     formatSendToBusinessData env (whole (pheader p)) \<lparr>gsVisible = pbody p, gsBeyond = spare\<rparr> = Some (message_fields env msg c)"
proof -
  obtain body where b: "marshal msg = Some body" "pkg = PutUint32 c @ body" "pbody p = body"
    using assms(3,4) by (auto simp: Packet_Set_def packet_set_def split: option.splits)
  note f = format_fields_message [OF assms(1) b(1) assms(2)]
  have "log_discarded env pkg = Some (message_fields env msg c)"
    using f Uint32_Put [of c "[]"] by (simp add: log_discarded_def FormatSendToBusinessData_def b(2))
  then show ?thesis using format_whole_packet [OF assms(4)] f b(3) by simp
qed

section \<open>Witnesses\<close>

definition sample_log_env :: log_env where
  "sample_log_env = \<lparr>lgTransfer = (\<lambda>_. None), lgConnOpen = (\<lambda>_. None),
     lgConnClose = (\<lambda>b. if b = [5] then Some \<lparr>clUniqId = ''u'', clCustomerId = [], clSession = [], clTopics = []\<rparr> else None),
     lgCmdName = (\<lambda>_. ''ConnClose''), lgText = True\<rparr>"

definition sample_marshal :: "message \<Rightarrow> bytes option" where
  "sample_marshal m = (if m = MConnClose \<lparr>clUniqId = ''u'', clCustomerId = [], clSession = [], clTopics = []\<rparr> then Some [5] else None)"

lemma sample_log_laws: "log_laws sample_log_env sample_marshal"
  by (simp add: log_laws_def sample_log_env_def sample_marshal_def)

theorem discarded_event_logged_witness:
  "log_discarded sample_log_env (PutUint32 Cmd_ConnClose @ [5]) =
     Some [(''cmd'', FStr ''ConnClose''), (''uniqId'', FStr ''u''), (''customerId'', FStr []), (''session'', FStr []), (''topics'', FStrs [])]"
proof -
  let ?m = "MConnClose \<lparr>clUniqId = ''u'', clCustomerId = [], clSession = [], clTopics = []\<rparr>"
  have p: "Packet_Set sample_marshal ?m Cmd_ConnClose = Some (PutUint32 Cmd_ConnClose @ [5])" "message_cmd ?m Cmd_ConnClose"
    by (simp_all add: Packet_Set_def sample_marshal_def)
  obtain q where q: "packet_set sample_marshal ?m Cmd_ConnClose = Some q" by (simp add: packet_set_def sample_marshal_def)
  show ?thesis using discarded_event_logged [OF sample_log_laws p(2,1) q]
    by (simp add: message_fields_def close_fields_def sample_log_env_def)
qed

end
