(* ===== verification/WorkerSend.thy ===== *)
theory WorkerSend
  imports EventLog
begin

text \<open>
  The sending coroutine of a business connection, \<^verbatim>\<open>loopSend\<close> and \<^verbatim>\<open>send\<close> of \<^verbatim>\<open>src/internal/worker/conn.go\<close>, with what it logs.
  \<^verbatim>\<open>net.Buffers.WriteTo\<close> of the standard library removes what it has written from the list of buffers, also when it returns an error, and \<^verbatim>\<open>send\<close>
  logs the buffers that are left, two by two. What lies in the arrays of the bodies behind them (\<open>spare\<close>) and the outcomes of the writes
  are arguments.
\<close>

section \<open>Buffers\<close>

definition buffers_of :: "(packet \<Rightarrow> bytes) \<Rightarrow> packet list \<Rightarrow> gslice list" where
  "buffers_of spare packets = concat (map (\<lambda>p. [whole (pheader p), \<lparr>gsVisible = pbody p, gsBeyond = spare p\<rparr>]) packets)"

text \<open>What \<^verbatim>\<open>WriteTo\<close> leaves of the buffers after \<open>n\<close> bytes.\<close>

fun consume :: "nat \<Rightarrow> gslice list \<Rightarrow> gslice list" where
  "consume n [] = []"
| "consume n (b # bs) = (if length (gsVisible b) > n then b\<lparr>gsVisible := drop n (gsVisible b)\<rparr> # bs else consume (n - length (gsVisible b)) bs)"

text \<open>The loop that logs the buffers; the second component tells whether it panicked.\<close>

fun log_buffers :: "log_env \<Rightarrow> gslice list \<Rightarrow> fields list \<times> bool" where
  "log_buffers env (header # body # bs) = (case formatSendToBusinessData env header body of
      None \<Rightarrow> ([], True)
    | Some l \<Rightarrow> (let (ls, panicked) = log_buffers env bs in (l # ls, panicked)))"
| "log_buffers env _ = ([], False)"

section \<open>Sending\<close>

record send_st =
  ssWorkers :: workers
  ssReg :: metricsRegistry
  ssLog :: "fields list"

datatype send_res = SendOk | SendFailed | SendPanic

definition on_wire :: "wref \<Rightarrow> bytes \<Rightarrow> workers \<Rightarrow> workers" where
  "on_wire r bs w = w\<lparr>wheap := (wheap w)(r := (wheap w r)\<lparr>wwire := wwire (wheap w r) @ bs\<rparr>)\<rparr>"

definition WConn_send :: "log_env \<Rightarrow> write_outcome \<Rightarrow> gslice list \<Rightarrow> wref \<Rightarrow> send_st \<Rightarrow> send_res \<times> send_st" where
  "WConn_send env res buffers r st =
     (let bs = concat (map gsVisible buffers); w = ssWorkers st
      in case res of
           WDeadline \<Rightarrow> (SendFailed, st\<lparr>ssWorkers := WConn_Close r w\<rparr>)
         | WOk \<Rightarrow> (SendOk, st\<lparr>ssWorkers := on_wire r bs w\<rparr>)
         | WErr writeLen \<Rightarrow>
             let w = on_wire r (take writeLen bs) w;
                 w = (if writeLen \<noteq> 0 then WConn_Close r w else w);
                 (ls, panicked) = log_buffers env (consume writeLen buffers)
             in (if panicked then SendPanic else SendFailed, st\<lparr>ssWorkers := w, ssLog := ssLog st @ ls\<rparr>))"

definition mark_sent :: "nat \<Rightarrow> nat \<Rightarrow> send_st \<Rightarrow> send_st" where
  "mark_sent cnt sz st = st\<lparr>ssReg := Mark ItemWorkerToBusinessSucceedByte (int sz) (Mark ItemWorkerToBusinessSucceedCount (int cnt) (ssReg st))\<rparr>"

definition mark_failed :: "nat \<Rightarrow> send_st \<Rightarrow> send_st" where
  "mark_failed cnt st = st\<lparr>ssReg := Mark ItemWorkerToBusinessFailedCount (int cnt) (ssReg st)\<rparr>"

text \<open>
  One turn of \<^verbatim>\<open>loopSend\<close>: up to \<^verbatim>\<open>dequeueSize\<close> packets are taken; a batch below \<^verbatim>\<open>packLimit\<close> is written at once, a larger one packet by
  packet. \<open>res\<close> gives the outcomes of the writes in their order. The first component tells whether the coroutine goes on: it ends when the
  queue is closed and empty, and after a panic, which its deferred function recovers.
\<close>

fun loopSend_single :: "log_env \<Rightarrow> (packet \<Rightarrow> bytes) \<Rightarrow> wref \<Rightarrow> (write_outcome \<times> packet) list \<Rightarrow> send_st \<Rightarrow> bool \<times> send_st" where
  "loopSend_single env spare r [] st = (True, st)"
| "loopSend_single env spare r ((res, p) # ps) st =
     (let size = 8 + length (pbody p)
      in case WConn_send env res (buffers_of spare [p]) r st of
           (SendOk, st) \<Rightarrow> loopSend_single env spare r ps (mark_sent 1 size st)
         | (SendFailed, st) \<Rightarrow> loopSend_single env spare r ps (mark_failed 1 st)
         | (SendPanic, st) \<Rightarrow> (False, st))"

definition Dequeue_worker :: "nat \<Rightarrow> wref \<Rightarrow> send_st \<Rightarrow> packet list \<times> send_st" where
  "Dequeue_worker n r st =
     (let w = ssWorkers st; k = wheap w r
      in (take n (wsendCh k), st\<lparr>ssWorkers := w\<lparr>wheap := (wheap w)(r := k\<lparr>wsendCh := drop n (wsendCh k)\<rparr>)\<rparr>\<rparr>))"

definition loopSend :: "log_env \<Rightarrow> (packet \<Rightarrow> bytes) \<Rightarrow> nat \<Rightarrow> nat \<Rightarrow> (nat \<Rightarrow> write_outcome) \<Rightarrow> wref \<Rightarrow> send_st \<Rightarrow> bool \<times> send_st" where
  "loopSend env spare dequeueSize receivePackLimit res r st =
     (let packLimit = max receivePackLimit (dequeueSize * 2 * 1024);
          (packets, st) = Dequeue_worker dequeueSize r st;
          count = length packets;
          size = count * 8 + sum_list (map (\<lambda>p. length (pbody p)) packets)
      in if count = 0 then (False, st)
         else if size < packLimit
         then (case WConn_send env (res 0) (buffers_of spare packets) r st of
                 (SendOk, st) \<Rightarrow> (True, mark_sent count size st)
               | (SendFailed, st) \<Rightarrow> (True, mark_failed count st)
               | (SendPanic, st) \<Rightarrow> (False, st))
         else loopSend_single env spare r (zip (map res [0..<count]) packets) st)"

section \<open>Counting\<close>

definition tried :: "metricsRegistry \<Rightarrow> int" where
  "tried reg = meterCount (reg ItemWorkerToBusinessSucceedCount) + meterCount (reg ItemWorkerToBusinessFailedCount)"

definition worker_metered :: "metricsRegistry \<Rightarrow> bool" where
  "worker_metered reg \<longleftrightarrow> reg ItemWorkerToBusinessSucceedCount \<noteq> NilMeter \<and> reg ItemWorkerToBusinessSucceedByte \<noteq> NilMeter \<and>
     reg ItemWorkerToBusinessFailedCount \<noteq> NilMeter"

lemma worker_metered_Mark: "worker_metered reg \<Longrightarrow> worker_metered (Mark i n reg)"
  by (auto simp: worker_metered_def Mark_def Meter_Mark_def split: Meter.splits)

lemma mark_tried:
  assumes "worker_metered (ssReg st)"
  shows "worker_metered (ssReg (mark_sent n z st))" "tried (ssReg (mark_sent n z st)) = tried (ssReg st) + int n"
    "worker_metered (ssReg (mark_failed n st))" "tried (ssReg (mark_failed n st)) = tried (ssReg st) + int n"
  using assms worker_metered_Mark by (simp_all add: mark_sent_def mark_failed_def tried_def meterCount_Mark) (auto simp: worker_metered_def)

lemma WConn_send_reg: "WConn_send env res bufs r st = (x, st') \<Longrightarrow> ssReg st' = ssReg st"
  by (auto simp: WConn_send_def Let_def split: write_outcome.splits prod.splits)

lemma loopSend_single_tried:
  assumes "loopSend_single env spare r ps st = (True, st')" "worker_metered (ssReg st)"
  shows "tried (ssReg st') = tried (ssReg st) + int (length ps)"
  using assms
proof (induction env spare r ps st rule: loopSend_single.induct)
  case (2 env spare r res p ps st)
  obtain x t where x: "WConn_send env res (buffers_of spare [p]) r st = (x, t)" by fastforce
  have t: "ssReg t = ssReg st" by (rule WConn_send_reg [OF x])
  then have m: "worker_metered (ssReg t)" using "2.prems" by simp
  show ?case using "2.IH"(1) [OF refl x [symmetric]] "2.IH"(2) [OF refl x [symmetric]] "2.prems" mark_tried [OF m] t x
    by (cases x) simp_all
qed simp


lemma sendCh_close: "wsendCh (wheap (WConn_Close r w) q) = wsendCh (wheap w q)"
  by (cases "wcloseLock (wheap w r)") (simp_all add: WConn_Close_heap WConn_Close_again)

lemma locked_close: "wcloseLock (wheap (WConn_Close r w) r)"
  by (cases "wcloseLock (wheap w r)") (simp_all add: WConn_Close_heap WConn_Close_again)

lemma WConn_send_sendCh: "WConn_send env res bufs r st = (x, st') \<Longrightarrow> wsendCh (wheap (ssWorkers st') r) = wsendCh (wheap (ssWorkers st) r)"
  by (auto simp: WConn_send_def Let_def on_wire_def sendCh_close split: write_outcome.splits prod.splits)

lemma mark_workers [simp]: "ssWorkers (mark_sent n z st) = ssWorkers st" "ssWorkers (mark_failed n st) = ssWorkers st"
  by (simp_all add: mark_sent_def mark_failed_def)

lemma loopSend_single_sendCh:
  "loopSend_single env spare r ps st = (x, st') \<Longrightarrow> wsendCh (wheap (ssWorkers st') r) = wsendCh (wheap (ssWorkers st) r)"
proof (induction env spare r ps st rule: loopSend_single.induct)
  case (2 env spare r res p ps st)
  obtain y t where y: "WConn_send env res (buffers_of spare [p]) r st = (y, t)" by fastforce
  show ?case using "2.IH"(1) [OF refl y [symmetric]] "2.IH"(2) [OF refl y [symmetric]] "2.prems" WConn_send_sendCh [OF y] y
    by (cases y) simp_all
qed simp

lemma visible_buffers: "concat (map gsVisible (buffers_of spare ps)) = concat (map wire ps)"
  by (induction ps) (simp_all add: buffers_of_def whole_def wire_def)

lemma WConn_send_WOk:
  "WConn_send env WOk bufs r st = (SendOk, st\<lparr>ssWorkers := on_wire r (concat (map gsVisible bufs)) (ssWorkers st)\<rparr>)"
  by (simp add: WConn_send_def)

lemma loopSend_single_WOk:
  "\<exists>st'. loopSend_single env spare r (map (Pair WOk) ps) st = (True, st') \<and>
     wwire (wheap (ssWorkers st') r) = wwire (wheap (ssWorkers st) r) @ concat (map wire ps)"
proof (induction ps arbitrary: st)
  case (Cons p ps)
  let ?t = "mark_sent 1 (8 + length (pbody p)) (st\<lparr>ssWorkers := on_wire r (concat (map gsVisible (buffers_of spare [p]))) (ssWorkers st)\<rparr>)"
  obtain st' where "loopSend_single env spare r (map (Pair WOk) ps) ?t = (True, st')"
    "wwire (wheap (ssWorkers st') r) = wwire (wheap (ssWorkers ?t) r) @ concat (map wire ps)" using Cons.IH by blast
  then show ?case by (simp add: WConn_send_WOk visible_buffers on_wire_def)
qed simp

section \<open>A write that stops inside a header\<close>

lemma consume_packets:
  assumes "\<forall>p \<in> set ps. length (pheader p) = 8"
  shows "consume (length (concat (map wire ps)) + k) (buffers_of spare ps @ bs) = consume k bs"
  using assms by (induction ps) (simp_all add: buffers_of_def whole_def wire_def)

lemma log_cut_header:
  assumes "0 < k" "length h = 8"
  shows "log_buffers env (consume k (whole h # b # bs)) = (if k < 8 then ([], True) else log_buffers env (consume (k - 8) (b # bs)))"
proof -
  have "\<not> 8 \<le> 8 - k" using assms(1) by linarith
  then show ?thesis using assms by (simp add: whole_def formatSendToBusinessData_def subslice_def Let_def)
qed

text \<open>An error before the first byte leaves all packets whole: nothing panics.\<close>

lemma log_whole_packets:
  assumes "\<forall>p \<in> set ps. length (pheader p) = 8"
  shows "\<not> snd (log_buffers env (buffers_of spare ps))"
  using assms
  by (induction ps) (simp_all add: buffers_of_def whole_def formatSendToBusinessData_def subslice_def case_prod_unfold Let_def)

section \<open>Properties\<close>


text \<open>
  C9. A write error inside a header ends the sending coroutine: when the write of a batch stops after some, but not all, bytes of a
  packet's header, \<^verbatim>\<open>formatSendToBusinessData\<close> gets the rest of that header and \<^verbatim>\<open>header[4:8]\<close> panics. The connection is closed, none of the packets of
  the batch is counted or logged, and the packets behind them stay in the queue.
\<close>

theorem cut_header_stops_sender:
  assumes q: "take n (wsendCh (wheap (ssWorkers st) r)) = ps @ p # qs" and h: "\<forall>p \<in> set (ps @ [p]). length (pheader p) = 8"
    and size: "length (ps @ p # qs) * 8 + sum_list (map (\<lambda>p. length (pbody p)) (ps @ p # qs)) < max limit (n * 2 * 1024)"
    and res: "res 0 = WErr (length (concat (map wire ps)) + k)" "0 < k" "k < 8"
  shows "\<exists>st'. loopSend env spare n limit res r st = (False, st') \<and> ssReg st' = ssReg st \<and> ssLog st' = ssLog st \<and>
     wcloseLock (wheap (ssWorkers st') r) \<and> wsendCh (wheap (ssWorkers st') r) = drop n (wsendCh (wheap (ssWorkers st) r))"
proof -
  let ?n = "length (concat (map wire ps)) + k"
  obtain t where d: "Dequeue_worker n r st = (ps @ p # qs, t)" "ssReg t = ssReg st" "ssLog t = ssLog st"
    "wsendCh (wheap (ssWorkers t) r) = drop n (wsendCh (wheap (ssWorkers st) r))" using q by (simp add: Dequeue_worker_def Let_def)
  have "buffers_of spare (ps @ p # qs) = buffers_of spare ps @ whole (pheader p) # \<lparr>gsVisible = pbody p, gsBeyond = spare p\<rparr> # buffers_of spare qs"
    by (simp add: buffers_of_def)
  then have "log_buffers env (consume ?n (buffers_of spare (ps @ p # qs))) = ([], True)"
    using consume_packets [of ps k spare] log_cut_header [OF res(2)] h res(3) by simp
  then have x: "WConn_send env (res 0) (buffers_of spare (ps @ p # qs)) r t =
      (SendPanic, t\<lparr>ssWorkers := WConn_Close r (on_wire r (take ?n (concat (map gsVisible (buffers_of spare (ps @ p # qs))))) (ssWorkers t))\<rparr>)" (is "_ = (_, ?u)")
    using res(2) unfolding res(1) by (simp add: WConn_send_def)
  have l: "loopSend env spare n limit res r st = (False, ?u)"
    using size x unfolding loopSend_def d(1) by (simp add: Let_def)
  show ?thesis using l d WConn_send_sendCh [OF x]
    by (intro exI [of _ ?u]) (simp add: locked_close)
qed

section \<open>Witnesses\<close>

definition sample_send_st :: send_st where
  "sample_send_st = \<lparr>ssWorkers = sample_workers\<lparr>wheap := (\<lambda>_. (newConn ''w'')\<lparr>wsendCh := [\<lparr>pheader = [0, 0, 0, 5, 0, 0, 0, 7], pbody = [1]\<rparr>]\<rparr>)\<rparr>,
     ssReg = (\<lambda>_. StandardMeter 0), ssLog = []\<rparr>"


theorem cut_header_stops_sender_witness:
  "\<exists>st'. loopSend sample_log_env (\<lambda>_. []) 2 100 (\<lambda>_. WErr 3) 0 sample_send_st = (False, st') \<and> ssLog st' = []"
proof -
  let ?p = "\<lparr>pheader = [0, 0, 0, 5, 0, 0, 0, 7], pbody = [1]\<rparr>"
  have "take 2 (wsendCh (wheap (ssWorkers sample_send_st) 0)) = [] @ ?p # []" by (simp add: sample_send_st_def newConn_def)
  from cut_header_stops_sender [OF this, of 100 "\<lambda>_. WErr 3" 3 sample_log_env "\<lambda>_. []"] show ?thesis by (auto simp: sample_send_st_def)
qed

end
