(* ===== verification/EventServer.thy ===== *)
theory EventServer
  imports GatewayProps
begin

text \<open>
  The struct \<^verbatim>\<open>Server\<close> of \<^verbatim>\<open>src/internal/wsServer/server.go\<close>, whose handlers call five callbacks, with the two sets of callbacks that
  \<^verbatim>\<open>src/internal/customer/websocket.go\<close> gives it: those of the gateway, for which the handlers are the ones of \<open>CustomerEvents\<close>, and those of
  \<^verbatim>\<open>StartAutobahn\<close>, which send every message back. What the callbacks keep beside the gateway's state is a type parameter. The lemmas
  show that it does not matter how the bytes of a client arrive, and that its messages are handed over one by one, in their order.
\<close>

section \<open>The server\<close>

record ('l, 'x) server =
  srvUpgradeCheck :: "http_request \<Rightarrow> http_response option"
  srvOpen :: "circ \<Rightarrow> cref \<Rightarrow> httpReq \<Rightarrow> 'l gw \<times> 'x \<Rightarrow> open_res \<times> 'l gw \<times> 'x"
  srvPing :: "int \<Rightarrow> cref \<Rightarrow> 'l gw \<times> 'x \<Rightarrow> 'l gw \<times> 'x"
  srvMessage :: "int \<Rightarrow> cref \<Rightarrow> opcode \<Rightarrow> bytes \<Rightarrow> 'l gw \<times> 'x \<Rightarrow> 'l gw \<times> 'x"
  srvClose :: "cref \<Rightarrow> 'l gw \<times> 'x \<Rightarrow> 'l gw \<times> 'x"

function serve_loop :: "('l, 'x) server \<Rightarrow> 'l env \<Rightarrow> (bytes \<Rightarrow> bytes option) \<Rightarrow> int \<Rightarrow> cref \<Rightarrow> bytes \<Rightarrow> 'l gw \<times> 'x \<Rightarrow>
    action \<times> bytes \<times> 'l gw \<times> 'x" where
  "serve_loop srv env infl now c buf st =
     (let upd = (\<lambda>f. apfst (updCodec f c))
      in case decode infl (ccodec (heap (fst st) c)) buf of
        (DErr code e, k, rest) \<Rightarrow>
          (ActClose, rest, if code \<noteq> 0 then apfst (refuse env c code e) (upd (\<lambda>_. k) st) else upd (\<lambda>_. k) st)
      | (DShort, k, rest) \<Rightarrow> (ActNone, rest, upd (\<lambda>_. k) st)
      | (DPanic, k, rest) \<Rightarrow> (ActPanic, rest, upd (\<lambda>_. k) st)
      | (DMsg m, k, rest) \<Rightarrow>
          let st = upd (\<lambda>_. k) st; op = currMessageOpCode k;
              next = (\<lambda>st. let st = upd resetCurrMessage st
                           in if length rest > 0 then serve_loop srv env infl now c rest st else (ActNone, rest, st))
          in if IsData op then next (srvMessage srv now c op m st)
             else if op = OpClose
             then (ActClose, rest, if fst (SetClosedFlagOnSafe (ccodec (heap (fst st) c)))
                                   then apfst (\<lambda>s. snd (WriteServerMessage env c OpClose m (setClosed c s))) st else st)
             else if op = OpPing
             then let (ok, s) = WriteServerMessage env c OpPong m (fst st)
                  in if \<not> ok then (ActClose, rest, s, snd st) else next (srvPing srv now c (s, snd st))
             else if op = OpPong then next st
             else if IsReserved op then (ActClose, rest, apfst (refuse env c StatusUnsupportedData ''unsupported opcode'') st)
             else next st)"
  by pat_completeness auto
termination
  by (relation "measure (\<lambda>(_, _, _, _, _, buf, _). length buf)") (auto dest: decode_consumes [OF sym])

declare serve_loop.simps [simp del]

definition serve_traffic :: "('l, 'x) server \<Rightarrow> 'l env \<Rightarrow> http_env \<Rightarrow> (bytes \<Rightarrow> bytes option) \<Rightarrow> circ \<Rightarrow> cref \<Rightarrow> bytes \<Rightarrow> 'l gw \<times> 'x \<Rightarrow>
    action \<times> bytes \<times> 'l gw \<times> 'x" where
  "serve_traffic srv env he infl ev c buf st =
     (if \<not> isUpgraded (ccodec (heap (fst st) c))
      then case upgrade he (srvUpgradeCheck srv) (evIo ev) (ccodec (heap (fst st) c)) of
             (req, _, act, k) \<Rightarrow>
               let st = apfst (updCodec (\<lambda>_. k) c) st
               in case req of
                    None \<Rightarrow> (act, buf, st)
                  | Some q \<Rightarrow>
                      (case srvOpen srv ev c \<lparr>RawQuery = URLRawQuery q, XForwardedFor = Header_Get q ''X-Forwarded-For'',
                              XRealIp = Header_Get q ''X-Real-IP'', RemoteAddr = evRemote ev\<rparr> st of
                         (OpenOk, st) \<Rightarrow> (act, [], st)
                       | (OpenErr code e, st) \<Rightarrow> (ActClose, [], apfst (refuse env c code e) st)
                       | (OpenPanic, st) \<Rightarrow> (ActPanic, [], st))
      else serve_loop srv env infl (evNow ev) c buf st)"

definition serve_close :: "('l, 'x) server \<Rightarrow> cref \<Rightarrow> 'l gw \<times> 'x \<Rightarrow> 'l gw \<times> 'x" where
  "serve_close srv c st = (if isUpgraded (ccodec (heap (fst st) c)) then srvClose srv c (apfst (setClosed c) st) else st)"

section \<open>The gateway's callbacks\<close>

definition gateway_server :: "'l env \<Rightarrow> srv \<Rightarrow> ('l, unit) server" where
  "gateway_server env sv = \<lparr>
     srvUpgradeCheck = OnUpgradeCheck (HandlePattern sv) (AllowOrigin sv),
     srvOpen = (\<lambda>ev c req (s, x). let (r, s) = OnWebsocketOpen env ev c req s in (r, s, x)),
     srvPing = (\<lambda>now c. apfst (OnWebsocketPing now c)),
     srvMessage = (\<lambda>now c op d. apfst (OnWebsocketMessage env now c d)),
     srvClose = (\<lambda>c. apfst (OnWebsocketClose c))\<rparr>"

section \<open>The Autobahn callbacks\<close>

text \<open>Every message is sent back by a task of the goroutine pool, or a goroutine when the pool refuses it.\<close>

type_synonym echo = "cref \<times> opcode \<times> bytes"

definition autobahn_server :: "('l, echo list) server" where
  "autobahn_server = \<lparr>
     srvUpgradeCheck = (\<lambda>_. None),
     srvOpen = (\<lambda>ev c req st. (OpenOk, st)),
     srvPing = (\<lambda>now c st. st),
     srvMessage = (\<lambda>now c op d. apsnd (\<lambda>ts. ts @ [(c, op, d)])),
     srvClose = (\<lambda>c st. st)\<rparr>"

definition run_echo :: "'l env \<Rightarrow> echo \<Rightarrow> 'l gw \<Rightarrow> 'l gw" where
  "run_echo env t s = (case t of (c, op, d) \<Rightarrow> snd (WriteMessage env c op d s))"

section \<open>The gateway's handlers are these\<close>

lemma loop_gateway:
  "serve_loop (gateway_server env sv) env (inflate sv) now c buf (s, x) = (case traffic_loop env sv now c buf s of (a, b, s') \<Rightarrow> (a, b, s', x))"
proof (induction env sv now c buf s rule: traffic_loop.induct)
  case (1 env sv now c buf s)
  obtain d k rest where d: "decode (inflate sv) (ccodec (heap s c)) buf = (d, k, rest)" by (metis prod_cases3)
  show ?case
  proof (cases d)
    case (DMsg m)
    note IH = "1.IH" [OF d [symmetric] DMsg refl refl refl refl]
    show ?thesis
      unfolding serve_loop.simps [of _ _ _ _ _ buf] traffic_loop.simps [of env sv now c buf s]
      using IH by (simp add: d DMsg Let_def gateway_server_def split: prod.split)
  qed (simp_all add: serve_loop.simps [of _ _ _ _ _ buf] traffic_loop.simps [of env sv now c buf s] d Let_def)
qed


lemma traffic_gateway:
  "serve_traffic (gateway_server env sv) env (httpEnv sv) (inflate sv) ev c buf (s, ()) =
     (case OnTraffic env sv ev c buf s of (a, b, s') \<Rightarrow> (a, b, s', ()))"
proof (cases "isUpgraded (ccodec (heap s c))")
  case True
  then show ?thesis by (simp add: serve_traffic_def OnTraffic_def loop_gateway)
next
  case False
  have u: "srvUpgradeCheck (gateway_server env sv) = OnUpgradeCheck (HandlePattern sv) (AllowOrigin sv)"
    and o': "srvOpen (gateway_server env sv) ev c req (s', ()) = (case OnWebsocketOpen env ev c req s' of (r, s'') \<Rightarrow> (r, s'', ()))" for req s'
    by (simp_all add: gateway_server_def)
  obtain req resp act k where g: "upgrade (httpEnv sv) (OnUpgradeCheck (HandlePattern sv) (AllowOrigin sv)) (evIo ev) (ccodec (heap s c)) = (req, resp, act, k)"
    by (metis prod_cases4)
  show ?thesis
  proof (cases req)
    case None
    then show ?thesis using False by (simp add: serve_traffic_def OnTraffic_def u g)
  next
    case (Some q)
    let ?q = "\<lparr>RawQuery = URLRawQuery q, XForwardedFor = Header_Get q ''X-Forwarded-For'', XRealIp = Header_Get q ''X-Real-IP'', RemoteAddr = evRemote ev\<rparr>"
    obtain r s' where r: "OnWebsocketOpen env ev c ?q (updCodec (\<lambda>_. k) c s) = (r, s')" by fastforce
    show ?thesis using False Some by (cases r) (simp_all add: serve_traffic_def OnTraffic_def u g o' r del: unit_abs_eta_conv)
  qed
qed

lemma close_gateway: "serve_close (gateway_server env sv) c (s, x) = (server_OnClose c s, x)"
  by (simp add: serve_close_def server_OnClose_def gateway_server_def)

section \<open>More bytes do not change what was decoded\<close>

lemma decode_payload_ends:
  "decode_payload fin rsv op L p r = (FErr st e, r') \<Longrightarrow> decode_payload fin rsv op L (p @ new) r = (FErr st e, r')"
  "decode_payload fin rsv op L p r = (FPanic, r') \<Longrightarrow> decode_payload fin rsv op L (p @ new) r = (FPanic, r')"
proof -
  have n: "nat (sint L) + 4 \<le> length p" if "\<not> int (length p) < sint (L + 4)" "\<not> sint (L + 4) < 4"
    using that sint_plus4 [of L] by simp
  show "decode_payload fin rsv op L p r = (FErr st e, r') \<Longrightarrow> decode_payload fin rsv op L (p @ new) r = (FErr st e, r')"
    using n by (auto simp: decode_payload_def Let_def split: if_splits prod.splits option.splits)
  show "decode_payload fin rsv op L p r = (FPanic, r') \<Longrightarrow> decode_payload fin rsv op L (p @ new) r = (FPanic, r')"
    using n by (auto simp: decode_payload_def Let_def split: if_splits prod.splits option.splits)
qed

lemma decode_length_ends:
  assumes "2 \<le> length p"
  shows "decode_length fin rsv op p r = (FErr st e, r') \<Longrightarrow> decode_length fin rsv op (p @ new) r = (FErr st e, r')"
    "decode_length fin rsv op p r = (FPanic, r') \<Longrightarrow> decode_length fin rsv op (p @ new) r = (FPanic, r')"
  using assms
  by (auto simp: decode_length_def Let_def nth_append Uint_more split: if_splits intro!: decode_payload_ends)

lemma decode_frame_ends:
  "decode_frame r p = (FErr st e, r') \<Longrightarrow> decode_frame r (p @ new) = (FErr st e, r')"
  "decode_frame r p = (FPanic, r') \<Longrightarrow> decode_frame r (p @ new) = (FPanic, r')"
proof -
  have hd: "2 \<le> length p \<Longrightarrow> (p @ new) ! 0 = p ! 0" by (auto simp: nth_append)
  show "decode_frame r p = (FErr st e, r') \<Longrightarrow> decode_frame r (p @ new) = (FErr st e, r')"
    using hd by (auto simp: decode_frame_def Let_def split: if_splits prod.splits option.splits intro!: decode_length_ends)
  show "decode_frame r p = (FPanic, r') \<Longrightarrow> decode_frame r (p @ new) = (FPanic, r')"
    using hd by (auto simp: decode_frame_def Let_def split: if_splits prod.splits option.splits intro!: decode_length_ends)
qed

lemma decode_more:
  "decode f r buf = (d, r', rest) \<Longrightarrow> d \<noteq> DShort \<Longrightarrow> decode f r (buf @ new) = (d, r', rest @ new)"
proof (induction f r buf rule: decode.induct)
  case (1 f r buf)
  obtain fr r1 where df: "decode_frame r buf = (fr, r1)" by fastforce
  show ?case
  proof (cases fr)
    case (FFrame fin more)
    have m: "decode_frame r (buf @ new) = (FFrame fin (more @ new), r1)" using decode_frame_more df FFrame by blast
    show ?thesis
    proof (cases fin)
      case True
      have "finish f r1 more = (d, r', rest)" using "1.prems"(1) df FFrame True by (simp add: decode_unfold [of f r buf])
      then have "finish f r1 (more @ new) = (d, r', rest @ new)" by (auto simp: finish_def split: sum.splits)
      then show ?thesis using m True by (simp add: decode_unfold [of f r "buf @ new"])
    next
      case False
      have "decode f r1 more = (d, r', rest)" using "1.prems"(1) df FFrame False by (simp add: decode_unfold [of f r buf])
      then have "decode f r1 (more @ new) = (d, r', rest @ new)" using "1.IH" [OF df [symmetric] FFrame False] "1.prems"(2) by blast
      then show ?thesis using m False by (simp add: decode_unfold [of f r "buf @ new"])
    qed
  next
    case (FErr st e)
    then show ?thesis using "1.prems" df decode_frame_ends(1) [of r buf st e r1 new] by (auto simp: decode_unfold [of f r buf] decode_unfold [of f r "_ @ new"])
  next
    case FPanic
    then show ?thesis using "1.prems" df decode_frame_ends(2) [of r buf r1 new] by (auto simp: decode_unfold [of f r buf] decode_unfold [of f r "_ @ new"])
  qed (use "1.prems" df in \<open>simp add: decode_unfold [of f r buf]\<close>)
qed


section \<open>It does not matter how the bytes arrive\<close>

text \<open>What the loop does with a decoded message: it ends, or goes on from a new state.\<close>

definition serve_turn :: "('l, 'x) server \<Rightarrow> 'l env \<Rightarrow> int \<Rightarrow> cref \<Rightarrow> bytes \<Rightarrow> codec \<Rightarrow> 'l gw \<times> 'x \<Rightarrow> ('l gw \<times> 'x) + ('l gw \<times> 'x)" where
  "serve_turn srv env now c m k st =
     (let st = apfst (updCodec (\<lambda>_. k) c) st; op = currMessageOpCode k; next = (\<lambda>st. Inr (apfst (updCodec resetCurrMessage c) st))
      in if IsData op then next (srvMessage srv now c op m st)
         else if op = OpClose
         then Inl (if fst (SetClosedFlagOnSafe (ccodec (heap (fst st) c)))
                   then apfst (\<lambda>s. snd (WriteServerMessage env c OpClose m (setClosed c s))) st else st)
         else if op = OpPing
         then let (ok, s) = WriteServerMessage env c OpPong m (fst st)
              in if \<not> ok then Inl (s, snd st) else next (srvPing srv now c (s, snd st))
         else if op = OpPong then next st
         else if IsReserved op then Inl (apfst (refuse env c StatusUnsupportedData ''unsupported opcode'') st)
         else next st)"

lemma serve_loop_msg:
  assumes "decode infl (ccodec (heap (fst st) c)) buf = (DMsg m, k, rest)"
  shows "serve_loop srv env infl now c buf st = (case serve_turn srv env now c m k st of
      Inl st' \<Rightarrow> (ActClose, rest, st')
    | Inr st' \<Rightarrow> if rest \<noteq> [] then serve_loop srv env infl now c rest st' else (ActNone, [], st'))"
  by (subst serve_loop.simps) (simp add: assms serve_turn_def Let_def split: prod.split)

lemma serve_loop_err:
  assumes "decode infl (ccodec (heap (fst st) c)) buf = (DErr code e, k, rest)"
  shows "serve_loop srv env infl now c buf st = (ActClose, rest,
    if code \<noteq> 0 then apfst (refuse env c code e) (apfst (updCodec (\<lambda>_. k) c) st) else apfst (updCodec (\<lambda>_. k) c) st)"
  by (subst serve_loop.simps) (simp add: assms)

lemma serve_loop_panic:
  assumes "decode infl (ccodec (heap (fst st) c)) buf = (DPanic, k, rest)"
  shows "serve_loop srv env infl now c buf st = (ActPanic, rest, apfst (updCodec (\<lambda>_. k) c) st)"
  by (subst serve_loop.simps) (simp add: assms)

lemma updCodec_twice: "apfst (updCodec (\<lambda>_. k') c) (apfst (updCodec (\<lambda>_. k) c) st) = apfst (updCodec (\<lambda>_. k') c) st"
  by (cases st) (simp add: updCodec_def)

lemma codec_updCodec: "ccodec (heap (fst (apfst (updCodec (\<lambda>_. k) c) st)) c) = k"
  by (cases st) (simp add: updCodec_def)

lemma serve_turn_upd: "serve_turn srv env now c m k' (apfst (updCodec (\<lambda>_. k) c) st) = serve_turn srv env now c m k' st"
  unfolding serve_turn_def updCodec_twice ..

text \<open>A codec that was set in between makes no difference to a call that starts from it.\<close>

lemma serve_loop_upd:
  assumes "decode infl k buf = decode infl (ccodec (heap (fst st) c)) buf'"
  shows "serve_loop srv env infl now c buf (apfst (updCodec (\<lambda>_. k) c) st) = serve_loop srv env infl now c buf' st"
proof -
  obtain d k' rest where d: "decode infl (ccodec (heap (fst st) c)) buf' = (d, k', rest)" by (metis prod_cases3)
  have e: "decode infl (ccodec (heap (fst (apfst (updCodec (\<lambda>_. k) c) st)) c)) buf = (d, k', rest)" using assms d by (simp only: codec_updCodec)
  show ?thesis
  proof (cases d)
    case (DMsg m)
    show ?thesis unfolding serve_loop_msg [OF d [unfolded DMsg]] serve_loop_msg [OF e [unfolded DMsg]] serve_turn_upd ..
  qed (simp_all only: serve_loop.simps [of _ _ _ _ _ buf] serve_loop.simps [of _ _ _ _ _ buf'] d e Let_def prod.case decode_res.case updCodec_twice)
qed

lemma serve_more:
  "serve_loop srv env infl now c buf st = (a, rest, st') \<Longrightarrow> new \<noteq> [] \<Longrightarrow>
   (if a = ActNone then serve_loop srv env infl now c (rest @ new) st' = serve_loop srv env infl now c (buf @ new) st
    else serve_loop srv env infl now c (buf @ new) st = (a, rest @ new, st'))"
proof (induction "length buf" arbitrary: buf st rule: less_induct)
  case less
  obtain d k more where d: "decode infl (ccodec (heap (fst st) c)) buf = (d, k, more)" by (metis prod_cases3)
  show ?case
  proof (cases "d = DShort")
    case True
    have "a = ActNone" "rest = more" "st' = apfst (updCodec (\<lambda>_. k) c) st"
      using less.prems(1) unfolding serve_loop.simps [of _ _ _ _ _ buf] d True by simp_all
    then show ?thesis using serve_loop_upd [OF decode_resume_short [OF d [unfolded True]]] by simp
  next
    case False
    note m = decode_more [OF d False, of new]
    show ?thesis
    proof (cases d)
      case (DMsg b)
      note l = serve_loop_msg [OF d [unfolded DMsg], of srv env now] serve_loop_msg [OF m [unfolded DMsg], of srv env now]
      show ?thesis
      proof (cases "serve_turn srv env now c b k st")
        case (Inl u)
        then show ?thesis using less.prems l by simp
      next
        case (Inr u)
        show ?thesis
        proof (cases "more = []")
          case True
          then show ?thesis using less.prems l Inr by simp
        next
          case ne: False
          have "length more < length buf" using decode_consumes d DMsg by blast
          moreover have "serve_loop srv env infl now c more u = (a, rest, st')" using less.prems(1) l(1) Inr ne by simp
          ultimately show ?thesis using less.hyps [of more u] less.prems(2) l(2) Inr ne by simp
        qed
      qed
    next
      case (DErr code e)
      show ?thesis using less.prems(1) serve_loop_err [OF d [unfolded DErr], of srv env now] serve_loop_err [OF m [unfolded DErr], of srv env now] by auto
    next
      case DPanic
      show ?thesis using less.prems(1) serve_loop_panic [OF d [unfolded DPanic], of srv env now] serve_loop_panic [OF m [unfolded DPanic], of srv env now] by auto
    qed (use False in simp)
  qed
qed


text \<open>The bytes arrive in pieces; gnet keeps what a call leaves in its buffer.\<close>

fun feed :: "('l, 'x) server \<Rightarrow> 'l env \<Rightarrow> (bytes \<Rightarrow> bytes option) \<Rightarrow> int \<Rightarrow> cref \<Rightarrow> bytes list \<Rightarrow> bytes \<Rightarrow> 'l gw \<times> 'x \<Rightarrow>
    action \<times> bytes \<times> 'l gw \<times> 'x" where
  "feed srv env infl now c [] buf st = (ActNone, buf, st)"
| "feed srv env infl now c (x # xs) buf st = (case serve_loop srv env infl now c (buf @ x) st of
     (a, rest, st') \<Rightarrow> if a = ActNone then feed srv env infl now c xs rest st' else (a, rest, st'))"

lemma feed_once:
  assumes "serve_loop srv env infl now c (buf @ concat xs) st = (ActNone, rest, st')" "xs \<noteq> []" "[] \<notin> set xs"
  shows "feed srv env infl now c xs buf st = (ActNone, rest, st')"
  using assms
proof (induction xs arbitrary: buf st)
  case (Cons x xs)
  show ?case
  proof (cases "xs = []")
    case True
    then show ?thesis using Cons.prems by simp
  next
    case False
    obtain a r u where s: "serve_loop srv env infl now c (buf @ x) st = (a, r, u)" by (metis prod_cases3)
    have ne: "concat xs \<noteq> []" using False Cons.prems(3) by (cases xs) auto
    have "a = ActNone" "serve_loop srv env infl now c (r @ concat xs) u = (ActNone, rest, st')"
      using serve_more [OF s ne] Cons.prems(1) by (simp_all split: if_splits)
    then show ?thesis using Cons.IH False Cons.prems(3) s by simp
  qed
qed simp

section \<open>A client's messages\<close>

text \<open>A data message as the client sends it: type, RSV bits, the first fragment with its mask, the others, and what it says.\<close>

record cmsg =
  cmOp :: opcode
  cmRsv :: u8
  cmFirst :: "bytes \<times> bytes"
  cmFrags :: "(bytes \<times> bytes) list"
  cmText :: bytes

definition cm_wire :: "cmsg \<Rightarrow> bytes" where
  "cm_wire x = client_message (cmRsv x) (cmOp x) (fst (cmFirst x)) (snd (cmFirst x)) (cmFrags x)"

definition cm_ok :: "(bytes \<Rightarrow> bytes option) \<Rightarrow> codec \<Rightarrow> cmsg \<Rightarrow> bool" where
  "cm_ok infl r x \<longleftrightarrow> cmOp x \<in> {OpText, OpBinary} \<and> (cmRsv x = 0 \<or> cmRsv x = 4 \<and> IsCompressOnSafe r) \<and> frags_ok (cmFirst x # cmFrags x) \<and>
     (if cmRsv x = 4 then infl (concat (map snd (cmFirst x # cmFrags x))) else Some (concat (map snd (cmFirst x # cmFrags x)))) = Some (cmText x) \<and>
     (cmOp x = OpText \<longrightarrow> utf8_valid (cmText x))"

definition settled :: "codec \<Rightarrow> bool" where
  "settled r \<longleftrightarrow> idle r \<and> messageRsv r = 0"

lemma decode_cmsg:
  assumes "settled r" "cm_ok infl r x"
  shows "\<exists>k. decode infl r (cm_wire x @ rest) = (DMsg (cmText x), k, rest) \<and> currMessageOpCode k = cmOp x \<and> resetCurrMessage k = r"
proof -
  obtain m p where f: "cmFirst x = (m, p)" by fastforce
  let ?k = "r\<lparr>messageRsv := cmRsv x, currMessageOpCode := cmOp x, currMessagePayload := p # map snd (cmFrags x)\<rparr>"
  have x: "cmOp x \<in> {OpText, OpBinary}" "cmRsv x \<in> {0, 4}" "cmRsv x \<noteq> 0 \<longrightarrow> IsCompressOnSafe r" "frags_ok ((m, p) # cmFrags x)"
    using assms(2) by (auto simp: cm_ok_def f)
  have "(if IsCompressOnSafe ?k \<and> messageRsv ?k = 4 then infl (concat (currMessagePayload ?k)) else Some (concat (currMessagePayload ?k))) = Some (cmText x)"
    using assms(2) x(3) by (auto simp: cm_ok_def f IsCompressOnSafe_def)
  then have "finish infl ?k rest = (DMsg (cmText x), ?k, rest)"
    using assms(2) by (intro finish_data [where op = "cmOp x"]) (auto simp: cm_ok_def)
  then have "decode infl r (cm_wire x @ rest) = (DMsg (cmText x), ?k, rest)"
    using decode_message [OF _ x(1,2,3,4)] assms(1) by (simp add: settled_def cm_wire_def f)
  moreover have "resetCurrMessage ?k = r"
    using assms(1) by (simp add: resetCurrMessage_def settled_def idle_def mp_reset_def Let_def)
  ultimately show ?thesis by (intro exI [of _ ?k]) simp
qed

lemma cm_wire_nonempty: "cm_wire x \<noteq> []"
  by (simp add: cm_wire_def client_message_def client_frame_def)

lemma updCodec_id: "f (ccodec (heap s c)) = ccodec (heap s c) \<Longrightarrow> updCodec f c s = s"
  by (cases "heap s c") (simp add: updCodec_def fun_upd_idem)

lemma updCodec_comp: "updCodec f c (updCodec g c s) = updCodec (\<lambda>k. f (g k)) c s"
  by (simp add: updCodec_def)

lemma updCodec_frame:
  "updInfo g c (updCodec f c s) = updCodec f c (updInfo g c s)" "mark i n (updCodec f c s) = updCodec f c (mark i n s)"
  "(updCodec f c s)\<lparr>tasks := ts\<rparr> = updCodec f c (s\<lparr>tasks := ts\<rparr>)" "tasks (updCodec f c s) = tasks s" "inf (updCodec f c s) c = inf s c"
  by (cases "heap s c", simp_all add: updCodec_def updInfo_def mark_def)

text \<open>What the server needs of a message callback: it neither reads nor writes the codec.\<close>

locale codec_blind =
  fixes srv :: "('l, 'x) server"
  assumes message_blind: "srvMessage srv now c op d (updCodec f c s, x) = apfst (updCodec f c) (srvMessage srv now c op d (s, x))"
begin

lemma message_codec: "ccodec (heap (fst (srvMessage srv now c op d st)) c) = ccodec (heap (fst st) c)"
proof -
  obtain s x where st: "st = (s, x)" by fastforce
  let ?r = "ccodec (heap s c)"
  have "updCodec (\<lambda>_. ?r) c s = s" by (simp add: updCodec_def)
  then have "srvMessage srv now c op d (s, x) = apfst (updCodec (\<lambda>_. ?r) c) (srvMessage srv now c op d (s, x))"
    using message_blind [of now c op d "\<lambda>_. ?r" s x] by simp
  then show ?thesis unfolding st by (metis codec_updCodec fst_conv)
qed

lemma turn_message:
  assumes "IsData (currMessageOpCode k)" "resetCurrMessage k = ccodec (heap (fst st) c)"
  shows "serve_turn srv env now c m k st = Inr (srvMessage srv now c (currMessageOpCode k) m st)"
proof -
  obtain s x where st: "st = (s, x)" by fastforce
  obtain s' x' where s': "srvMessage srv now c (currMessageOpCode k) m (s, x) = (s', x')" by fastforce
  have "ccodec (heap s' c) = ccodec (heap s c)" using message_codec [of now c "currMessageOpCode k" m "(s, x)"] s' by simp
  then have "updCodec resetCurrMessage c (updCodec (\<lambda>_. k) c s') = s'"
    using assms(2) updCodec_id [of "\<lambda>_. resetCurrMessage k" s' c] by (simp add: updCodec_comp st)
  then show ?thesis using assms(1) by (simp add: serve_turn_def st message_blind s')
qed

lemma stream_served:
  assumes "settled (ccodec (heap (fst st) c))" "\<forall>x \<in> set ms. cm_ok infl (ccodec (heap (fst st) c)) x" "ms \<noteq> []"
  shows "serve_loop srv env infl now c (concat (map cm_wire ms)) st =
     (ActNone, [], fold (\<lambda>x. srvMessage srv now c (cmOp x) (cmText x)) ms st)"
  using assms
proof (induction ms arbitrary: st)
  case (Cons x ms)
  let ?r = "ccodec (heap (fst st) c)" and ?u = "srvMessage srv now c (cmOp x) (cmText x) st"
  obtain k where k: "decode infl ?r (cm_wire x @ concat (map cm_wire ms)) = (DMsg (cmText x), k, concat (map cm_wire ms))"
    "currMessageOpCode k = cmOp x" "resetCurrMessage k = ?r"
    using decode_cmsg Cons.prems(1,2) by (metis list.set_intros(1))
  have "IsData (cmOp x)" using Cons.prems(2) by (auto simp: cm_ok_def IsData_def op_defs)
  then have t: "serve_turn srv env now c (cmText x) k st = Inr ?u" using turn_message [of k st c env now] k by simp
  have rest: "concat (map cm_wire ms) = [] \<longleftrightarrow> ms = []" using cm_wire_nonempty by (cases ms) auto
  show ?case
  proof (cases "ms = []")
    case True
    then show ?thesis using serve_loop_msg [OF k(1), of srv env now] t by simp
  next
    case False
    have "serve_loop srv env infl now c (concat (map cm_wire ms)) ?u = (ActNone, [], fold (\<lambda>x. srvMessage srv now c (cmOp x) (cmText x)) ms ?u)"
      using Cons.prems False by (intro Cons.IH) (simp_all only: message_codec, simp_all)
    then show ?thesis using serve_loop_msg [OF k(1), of srv env now] t False rest by simp
  qed
qed simp

end

interpretation gateway_cb: codec_blind "gateway_server env sv"
proof
  fix now c op d f x and s :: "'a gw"
  show "srvMessage (gateway_server env sv) now c op d (updCodec f c s, x) = apfst (updCodec f c) (srvMessage (gateway_server env sv) now c op d (s, x))"
    by (simp add: gateway_server_def OnWebsocketMessage_def updCodec_frame Let_def)
qed

interpretation autobahn_cb: codec_blind "autobahn_server"
  by unfold_locales (simp add: autobahn_server_def)


lemma gateway_messages:
  "fold (\<lambda>x. srvMessage (gateway_server env sv) now c (cmOp x) (cmText x)) ms (s, u) = (fold (\<lambda>x. OnWebsocketMessage env now c (cmText x)) ms s, u)"
  by (induction ms arbitrary: s) (simp_all add: gateway_server_def)

lemma autobahn_messages:
  "fold (\<lambda>x. srvMessage autobahn_server now c (cmOp x) (cmText x)) ms (s, ts) = (s, ts @ map (\<lambda>x. (c, cmOp x, cmText x)) ms)"
  by (induction ms arbitrary: ts) (simp_all add: autobahn_server_def)

section \<open>Echoes\<close>

lemma WriteMessage_open:
  assumes "\<not> IsClosedOnSafe (ccodec (heap s c))" "\<not> IsCompressOnSafe (ccodec (heap s c))" "\<forall>n. asyncOk env n"
  shows "heap (snd (WriteMessage env c op d s)) = heap s" "outbox (snd (WriteMessage env c op d s)) = outbox s @ [(c, serverFrame 0 op d)]"
  using assms by (simp_all add: WriteMessage_def WriteTo_def newFrame_def send_counted_def AsyncWriteOnSafe_def mark_def Let_def)

lemma run_echoes:
  assumes "\<forall>t \<in> set ts. fst t = c" "\<not> IsClosedOnSafe (ccodec (heap s c))" "\<not> IsCompressOnSafe (ccodec (heap s c))" "\<forall>n. asyncOk env n"
  shows "outbox (fold (run_echo env) ts s) = outbox s @ map (\<lambda>(c, op, d). (c, serverFrame 0 op d)) ts"
  using assms
proof (induction ts arbitrary: s)
  case (Cons t ts)
  obtain op d where t: "t = (c, op, d)" using Cons.prems(1) by (cases t) auto
  note w = WriteMessage_open [OF Cons.prems(2,3,4), of op d]
  have e: "run_echo env t s = snd (WriteMessage env c op d s)" by (simp add: run_echo_def t)
  have "outbox (fold (run_echo env) ts (run_echo env t s)) = outbox (run_echo env t s) @ map (\<lambda>(c, op, d). (c, serverFrame 0 op d)) ts"
    using Cons.prems w(1) by (intro Cons.IH) (simp_all add: e)
  then show ?case using w(2) e by (simp add: t)
qed simp

section \<open>Properties\<close>

text \<open>
  C11. The gateway handles a client's messages one by one, in their order, however their bytes arrive: when an upgraded connection sends any data
  messages, each in any number of fragments, compressed or not, and the bytes are cut into any reads, the handler waits for more after each read,
  leaves nothing in the buffer at the end, and has called \<^verbatim>\<open>OnWebsocketMessage\<close> with the contents of the messages.
\<close>

theorem client_stream_served:
  assumes "isUpgraded (ccodec (heap s c))" "settled (ccodec (heap s c))" "\<forall>x \<in> set ms. cm_ok (inflate sv) (ccodec (heap s c)) x" "ms \<noteq> []"
    and "concat xs = concat (map cm_wire ms)" "[] \<notin> set xs"
  shows "OnTraffic env sv ev c (concat xs) s = (ActNone, [], fold (\<lambda>x. OnWebsocketMessage env (evNow ev) c (cmText x)) ms s) \<and>
     feed (gateway_server env sv) env (inflate sv) (evNow ev) c xs [] (s, ()) =
       (ActNone, [], fold (\<lambda>x. OnWebsocketMessage env (evNow ev) c (cmText x)) ms s, ())"
proof -
  have l: "serve_loop (gateway_server env sv) env (inflate sv) (evNow ev) c (concat xs) (s, ()) =
      (ActNone, [], fold (\<lambda>x. OnWebsocketMessage env (evNow ev) c (cmText x)) ms s, ())"
    using gateway_cb.stream_served [of "(s, ())" c ms "inflate sv" env sv env "evNow ev"] assms(2-5) by (simp add: gateway_messages)
  have "xs \<noteq> []" using assms(4,5) cm_wire_nonempty by (cases ms) auto
  then have "feed (gateway_server env sv) env (inflate sv) (evNow ev) c xs [] (s, ()) =
      (ActNone, [], fold (\<lambda>x. OnWebsocketMessage env (evNow ev) c (cmText x)) ms s, ())"
    using feed_once [of "gateway_server env sv" env "inflate sv" "evNow ev" c "[]" xs] l assms(6) by simp
  moreover have "OnTraffic env sv ev c (concat xs) s = (ActNone, [], fold (\<lambda>x. OnWebsocketMessage env (evNow ev) c (cmText x)) ms s)"
    using l assms(1) by (simp add: loop_gateway OnTraffic_def split: prod.splits)
  ultimately show ?thesis by blast
qed

text \<open>
  The Autobahn server echoes: the same streams leave one task for each message, with its type and contents, and nothing else changes;
  when the tasks have run, in whatever order the goroutine pool takes them, an open uncompressed connection has been sent exactly the frames of the messages, in
  that order.
\<close>

theorem autobahn_echoes:
  assumes "settled (ccodec (heap s c))" "\<forall>x \<in> set ms. cm_ok infl (ccodec (heap s c)) x" "ms \<noteq> []"
    and "concat xs = concat (map cm_wire ms)" "[] \<notin> set xs"
    and "\<not> IsClosedOnSafe (ccodec (heap s c))" "\<not> IsCompressOnSafe (ccodec (heap s c))" "\<forall>n. asyncOk env n"
    and ts: "mset ts = mset (map (\<lambda>x. (c, cmOp x, cmText x)) ms)"
  shows "feed autobahn_server env infl now c xs [] (s, []) = (ActNone, [], s, map (\<lambda>x. (c, cmOp x, cmText x)) ms) \<and>
     outbox (fold (run_echo env) ts s) = outbox s @ map (\<lambda>(c, op, d). (c, serverFrame 0 op d)) ts"
proof -
  have "serve_loop autobahn_server env infl now c (concat xs) (s, []) = (ActNone, [], fold (\<lambda>x. srvMessage autobahn_server now c (cmOp x) (cmText x)) ms (s, []))"
    unfolding assms(4) by (rule autobahn_cb.stream_served) (use assms(1-3) in simp_all)
  then have l: "serve_loop autobahn_server env infl now c ([] @ concat xs) (s, []) = (ActNone, [], s, map (\<lambda>x. (c, cmOp x, cmText x)) ms)"
    by (simp add: autobahn_messages)
  have "xs \<noteq> []" using assms(3,4) cm_wire_nonempty by (cases ms) auto
  then have "feed autobahn_server env infl now c xs [] (s, []) = (ActNone, [], s, map (\<lambda>x. (c, cmOp x, cmText x)) ms)"
    using feed_once [OF l] assms(5) by simp
  moreover have "\<forall>t \<in> set ts. fst t = c" using arg_cong [OF ts, of set_mset] by auto
  ultimately show ?thesis using run_echoes [OF _ assms(6,7,8)] by blast
qed

section \<open>Witnesses\<close>

definition sample_cmsg :: cmsg where
  "sample_cmsg = \<lparr>cmOp = OpBinary, cmRsv = 0, cmFirst = ([1, 2, 3, 4], [104]), cmFrags = [], cmText = [104]\<rparr>"

lemma sample_cmsg_ok: "cm_ok infl r sample_cmsg"
  by (simp add: cm_ok_def sample_cmsg_def frags_ok_def op_defs)

lemma sample_reads:
  "concat [take 3 (cm_wire sample_cmsg), drop 3 (cm_wire sample_cmsg)] = concat (map cm_wire [sample_cmsg])"
  "[] \<notin> set [take 3 (cm_wire sample_cmsg), drop 3 (cm_wire sample_cmsg)]"
proof -
  have "3 < length (cm_wire sample_cmsg)" by (simp add: cm_wire_def sample_cmsg_def client_message_def client_frame_def)
  then show "[] \<notin> set [take 3 (cm_wire sample_cmsg), drop 3 (cm_wire sample_cmsg)]" by auto
qed simp

lemma sample_codec:
  "isUpgraded (ccodec (heap sample_start 0))" "settled (ccodec (heap sample_start 0))" "\<not> IsClosedOnSafe (ccodec (heap sample_start 0))"
  "\<not> IsCompressOnSafe (ccodec (heap sample_start 0))"
  using sample_start_up [of 0]
  by (simp_all add: settled_def idle_def setUpgraded_def newCodec_def isUpgraded_def IsClosedOnSafe_def IsCompressOnSafe_def newMessagePayload_def)

theorem client_stream_served_witness:
  "fst (feed (gateway_server sample_env sample_srv) sample_env (inflate sample_srv) 5 0
     [take 3 (cm_wire sample_cmsg), drop 3 (cm_wire sample_cmsg)] [] (sample_start, ())) = ActNone"
  using client_stream_served [OF sample_codec(1,2) _ _ sample_reads, of sample_srv sample_env sample_circ] sample_cmsg_ok
  by (simp add: sample_circ_def)

theorem autobahn_echoes_witness:
  "outbox (fold (run_echo sample_env) [(0, OpBinary, [104])] sample_start) = outbox sample_start @ [(0, serverFrame 0 OpBinary [104])]"
  using autobahn_echoes [OF sample_codec(2) _ _ sample_reads sample_codec(3,4), where env = sample_env and ts = "[(0, OpBinary, [104])]" and infl = Some]
    sample_cmsg_ok by (simp add: sample_env_def sample_cmsg_def)

end
