(* ===== verification/Lifecycle.thy ===== *)
theory Lifecycle
  imports RedisManager AmqpManager
begin

text \<open>
  The life of the process: the stop signal of \<^verbatim>\<open>src/pkg/quit/quit.go\<close>, the log writer of \<^verbatim>\<open>src/pkg/log/log.go\<close>, the accept loops
  of \<^verbatim>\<open>src/internal/worker/tcp.go\<close> and \<^verbatim>\<open>src/internal/task/tcp.go\<close>, and \<^verbatim>\<open>main\<close> in \<^verbatim>\<open>src/cmd/netsvr.go\<close>, which
  starts and stops the rest. Every goroutine is a set of steps of one transition system over the state of the process.
\<close>

section \<open>The stop signal\<close>

text \<open>\<^verbatim>\<open>ClosedCh\<close> is closed, the reason, and whether \<^verbatim>\<open>Ctx\<close> is cancelled.\<close>

record quitst =
  qClosed :: bool
  qReason :: string
  qCancelled :: bool

definition quit_init :: quitst where "quit_init = \<lparr>qClosed = False, qReason = '''', qCancelled = False\<rparr>"

definition Execute :: "string \<Rightarrow> quitst \<Rightarrow> quitst" where
  "Execute reason q = (if qClosed q then q else q\<lparr>qReason := reason, qClosed := True\<rparr>)"

definition GetReason :: "quitst \<Rightarrow> string" where "GetReason q = qReason q"

datatype signal = SIGHUP | SIGINT | SIGQUIT | SIGTERM

fun signalNo :: "signal \<Rightarrow> nat" where
  "signalNo SIGHUP = 1" | "signalNo SIGINT = 2" | "signalNo SIGQUIT = 3" | "signalNo SIGTERM = 15"

fun signalName :: "signal \<Rightarrow> string" where
  "signalName SIGHUP = ''hangup''" | "signalName SIGINT = ''interrupt''" | "signalName SIGQUIT = ''quit''" | "signalName SIGTERM = ''terminated''"

definition on_signal :: "signal \<Rightarrow> quitst \<Rightarrow> quitst" where
  "on_signal s q = (if s = SIGHUP then q else Execute (''receive signal('' @ decimal (signalNo s) @ '' '' @ signalName s @ '')'') q)"

text \<open>The first reason stays, and the channel is closed once.\<close>

lemma Execute_closed [simp]: "qClosed (Execute r q)" "qClosed q \<Longrightarrow> Execute r q = q" "qCancelled (Execute r q) = qCancelled q"
  by (simp_all add: Execute_def)

lemma on_signal_mono [simp]: "qClosed q \<Longrightarrow> on_signal s q = q" "qCancelled (on_signal s q) = qCancelled q"
  by (simp_all add: on_signal_def)

lemma first_reason: "GetReason (fold Execute (r # rs) quit_init) = r"
proof -
  have "fold Execute rs q = q" if "qClosed q" for q using that by (induction rs) simp_all
  then show ?thesis by (simp add: GetReason_def Execute_def quit_init_def)
qed

section \<open>The log writer\<close>

text \<open>
  The goroutine of \<^verbatim>\<open>NewAsyncWriter\<close>: it polls; after the cancellation it empties the channel in three rounds, taking in each
  as many buffers as are waiting at its begin and sleeping at its end. \<open>wOut\<close> is what it has handed to the log file.
\<close>

datatype wphase = LogPoll | LogDrain nat nat | LogSleep nat | LogEnd

record writer =
  wCh :: "string list"
  wOut :: "string list"
  wPhase :: wphase

definition logChCap :: nat where "logChCap = 1024"

definition NewAsyncWriter :: writer where "NewAsyncWriter = \<lparr>wCh = [], wOut = [], wPhase = LogPoll\<rparr>"

definition AsyncWriter_Write :: "string \<Rightarrow> writer \<Rightarrow> (string + nat) \<times> writer" where
  "AsyncWriter_Write p w =
     (if length (wCh w) < logChCap then (Inr (length p), w\<lparr>wCh := wCh w @ [p]\<rparr>) else (Inl ''log buffer full'', w))"

definition take_buf :: "writer \<Rightarrow> writer" where
  "take_buf w = (case wCh w of [] \<Rightarrow> w | b # bs \<Rightarrow> w\<lparr>wCh := bs, wOut := wOut w @ [b]\<rparr>)"

text \<open>
  One step of the goroutine, \<open>None\<close> while it has to wait; \<^verbatim>\<open>select\<close> may take either case when both are ready, which \<open>quitFirst\<close> decides.
\<close>

definition writer_step :: "bool \<Rightarrow> bool \<Rightarrow> writer \<Rightarrow> writer option" where
  "writer_step quitFirst cancelled w = (case wPhase w of
      LogPoll \<Rightarrow>
        if cancelled \<and> (quitFirst \<or> wCh w = []) then Some (w\<lparr>wPhase := LogDrain 3 (length (wCh w))\<rparr>)
        else if wCh w = [] then None
        else Some (take_buf w)
    | LogDrain i n \<Rightarrow>
        if n > 0 then (if wCh w = [] then None else Some ((take_buf w)\<lparr>wPhase := LogDrain i (n - 1)\<rparr>))
        else Some (w\<lparr>wPhase := LogSleep i\<rparr>)
    | LogSleep i \<Rightarrow>
        if i > 1 then Some (w\<lparr>wPhase := LogDrain (i - 1) (length (wCh w))\<rparr>) else Some (w\<lparr>wPhase := LogEnd\<rparr>)
    | LogEnd \<Rightarrow> None)"

text \<open>\<^verbatim>\<open>New\<close>: the console, a file, or a file behind the writer; \<^verbatim>\<open>Level\<close> drops what is below the level.\<close>

datatype log_sink = Console "string list" | File "string list" | Async writer

record logger =
  lgLevel :: level
  lgSink :: log_sink

definition log_New :: "level \<Rightarrow> string \<Rightarrow> bool \<Rightarrow> logger" where
  "log_New lvl filename async =
     \<lparr>lgLevel = lvl, lgSink = (if filename = '''' then Console [] else if async then Async NewAsyncWriter else File [])\<rparr>"

definition log_init :: "(string \<Rightarrow> string) \<Rightarrow> config \<Rightarrow> logger option" where
  "log_init joinRoot cf = map_option (\<lambda>f. log_New (GetLogLevel cf) f True) (GetLogFile joinRoot cf)"

fun levelNo :: "level \<Rightarrow> nat" where
  "levelNo DebugLevel = 0" | "levelNo InfoLevel = 1" | "levelNo WarnLevel = 2" | "levelNo ErrorLevel = 3"

definition emit :: "level \<Rightarrow> string \<Rightarrow> logger \<Rightarrow> logger" where
  "emit lvl line lg =
     (if levelNo lvl < levelNo (lgLevel lg) then lg
      else lg\<lparr>lgSink := (case lgSink lg of
        Console xs \<Rightarrow> Console (xs @ [line]) | File xs \<Rightarrow> File (xs @ [line]) | Async w \<Rightarrow> Async (snd (AsyncWriter_Write line w)))\<rparr>)"

definition log_out :: "logger \<Rightarrow> string list" where
  "log_out lg = (case lgSink lg of Console xs \<Rightarrow> xs | File xs \<Rightarrow> xs | Async w \<Rightarrow> wOut w)"

text \<open>\<^verbatim>\<open>Wg\<close>: only the writer's goroutine is ever added to it.\<close>

definition wg_zero :: "logger \<Rightarrow> bool" where
  "wg_zero lg = (case lgSink lg of Async w \<Rightarrow> wPhase w = LogEnd | _ \<Rightarrow> True)"

subsection \<open>Lines are neither reordered nor lost while the writer lives\<close>

text \<open>
  Runs of the writer with all who log: the lines that were accepted, and those of them that were accepted before the cancellation, if it
  has come.
\<close>

inductive log_run :: "writer \<Rightarrow> string list \<Rightarrow> string list option \<Rightarrow> bool" where
  start: "log_run NewAsyncWriter [] None"
| accept: "log_run w ls c \<Longrightarrow> AsyncWriter_Write p w = (Inr n, w') \<Longrightarrow> log_run w' (ls @ [p]) c"
| full: "log_run w ls c \<Longrightarrow> AsyncWriter_Write p w = (Inl e, w') \<Longrightarrow> log_run w' ls c"
| cancel: "log_run w ls None \<Longrightarrow> log_run w ls (Some ls)"
| writer: "log_run w ls c \<Longrightarrow> writer_step quitFirst (c \<noteq> None) w = Some w' \<Longrightarrow> log_run w' ls c"

lemma take_buf_out: "wOut (take_buf w) @ wCh (take_buf w) = wOut w @ wCh w" "wPhase (take_buf w) = wPhase w"
  "length (wCh (take_buf w)) = length (wCh w) - 1"
  by (simp_all add: take_buf_def split: list.split)

lemma take_buf_step: "wCh w \<noteq> [] \<Longrightarrow> length (wOut (take_buf w)) = Suc (length (wOut w))"
  by (simp add: take_buf_def split: list.split)

lemma writer_step_keeps: "writer_step quitFirst cancelled w = Some w' \<Longrightarrow> wOut w' @ wCh w' = wOut w @ wCh w"
  by (auto simp: writer_step_def take_buf_out split: wphase.splits if_splits)

lemma log_run_fifo: "log_run w ls c \<Longrightarrow> wOut w @ wCh w = ls"
  by (induction rule: log_run.induct) (auto simp: AsyncWriter_Write_def NewAsyncWriter_def writer_step_keeps split: if_splits)

text \<open>The invariant behind draining: a round takes only what is there, and reaches beyond the lines of before the cancellation.\<close>

definition covers :: "writer \<Rightarrow> string list option \<Rightarrow> bool" where
  "covers w c \<longleftrightarrow> (case wPhase w of
      LogPoll \<Rightarrow> True
    | LogDrain i n \<Rightarrow> n \<le> length (wCh w) \<and> (\<exists>cs. c = Some cs \<and> length cs \<le> length (wOut w) + n)
    | _ \<Rightarrow> (\<exists>cs. c = Some cs \<and> length cs \<le> length (wOut w)))"

lemma covers_step:
  assumes "covers w c" "writer_step quitFirst (c \<noteq> None) w = Some w'" "\<And>cs. c = Some cs \<Longrightarrow> length cs \<le> length (wOut w) + length (wCh w)"
  shows "covers w' c"
  using assms take_buf_out(3) [of w] take_buf_step [of w]
  by (auto simp: covers_def writer_step_def take_buf_out(2) split: wphase.splits if_splits)

lemma log_run_covers: "log_run w ls c \<Longrightarrow> covers w c \<and> (\<forall>cs. c = Some cs \<longrightarrow> (\<exists>ys. ls = cs @ ys))"
proof (induction rule: log_run.induct)
  case (writer w ls c quitFirst w')
  then have "length cs \<le> length (wOut w) + length (wCh w)" if "c = Some cs" for cs
    using that log_run_fifo [of w ls c] by (metis length_append le_add1)
  then show ?case using covers_step [of w c quitFirst w'] writer by blast
next
  case (cancel w ls)
  then show ?case by (auto simp: covers_def split: wphase.splits)
qed (auto simp: covers_def AsyncWriter_Write_def NewAsyncWriter_def split: wphase.splits if_splits)

lemma log_run_bound: "log_run w ls c \<Longrightarrow> length (wCh w) \<le> logChCap"
proof (induction rule: log_run.induct)
  case (writer w ls c quitFirst w')
  then show ?case using take_buf_out(3) [of w] by (auto simp: writer_step_def split: wphase.splits if_splits)
qed (auto simp: AsyncWriter_Write_def NewAsyncWriter_def split: if_splits)

text \<open>
  C23. The asynchronous log. What is written to the file is at every moment a prefix of the lines that were accepted, in their order; at most 1024
  lines wait, a line is refused only when so many wait; when the goroutine ends, every line that was accepted before the cancellation is in the
  file; and after the cancellation the goroutine never gets stuck before its end.
\<close>

theorem log_writer_complete:
  assumes "log_run w ls c"
  shows "(\<exists>ys. ls = wOut w @ ys) \<and> length (wCh w) \<le> 1024 \<and>
    (wPhase w = LogEnd \<longrightarrow> (\<exists>cs ys. c = Some cs \<and> wOut w = cs @ ys)) \<and>
    (c \<noteq> None \<and> wPhase w \<noteq> LogEnd \<longrightarrow> writer_step quitFirst True w \<noteq> None)"
proof (intro conjI impI)
  note f = log_run_fifo [OF assms] and v = log_run_covers [OF assms]
  show "\<exists>ys. ls = wOut w @ ys" using f by blast
  show "length (wCh w) \<le> 1024" using log_run_bound [OF assms] by (simp add: logChCap_def)
  show "\<exists>cs ys. c = Some cs \<and> wOut w = cs @ ys" if e: "wPhase w = LogEnd"
  proof -
    obtain cs where cs: "c = Some cs" "length cs \<le> length (wOut w)" using v by (auto simp: covers_def e)
    then obtain ys where "ls = cs @ ys" using v by blast
    then have "cs @ ys = wOut w @ wCh w" using f by simp
    then have "\<exists>us. wOut w = cs @ us" using cs(2) by (auto simp: append_eq_append_conv2 intro: sym)
    then show ?thesis using cs(1) by blast
  qed
  show "writer_step quitFirst True w \<noteq> None" if "c \<noteq> None \<and> wPhase w \<noteq> LogEnd"
    using that v by (auto simp: writer_step_def covers_def split: wphase.splits)
qed

definition sample_writer :: writer where
  "sample_writer = snd (AsyncWriter_Write ''a'' NewAsyncWriter)"

lemma sample_log_run: "log_run sample_writer [''a''] (Some [''a''])"
proof -
  have "AsyncWriter_Write ''a'' NewAsyncWriter = (Inr 1, sample_writer)"
    by (simp add: sample_writer_def AsyncWriter_Write_def NewAsyncWriter_def logChCap_def)
  then have "log_run sample_writer ([] @ [''a'']) None" by (rule log_run.accept [OF log_run.start])
  then show ?thesis using log_run.cancel by simp
qed

theorem log_writer_complete_witness: "writer_step False True sample_writer \<noteq> None"
  using log_writer_complete [OF sample_log_run, of False]
  by (simp add: sample_writer_def AsyncWriter_Write_def NewAsyncWriter_def logChCap_def)

section \<open>The accept loops\<close>

text \<open>What \<^verbatim>\<open>Accept\<close> returns, and a listener with its loop: the goroutines started, the connections closed at once, the naps in milliseconds.\<close>

datatype 'c accepted = Accepted 'c | Temporary | Permanent

record ('c, 'p) listener =
  liClosed :: bool
  liServed :: "'p list"
  liRefused :: "'c list"
  liSlept :: "nat list"
  liDelay :: nat
  liReturned :: bool

definition new_listener :: "('c, 'p) listener" where
  "new_listener = \<lparr>liClosed = False, liServed = [], liRefused = [], liSlept = [], liDelay = 0, liReturned = False\<rparr>"

definition nextDelay :: "nat \<Rightarrow> nat" where
  "nextDelay tempDelay = (let d = (if tempDelay = 0 then 5 else tempDelay * 2) in if d > 1000 then 1000 else d)"

text \<open>One turn of the loop; \<open>quitting\<close> is the state of \<^verbatim>\<open>ClosedCh\<close> at that time.\<close>

definition worker_accept :: "('c \<Rightarrow> string) \<Rightarrow> bool \<Rightarrow> 'c accepted \<Rightarrow> ('c, wconn) listener \<Rightarrow> ('c, wconn) listener" where
  "worker_accept connId quitting a l =
     (if liReturned l then l else case a of
        Accepted c \<Rightarrow> if quitting then l\<lparr>liRefused := liRefused l @ [c]\<rparr> else l\<lparr>liServed := liServed l @ [newConn (connId c)]\<rparr>
      | Temporary \<Rightarrow> if quitting then l\<lparr>liReturned := True\<rparr>
                    else let d = nextDelay (liDelay l) in l\<lparr>liDelay := d, liSlept := liSlept l @ [d]\<rparr>
      | Permanent \<Rightarrow> l\<lparr>liReturned := True\<rparr>)"

definition task_accept :: "bool \<Rightarrow> 'c accepted \<Rightarrow> ('c, 'c) listener \<Rightarrow> ('c, 'c) listener" where
  "task_accept quitting a l =
     (if liReturned l then l else case a of
        Accepted c \<Rightarrow> if quitting then l\<lparr>liRefused := liRefused l @ [c]\<rparr> else l\<lparr>liServed := liServed l @ [c]\<rparr>
      | Temporary \<Rightarrow> if quitting then l\<lparr>liReturned := True\<rparr>
                    else let d = nextDelay (liDelay l) in l\<lparr>liDelay := d, liSlept := liSlept l @ [d]\<rparr>
      | Permanent \<Rightarrow> l\<lparr>liReturned := True\<rparr>)"

text \<open>The turns that end a loop, and those before the end.\<close>

definition stops :: "bool \<times> 'c accepted \<Rightarrow> bool" where
  "stops x = (case x of (_, Accepted _) \<Rightarrow> False | (quitting, Temporary) \<Rightarrow> quitting | (_, Permanent) \<Rightarrow> True)"

definition until_stop :: "(bool \<times> 'c accepted) list \<Rightarrow> (bool \<times> 'c accepted) list" where
  "until_stop = takeWhile (\<lambda>x. \<not> stops x)"

fun conn_when :: "bool \<Rightarrow> bool \<times> 'c accepted \<Rightarrow> 'c option" where
  "conn_when b (quitting, Accepted c) = (if quitting = b then Some c else None)"
| "conn_when b _ = None"

definition conns_when :: "bool \<Rightarrow> (bool \<times> 'c accepted) list \<Rightarrow> 'c list" where
  "conns_when b xs = List.map_filter (conn_when b) xs"

definition naps :: "(bool \<times> 'c accepted) list \<Rightarrow> nat" where
  "naps xs = length (filter (\<lambda>x. snd x = Temporary) xs)"

definition nap :: "nat \<Rightarrow> nat" where "nap i = min 1000 (5 * 2 ^ i)"

lemma nextDelay_nap: "nextDelay (if k = 0 then 0 else nap (k - 1)) = nap k"
proof (cases k)
  case (Suc j)
  have "(2 :: nat) ^ j > 0" by simp
  then show ?thesis unfolding Suc by (simp add: nextDelay_def nap_def Let_def min_def)
qed (simp add: nextDelay_def nap_def)

text \<open>What both loops do.\<close>

locale accept_loop =
  fixes turn :: "bool \<Rightarrow> 'c accepted \<Rightarrow> ('c, 'p) listener \<Rightarrow> ('c, 'p) listener" and serve :: "'c \<Rightarrow> 'p"
  assumes ended: "liReturned l \<Longrightarrow> turn b a l = l"
    and conn: "\<not> liReturned l \<Longrightarrow> turn b (Accepted c) l =
      (if b then l\<lparr>liRefused := liRefused l @ [c]\<rparr> else l\<lparr>liServed := liServed l @ [serve c]\<rparr>)"
    and retry: "\<not> liReturned l \<Longrightarrow> turn False Temporary l = l\<lparr>liDelay := nextDelay (liDelay l), liSlept := liSlept l @ [nextDelay (liDelay l)]\<rparr>"
    and leave: "\<not> liReturned l \<Longrightarrow> b \<or> a = Permanent \<Longrightarrow> a = Temporary \<or> a = Permanent \<Longrightarrow> turn b a l = l\<lparr>liReturned := True\<rparr>"
begin

definition turns :: "(bool \<times> 'c accepted) list \<Rightarrow> ('c, 'p) listener \<Rightarrow> ('c, 'p) listener" where
  "turns = fold (\<lambda>(b, a). turn b a)"

lemma stop_turn: "\<not> liReturned l \<Longrightarrow> stops (b, a) \<Longrightarrow> turn b a l = l\<lparr>liReturned := True\<rparr>"
  by (cases a) (simp_all add: stops_def leave)

lemma turns_Cons [simp]: "turns ((b, a) # es) l = turns es (turn b a l)"
  by (simp add: turns_def)

lemma turns_ended: "liReturned l \<Longrightarrow> turns es l = l"
  by (induction es) (auto simp: turns_def ended)

definition follows :: "nat \<Rightarrow> ('c, 'p) listener \<Rightarrow> bool" where
  "follows k l \<longleftrightarrow> \<not> liReturned l \<and> liDelay l = (if k = 0 then 0 else nap (k - 1)) \<and> liSlept l = map nap [0 ..< k]"

lemma turns_spec:
  "follows k l \<Longrightarrow> liServed (turns es l) = liServed l @ map serve (conns_when False (until_stop es)) \<and>
     liRefused (turns es l) = liRefused l @ conns_when True (until_stop es) \<and>
     liSlept (turns es l) = map nap [0 ..< k + naps (until_stop es)] \<and>
     (liReturned (turns es l) \<longleftrightarrow> list_ex stops es)"
proof (induction es arbitrary: k l)
  case Nil
  then show ?case by (simp add: turns_def follows_def until_stop_def conns_when_def naps_def List.map_filter_simps)
next
  case (Cons x es)
  obtain b a where x: "x = (b, a)" by (cases x)
  have open': "\<not> liReturned l" using Cons.prems by (simp add: follows_def)
  show ?case
  proof (cases "stops x")
    case True
    then show ?thesis using stop_turn [OF open'] turns_ended [of "l\<lparr>liReturned := True\<rparr>" es] Cons.prems unfolding x
      by (simp add: until_stop_def conns_when_def naps_def List.map_filter_simps follows_def)
  next
    case False
    then have e: "until_stop (x # es) = x # until_stop es" by (simp add: until_stop_def)
    show ?thesis
    proof (cases a)
      case (Accepted c)
      have "follows k (turn b a l)" using Cons.prems open' by (simp add: Accepted conn follows_def)
      from Cons.IH [OF this] show ?thesis using open' False e unfolding x Accepted
        by (cases b) (simp_all add: conn conns_when_def naps_def List.map_filter_simps)
    next
      case Temporary
      then have b: "b = False" using False by (simp add: x stops_def)
      have "follows (Suc k) (turn b a l)" using Cons.prems open' nextDelay_nap [of k] by (simp add: Temporary b retry follows_def)
      from Cons.IH [OF this] show ?thesis using open' False e unfolding x Temporary b
        by (simp add: retry conns_when_def naps_def List.map_filter_simps)
    next
      case Permanent
      then show ?thesis using False by (simp add: x stops_def)
    qed
  qed
qed

lemma turns_new:
  "liServed (turns es new_listener) = map serve (conns_when False (until_stop es))"
  "liRefused (turns es new_listener) = conns_when True (until_stop es)"
  "liSlept (turns es new_listener) = map nap [0 ..< naps (until_stop es)]"
  "liReturned (turns es new_listener) \<longleftrightarrow> list_ex stops es"
  using turns_spec [of 0 new_listener es] by (simp_all add: follows_def new_listener_def)

end

interpretation worker_loop: accept_loop "worker_accept connId" "\<lambda>c. newConn (connId c)" for connId
  by unfold_locales (auto simp: worker_accept_def Let_def)

interpretation task_loop: accept_loop task_accept "\<lambda>c. c"
  by unfold_locales (auto simp: task_accept_def Let_def)

text \<open>
  The accept loops of business connections and of tasks. Whatever \<^verbatim>\<open>Accept\<close> returns and whenever the process is stopped: up to
  the turn that ends the loop (a permanent error, or any error after the stop signal) a connection accepted before the stop signal gets its goroutine, one
  accepted later is closed at once, in their order, and none is dropped; the nap after the \<open>i\<close>-th temporary error is
  \<open>min 1000 (5 * 2 ^ i)\<close> milliseconds, counted from the start of the loop, as a success between does not reset it.
\<close>

theorem accept_loops:
  "(let w = fold (\<lambda>(b, a). worker_accept connId b a) es new_listener
    in liServed w = map (\<lambda>c. newConn (connId c)) (conns_when False (until_stop es)) \<and> liRefused w = conns_when True (until_stop es) \<and>
       liSlept w = map nap [0 ..< naps (until_stop es)] \<and> (liReturned w \<longleftrightarrow> list_ex stops es)) \<and>
   (let t = fold (\<lambda>(b, a). task_accept b a) es new_listener
    in liServed t = conns_when False (until_stop es) \<and> liRefused t = conns_when True (until_stop es) \<and>
       liSlept t = map nap [0 ..< naps (until_stop es)] \<and> (liReturned t \<longleftrightarrow> list_ex stops es))"
  unfolding Let_def worker_loop.turns_def [symmetric] task_loop.turns_def [symmetric] worker_loop.turns_new task_loop.turns_new by simp

end
