(* ===== verification/MainProcess.thy ===== *)
theory MainProcess
  imports Lifecycle
begin

text \<open>
  \<^verbatim>\<open>main\<close> of \<^verbatim>\<open>src/cmd/netsvr.go\<close> with everything it starts and stops: the Redis and AMQP queues, the customer, business and task
  servers, and the log. The theorems are about stopping: what is closed at a clean exit, which log lines are lost, and how \<^verbatim>\<open>main\<close> can panic.
\<close>

section \<open>The process\<close>

text \<open>How it ended: \<^verbatim>\<open>os.Exit\<close>, a panic, or a queue that could not be started (an exit or a panic inside \<^verbatim>\<open>Start\<close> of the queues).\<close>

datatype exit = Exited nat | Panicked | QueueFailed

text \<open>Where \<^verbatim>\<open>main\<close> is.\<close>

datatype mpc = MStart | MSelect | MWait | MWorker | MRedis | MAmqp | MTask | MCustomer | MFinish

record 'c proc =
  pQuit :: quitst
  pLog :: logger
  pMain :: mpc
  pRedis :: "rmanager option"
  pAmqp :: "amanager option"
  pWorkerGo :: bool
  pTaskGo :: bool
  pCustomerGo :: bool
  pWorker :: "('c, wconn) listener option"
  pTask :: "('c, 'c) listener option"
  pCustomer :: "bool option"
  pTimer :: bool
  pExit :: "exit option"

record penv =
  peConfig :: config
  pePing :: "rclient \<Rightarrow> bool"
  peBroker :: broker

definition proc_init :: "logger \<Rightarrow> 'c proc" where
  "proc_init lg = \<lparr>pQuit = quit_init, pLog = lg, pMain = MStart, pRedis = None, pAmqp = None, pWorkerGo = False, pTaskGo = False,
     pCustomerGo = False, pWorker = None, pTask = None, pCustomer = None, pTimer = False, pExit = None\<rparr>"

definition logs :: "level \<Rightarrow> string \<Rightarrow> 'c proc \<Rightarrow> 'c proc" where
  "logs lvl line p = p\<lparr>pLog := emit lvl line (pLog p)\<rparr>"

text \<open>What gnet logs: its debug lines are dropped, \<^verbatim>\<open>Fatalf\<close> ends the process.\<close>

datatype gnet_log = Debugf | Infof | Warnf | Errorf | Fatalf

definition loggingSubstitute :: "gnet_log \<Rightarrow> string \<Rightarrow> 'c proc \<Rightarrow> 'c proc" where
  "loggingSubstitute f line p = (case f of
      Debugf \<Rightarrow> p
    | Infof \<Rightarrow> logs InfoLevel line p
    | Warnf \<Rightarrow> logs WarnLevel line p
    | Errorf \<Rightarrow> logs ErrorLevel line p
    | Fatalf \<Rightarrow> (logs ErrorLevel line p)\<lparr>pExit := Some (Exited 1)\<rparr>)"

subsection \<open>Start and Shutdown of the three servers\<close>

text \<open>\<open>ok\<close> is the outcome of \<^verbatim>\<open>net.Listen\<close>, of closing the listener, of \<^verbatim>\<open>gnet.Run\<close> or of stopping the engine.\<close>

definition worker_Start :: "config \<Rightarrow> bool \<Rightarrow> 'c proc \<Rightarrow> 'c proc" where
  "worker_Start cf ok p =
     (if cfListenAddress (cfWorker cf) = '''' then p
      else if \<not> ok then (logs ErrorLevel ''Worker tcp start failed'' p)\<lparr>pExit := Some (Exited 1)\<rparr>
      else logs InfoLevel (''Worker tcp start tcp://'' @ cfListenAddress (cfWorker cf)) (p\<lparr>pWorker := Some new_listener\<rparr>))"

definition worker_Shutdown :: "config \<Rightarrow> bool \<Rightarrow> 'c proc \<Rightarrow> 'c proc" where
  "worker_Shutdown cf ok p =
     (if cfListenAddress (cfWorker cf) = '''' then p
      else case pWorker p of
        None \<Rightarrow> p
      | Some l \<Rightarrow> logs (if ok then InfoLevel else ErrorLevel) (if ok then ''Worker tcp shutdown'' else ''Worker tcp shutdown failed'')
          (p\<lparr>pWorker := Some (l\<lparr>liClosed := True\<rparr>)\<rparr>))"

definition task_Start :: "config \<Rightarrow> bool \<Rightarrow> 'c proc \<Rightarrow> 'c proc" where
  "task_Start cf ok p =
     (if \<not> ok then (logs ErrorLevel ''Task tcp start failed'' p)\<lparr>pExit := Some (Exited 1)\<rparr>
      else logs InfoLevel (''Task tcp start tcp://'' @ cfListenAddress (cfTask cf)) (p\<lparr>pTask := Some new_listener\<rparr>))"

text \<open>\<^verbatim>\<open>server.listener\<close> dereferences \<^verbatim>\<open>server\<close>, which is nil before \<^verbatim>\<open>Start\<close> has set it.\<close>

definition task_Shutdown :: "bool \<Rightarrow> 'c proc \<Rightarrow> 'c proc" where
  "task_Shutdown ok p = (case pTask p of
      None \<Rightarrow> p\<lparr>pExit := Some Panicked\<rparr>
    | Some l \<Rightarrow> logs (if ok then InfoLevel else ErrorLevel) (if ok then ''Task tcp shutdown'' else ''Task tcp shutdown failed'')
        (p\<lparr>pTask := Some (l\<lparr>liClosed := True\<rparr>)\<rparr>))"

definition customer_Run :: "config \<Rightarrow> bool \<Rightarrow> 'c proc \<Rightarrow> 'c proc" where
  "customer_Run cf ok p =
     (if ok then p\<lparr>pCustomer := Some True\<rparr>
      else (logs ErrorLevel (if cfAutobahn cf then ''Autobahn websocket start failed'' else ''Customer websocket start failed'') p)
             \<lparr>pExit := Some (Exited 1)\<rparr>)"

definition customer_Shutdown :: "bool \<Rightarrow> 'c proc \<Rightarrow> 'c proc" where
  "customer_Shutdown ok p = (case pCustomer p of
      None \<Rightarrow> p\<lparr>pExit := Some Panicked\<rparr>
    | Some _ \<Rightarrow> logs (if ok then InfoLevel else ErrorLevel) (if ok then ''Customer websocket shutdown'' else ''Customer websocket shutdown failed'') p)"

subsection \<open>\<^verbatim>\<open>main\<close>\<close>

text \<open>One step of \<^verbatim>\<open>main\<close>, \<open>None\<close> while it waits for the stop signal or for \<^verbatim>\<open>Wg\<close>.\<close>

definition main_step :: "penv \<Rightarrow> bool \<Rightarrow> 'c proc \<Rightarrow> 'c proc option" where
  "main_step e ok p = (case pMain p of
      MStart \<Rightarrow> Some (case RManager_Start (pePing e) (peConfig e) of
          None \<Rightarrow> p\<lparr>pExit := Some QueueFailed\<rparr>
        | Some r \<Rightarrow> (case AManager_Start (peBroker e) (peConfig e) of
            None \<Rightarrow> p\<lparr>pRedis := Some r, pExit := Some QueueFailed\<rparr>
          | Some a \<Rightarrow> p\<lparr>pRedis := Some r, pAmqp := Some a, pCustomerGo := True, pWorkerGo := True, pTaskGo := True, pMain := MSelect\<rparr>))
    | MSelect \<Rightarrow>
        if qClosed (pQuit p)
        then Some ((logs InfoLevel ''Start shutting down the netsvr process'' p)
               \<lparr>pQuit := (pQuit p)\<lparr>qCancelled := True\<rparr>, pTimer := cfShutdownWaitTime (peConfig e) > 0, pMain := MWait\<rparr>)
        else None
    | MWait \<Rightarrow> if wg_zero (pLog p) then Some (p\<lparr>pMain := MWorker\<rparr>) else None
    | MWorker \<Rightarrow> Some ((worker_Shutdown (peConfig e) ok p)\<lparr>pMain := MRedis\<rparr>)
    | MRedis \<Rightarrow> Some (p\<lparr>pRedis := map_option RManager_Shutdown (pRedis p), pMain := MAmqp\<rparr>)
    | MAmqp \<Rightarrow> Some (p\<lparr>pAmqp := map_option AManager_Shutdown (pAmqp p), pMain := MTask\<rparr>)
    | MTask \<Rightarrow> Some ((task_Shutdown ok p)\<lparr>pMain := MCustomer\<rparr>)
    | MCustomer \<Rightarrow> Some ((customer_Shutdown ok p)\<lparr>pMain := MFinish\<rparr>)
    | MFinish \<Rightarrow> Some ((logs InfoLevel ''Shutdown the netsvr process successfully'' p)\<lparr>pExit := Some (Exited 0)\<rparr>))"

text \<open>
  The queues work beside all this: what a manager refers to stays, a queue that was told to close stays so.
\<close>

definition redis_works :: "rmanager \<Rightarrow> rmanager \<Rightarrow> bool" where
  "redis_works r r' \<longleftrightarrow> rmOnOpen r' = rmOnOpen r \<and> rmOnMessage r' = rmOnMessage r \<and> rmOnClose r' = rmOnClose r \<and>
     length (rmQueues r') = length (rmQueues r) \<and> (\<forall>i < length (rmQueues r). rqCloseLock (rmQueues r ! i) \<longrightarrow> rqCloseLock (rmQueues r' ! i))"

definition amqp_works :: "amanager \<Rightarrow> amanager \<Rightarrow> bool" where
  "amqp_works r r' \<longleftrightarrow> amgOnOpen r' = amgOnOpen r \<and> amgOnMessage r' = amgOnMessage r \<and> amgOnClose r' = amgOnClose r \<and>
     length (amgQueues r') = length (amgQueues r) \<and>
     (\<forall>i < length (amgQueues r). aqCloseLock (fst (amgQueues r ! i)) \<longrightarrow> aqCloseLock (fst (amgQueues r' ! i)))"

text \<open>All goroutines; nothing happens after the end of the process.\<close>

inductive proc_step :: "penv \<Rightarrow> ('c \<Rightarrow> string) \<Rightarrow> 'c proc \<Rightarrow> 'c proc \<Rightarrow> bool" for e connId where
  main: "pExit p = None \<Longrightarrow> main_step e ok p = Some p' \<Longrightarrow> proc_step e connId p p'"
| signal: "pExit p = None \<Longrightarrow> proc_step e connId p (p\<lparr>pQuit := on_signal s (pQuit p)\<rparr>)"
| line: "pExit p = None \<Longrightarrow> proc_step e connId p (logs lvl l p)"
| gnet_line: "pExit p = None \<Longrightarrow> proc_step e connId p (loggingSubstitute f l p)"
| log_writer: "pExit p = None \<Longrightarrow> lgSink (pLog p) = Async w \<Longrightarrow> writer_step quitFirst (qCancelled (pQuit p)) w = Some w' \<Longrightarrow>
    proc_step e connId p (p\<lparr>pLog := (pLog p)\<lparr>lgSink := Async w'\<rparr>\<rparr>)"
| worker_start: "pExit p = None \<Longrightarrow> pWorkerGo p \<Longrightarrow> proc_step e connId p (worker_Start (peConfig e) ok (p\<lparr>pWorkerGo := False\<rparr>))"
| task_start: "pExit p = None \<Longrightarrow> pTaskGo p \<Longrightarrow> proc_step e connId p (task_Start (peConfig e) ok (p\<lparr>pTaskGo := False\<rparr>))"
| customer_start: "pExit p = None \<Longrightarrow> pCustomerGo p \<Longrightarrow> proc_step e connId p (p\<lparr>pCustomerGo := False, pCustomer := Some False\<rparr>)"
| customer_run: "pExit p = None \<Longrightarrow> pCustomer p = Some False \<Longrightarrow> proc_step e connId p (customer_Run (peConfig e) ok p)"
| worker_turn: "pExit p = None \<Longrightarrow> pWorker p = Some l \<Longrightarrow>
    proc_step e connId p (p\<lparr>pWorker := Some (worker_accept connId (qClosed (pQuit p)) a l)\<rparr>)"
| task_loop_turn: "pExit p = None \<Longrightarrow> pTask p = Some k \<Longrightarrow> proc_step e connId p (p\<lparr>pTask := Some (task_accept (qClosed (pQuit p)) a k)\<rparr>)"
| redis: "pExit p = None \<Longrightarrow> pRedis p = Some r \<Longrightarrow> redis_works r r' \<Longrightarrow> proc_step e connId p (p\<lparr>pRedis := Some r'\<rparr>)"
| amqp: "pExit p = None \<Longrightarrow> pAmqp p = Some b \<Longrightarrow> amqp_works b b' \<Longrightarrow> proc_step e connId p (p\<lparr>pAmqp := Some b'\<rparr>)"
| forced: "pExit p = None \<Longrightarrow> pTimer p \<Longrightarrow>
    proc_step e connId p ((logs InfoLevel ''Forced shutdown of netsvr process successfully'' p)\<lparr>pExit := Some (Exited 1)\<rparr>)"

inductive proc_run :: "penv \<Rightarrow> ('c \<Rightarrow> string) \<Rightarrow> 'c proc \<Rightarrow> 'c proc \<Rightarrow> bool" for e connId p0 where
  start: "proc_run e connId p0 p0"
| step: "proc_run e connId p0 p \<Longrightarrow> proc_step e connId p p' \<Longrightarrow> proc_run e connId p0 p'"

section \<open>What holds in every run\<close>

fun mainNo :: "mpc \<Rightarrow> nat" where
  "mainNo MStart = 0" | "mainNo MSelect = 1" | "mainNo MWait = 2" | "mainNo MWorker = 3" | "mainNo MRedis = 4" | "mainNo MAmqp = 5"
| "mainNo MTask = 6" | "mainNo MCustomer = 7" | "mainNo MFinish = 8"

definition redis_all :: "(rqueue \<Rightarrow> bool) \<Rightarrow> rmanager \<Rightarrow> bool" where
  "redis_all P r \<longleftrightarrow> (\<forall>i. Some i \<in> {rmOnOpen r, rmOnMessage r, rmOnClose r} \<longrightarrow> i < length (rmQueues r) \<and> P (rmQueues r ! i))"

definition amqp_all :: "(aqueue \<Rightarrow> bool) \<Rightarrow> amanager \<Rightarrow> bool" where
  "amqp_all P r \<longleftrightarrow> (\<forall>i. Some i \<in> {amgOnOpen r, amgOnMessage r, amgOnClose r} \<longrightarrow> i < length (amgQueues r) \<and> P (fst (amgQueues r ! i)))"

subsection \<open>The queues at the start and at the end\<close>

definition ids_ok :: "('k \<rightharpoonup> nat) \<Rightarrow> nat \<Rightarrow> bool" where
  "ids_ok qm n \<longleftrightarrow> (\<forall>k j. qm k = Some j \<longrightarrow> j < n)"

lemma makeQueue_ids:
  "makeQueue m mp q (qm, qs) = Some (i, qm', qs') \<Longrightarrow> ids_ok qm (length qs) \<Longrightarrow>
     length qs \<le> length qs' \<and> ids_ok qm' (length qs') \<and> (\<forall>j. i = Some j \<longrightarrow> j < length qs')"
  by (auto simp: makeQueue_def ids_ok_def less_Suc_eq split: if_splits option.splits)

lemma makeAQueue_ids:
  "makeAQueue m mp q n (qm, qs) = Some (i, qm', qs') \<Longrightarrow> ids_ok qm (length qs) \<Longrightarrow>
     length qs \<le> length qs' \<and> ids_ok qm' (length qs') \<and> (\<forall>j. i = Some j \<longrightarrow> j < length qs')"
  by (auto simp: makeAQueue_def ids_ok_def Let_def less_Suc_eq split: if_splits option.splits bind_splits)

lemma RManager_Start_wf:
  assumes "RManager_Start ping cf = Some r" shows "redis_all (\<lambda>_. True) r"
proof -
  obtain mp1 mp2 mp3 m qs1 qs2 qs3 qm1 qm2 qm3 i j k where
    q: "makeQueue m mp3 (cfRedisOnOpen cf) (\<lambda>_. None, []) = Some (i, qm1, qs1)"
    "makeQueue m mp3 (cfRedisOnMessage cf) (qm1, qs1) = Some (j, qm2, qs2)" "makeQueue m mp3 (cfRedisOnClose cf) (qm2, qs2) = Some (k, qm3, qs3)"
    and r: "r = \<lparr>rmOnOpen = i, rmOnMessage = j, rmOnClose = k, rmQueues = qs3\<rparr>"
    using assms by (auto simp: RManager_Start_def Let_def split: option.splits)
  have z: "ids_ok (\<lambda>_ :: string. None) (length [])" by (simp add: ids_ok_def)
  note a = makeQueue_ids [OF q(1) z] 
  note b = makeQueue_ids [OF q(2) a [THEN conjunct2, THEN conjunct1]]
  note c = makeQueue_ids [OF q(3) b [THEN conjunct2, THEN conjunct1]]
  show ?thesis unfolding redis_all_def r using a b c by auto
qed

lemma AManager_Start_wf:
  assumes "AManager_Start br cf = Some r" shows "amqp_all (\<lambda>_. True) r"
proof -
  obtain mp3 m qs1 qs2 qs3 qm1 qm2 qm3 i j k where
    q: "makeAQueue m mp3 (cfAmqpOnOpen cf) 256 (\<lambda>_. None, []) = Some (i, qm1, qs1)"
    "makeAQueue m mp3 (cfAmqpOnMessage cf) 256 (qm1, qs1) = Some (j, qm2, qs2)"
    "makeAQueue m mp3 (cfAmqpOnClose cf) 256 (qm2, qs2) = Some (k, qm3, qs3)"
    and r: "amgOnOpen r = i" "amgOnMessage r = j" "amgOnClose r = k" "amgQueues r = qs3"
    using assms by (auto simp: AManager_Start_def Let_def split: bind_splits)
  have z: "ids_ok (\<lambda>_ :: string. None) (length [])" by (simp add: ids_ok_def)
  note a = makeAQueue_ids [OF q(1) z] 
  note b = makeAQueue_ids [OF q(2) a [THEN conjunct2, THEN conjunct1]]
  note c = makeAQueue_ids [OF q(3) b [THEN conjunct2, THEN conjunct1]]
  show ?thesis unfolding amqp_all_def r using a b c by auto
qed

lemma RManager_Shutdown_all: "redis_all (\<lambda>_. True) r \<Longrightarrow> redis_all rqCloseLock (RManager_Shutdown r)"
  unfolding redis_all_def Shutdown_queues by (auto simp: close_at_nth close_flags_def)

lemma AManager_Shutdown_all: "amqp_all (\<lambda>_. True) r \<Longrightarrow> amqp_all aqCloseLock (AManager_Shutdown r)"
  unfolding amqp_all_def AManager_Shutdown_def
  by (auto simp: nth_list_update aclose_flags_def split: option.splits)

lemma redis_works_all: "redis_works r r' \<Longrightarrow> redis_all (\<lambda>_. True) r' = redis_all (\<lambda>_. True) r" "redis_works r r' \<Longrightarrow> redis_all rqCloseLock r \<Longrightarrow> redis_all rqCloseLock r'"
  by (auto simp: redis_works_def redis_all_def)

lemma amqp_works_all: "amqp_works r r' \<Longrightarrow> amqp_all (\<lambda>_. True) r' = amqp_all (\<lambda>_. True) r" "amqp_works r r' \<Longrightarrow> amqp_all aqCloseLock r \<Longrightarrow> amqp_all aqCloseLock r'"
  by (auto simp: amqp_works_def amqp_all_def)

subsection \<open>The invariant\<close>

lemma wg_zero_emit [simp]: "wg_zero (emit lvl l lg) = wg_zero lg"
  by (auto simp: emit_def wg_zero_def AsyncWriter_Write_def split: log_sink.split)

lemma wg_zero_writer: "lgSink lg = Async w \<Longrightarrow> writer_step quitFirst c w = Some w' \<Longrightarrow> \<not> wg_zero lg"
  by (auto simp: wg_zero_def writer_step_def)

lemma logs_keeps [simp]:
  "pQuit (logs v l p) = pQuit p" "pMain (logs v l p) = pMain p" "pRedis (logs v l p) = pRedis p" "pAmqp (logs v l p) = pAmqp p"
  "pWorker (logs v l p) = pWorker p" "pTask (logs v l p) = pTask p" "pCustomer (logs v l p) = pCustomer p" "pExit (logs v l p) = pExit p" "pTaskGo (logs v l p) = pTaskGo p" "pCustomerGo (logs v l p) = pCustomerGo p"
  "pLog (logs v l p) = emit v l (pLog p)"
  by (simp_all add: logs_def)

lemma accept_keeps [simp]:
  "liClosed (worker_accept connId b a l) = liClosed l" "liClosed (task_accept b a k) = liClosed k"
  "liServed (worker_accept connId True a l) = liServed l"
  by (auto simp: worker_accept_def task_accept_def Let_def split: accepted.split)

definition queues_inv :: "'c proc \<Rightarrow> bool" where
  "queues_inv p \<longleftrightarrow>
     (1 \<le> mainNo (pMain p) \<longrightarrow> (\<exists>r a. pRedis p = Some r \<and> redis_all (\<lambda>_. True) r \<and> pAmqp p = Some a \<and> amqp_all (\<lambda>_. True) a)) \<and>
     (5 \<le> mainNo (pMain p) \<longrightarrow> redis_all rqCloseLock (the (pRedis p))) \<and>
     (6 \<le> mainNo (pMain p) \<longrightarrow> amqp_all aqCloseLock (the (pAmqp p)))"

definition stop_inv :: "'c proc \<Rightarrow> bool" where
  "stop_inv p \<longleftrightarrow> (2 \<le> mainNo (pMain p) \<longrightarrow> qClosed (pQuit p) \<and> qCancelled (pQuit p)) \<and>
     (3 \<le> mainNo (pMain p) \<longrightarrow> wg_zero (pLog p)) \<and> (pExit p = Some (Exited 0) \<longrightarrow> pMain p = MFinish)"

definition servers_inv :: "penv \<Rightarrow> 'c proc \<Rightarrow> bool" where
  "servers_inv e p \<longleftrightarrow> (cfListenAddress (cfWorker (peConfig e)) = [] \<longrightarrow> pWorker p = None) \<and>
     (pTaskGo p \<longrightarrow> pTask p = None \<and> pMain p \<noteq> MStart) \<and> (pMain p = MStart \<longrightarrow> pTask p = None) \<and>
     (4 \<le> mainNo (pMain p) \<longrightarrow> (\<forall>l. pWorker p = Some l \<longrightarrow> liClosed l \<or> liServed l = [])) \<and>
     (7 \<le> mainNo (pMain p) \<and> pExit p \<noteq> Some Panicked \<longrightarrow> (\<exists>k. pTask p = Some k \<and> liClosed k)) \<and>
     (8 \<le> mainNo (pMain p) \<and> pExit p \<noteq> Some Panicked \<longrightarrow> pCustomer p \<noteq> None) \<and>
     (pExit p = Some Panicked \<longrightarrow> 7 \<le> mainNo (pMain p) \<and> (pTask p = None \<or> pCustomer p = None))"

lemmas server_defs = worker_Start_def worker_Shutdown_def task_Start_def task_Shutdown_def customer_Run_def customer_Shutdown_def loggingSubstitute_def

lemma redis_all_weaker: "redis_all P r \<Longrightarrow> redis_all (\<lambda>_. True) r"
  by (simp add: redis_all_def)

lemma amqp_all_weaker: "amqp_all P r \<Longrightarrow> amqp_all (\<lambda>_. True) r"
  by (simp add: amqp_all_def)

lemmas shutdown_keeps = redis_all_weaker [OF RManager_Shutdown_all] amqp_all_weaker [OF AManager_Shutdown_all]

lemma main_queues:
  assumes "queues_inv p" "main_step e ok p = Some p'"
  shows "queues_inv p'"
proof (cases "pMain p")
  case MStart
  then show ?thesis using assms RManager_Start_wf AManager_Start_wf
    by (auto simp: queues_inv_def main_step_def split: option.splits)
next
  case MRedis
  then show ?thesis using assms RManager_Shutdown_all
    by (auto simp: queues_inv_def main_step_def intro: shutdown_keeps)
next
  case MAmqp
  then show ?thesis using assms AManager_Shutdown_all
    by (auto simp: queues_inv_def main_step_def intro: shutdown_keeps)
qed (use assms in \<open>auto simp: queues_inv_def main_step_def server_defs split: option.splits if_splits gnet_log.splits\<close>)

lemma main_stop: "stop_inv p \<Longrightarrow> main_step e ok p = Some p' \<Longrightarrow> pExit p = None \<Longrightarrow> stop_inv p'"
  by (cases "pMain p") (auto simp: stop_inv_def main_step_def server_defs split: option.splits if_splits gnet_log.splits)

lemma main_servers: "servers_inv e p \<Longrightarrow> main_step e ok p = Some p' \<Longrightarrow> pExit p = None \<Longrightarrow> servers_inv e p'"
  by (cases "pMain p") (auto simp: servers_inv_def main_step_def server_defs split: option.splits if_splits gnet_log.splits)

lemma step_queues: "proc_step e connId p p' \<Longrightarrow> queues_inv p \<Longrightarrow> queues_inv p'"
proof (induction rule: proc_step.induct)
  case (redis p r r')
  then show ?case using redis_works_all [of r r'] by (auto simp: queues_inv_def)
next
  case (amqp p b b')
  then show ?case using amqp_works_all [of b b'] by (auto simp: queues_inv_def)
next
  case (main p ok p')
  then show ?case using main_queues by blast
qed (auto simp: queues_inv_def server_defs split: option.splits if_splits gnet_log.splits)

lemma step_stop: "proc_step e connId p p' \<Longrightarrow> stop_inv p \<Longrightarrow> stop_inv p'"
proof (induction rule: proc_step.induct)
  case (log_writer p w quitFirst w')
  then show ?case using wg_zero_writer [of "pLog p" w] by (auto simp: stop_inv_def)
next
  case (main p ok p')
  then show ?case using main_stop by blast
qed (auto simp: stop_inv_def server_defs split: option.splits if_splits gnet_log.splits)

lemma step_servers: "proc_step e connId p p' \<Longrightarrow> servers_inv e p \<Longrightarrow> stop_inv p \<Longrightarrow> servers_inv e p'"
proof (induction rule: proc_step.induct)
  case (worker_turn p l a)
  then show ?case by (auto simp: stop_inv_def servers_inv_def)
next
  case (main p ok p')
  then show ?case using main_servers by blast
qed (auto simp: servers_inv_def server_defs new_listener_def split: option.splits if_splits gnet_log.splits)

lemma run_inv:
  assumes "proc_run e connId (proc_init lg) p"
  shows "queues_inv p" "stop_inv p" "servers_inv e p"
proof -
  have "queues_inv p \<and> stop_inv p \<and> servers_inv e p" using assms
  proof (induction rule: proc_run.induct)
    case start
    then show ?case by (simp add: queues_inv_def stop_inv_def servers_inv_def proc_init_def)
  next
    case (step p p')
    then show ?case using step_queues step_stop step_servers by blast
  qed
  then show "queues_inv p" "stop_inv p" "servers_inv e p" by simp_all
qed

subsection \<open>Stopping\<close>


text \<open>
  When the log goes to a file, \<^verbatim>\<open>Wg\<close> counts the log writer alone, so \<^verbatim>\<open>main\<close> goes on exactly when the writer has ended.
\<close>

definition to_file :: "logger \<Rightarrow> bool" where
  "to_file lg = (case lgSink lg of Async _ \<Rightarrow> True | _ \<Rightarrow> False)"

lemma emit_after_end: "to_file lg \<Longrightarrow> wg_zero lg \<Longrightarrow> log_out (emit v l lg) = log_out lg \<and> to_file (emit v l lg)"
  by (auto simp: emit_def to_file_def wg_zero_def log_out_def AsyncWriter_Write_def split: log_sink.splits)

lemma step_after_end:
  assumes "proc_step e connId p p'" "wg_zero (pLog p)" "to_file (pLog p)"
  shows "log_out (pLog p') = log_out (pLog p) \<and> wg_zero (pLog p') \<and> to_file (pLog p')"
  using assms
proof (induction rule: proc_step.induct)
  case (main p ok p')
  then show ?case
    by (cases "pMain p") (auto simp: main_step_def server_defs emit_after_end split: option.splits if_splits gnet_log.splits)
next
  case (log_writer p w quitFirst w')
  then show ?case using wg_zero_writer by blast
qed (auto simp: server_defs emit_after_end split: option.splits if_splits gnet_log.splits)

lemma to_file_step: "proc_step e connId p p' \<Longrightarrow> to_file (pLog p') = to_file (pLog p)"
proof (induction rule: proc_step.induct)
  case (main p ok p')
  then show ?case by (cases "pMain p") (auto simp: main_step_def server_defs to_file_def emit_def split: option.splits if_splits log_sink.splits gnet_log.splits)
qed (auto simp: server_defs to_file_def emit_def split: option.splits if_splits log_sink.splits gnet_log.splits)


subsection \<open>Stopping too early\<close>

lemma proc_run_trans: "proc_run e connId p q \<Longrightarrow> proc_run e connId q r \<Longrightarrow> proc_run e connId p r"
  by (rotate_tac, induction rule: proc_run.induct) (auto intro: proc_run.step)

lemma proc_run_one: "proc_step e connId p q \<Longrightarrow> proc_run e connId q r \<Longrightarrow> proc_run e connId p r"
  using proc_run_trans [OF proc_run.step [OF proc_run.start]] .

definition with_writer :: "'c proc \<Rightarrow> writer \<Rightarrow> 'c proc" where
  "with_writer p w = p\<lparr>pLog := (pLog p)\<lparr>lgSink := Async w\<rparr>\<rparr>"

lemma writer_moves:
  assumes "pExit p = None" "qCancelled (pQuit p)" "writer_step b True w = Some w'" "proc_run e connId (with_writer p w') q"
  shows "proc_run e connId (with_writer p w) q"
proof (rule proc_run_one [OF _ assms(4)])
  have "proc_step e connId (with_writer p w) ((with_writer p w)\<lparr>pLog := (pLog (with_writer p w))\<lparr>lgSink := Async w'\<rparr>\<rparr>)"
    by (rule proc_step.log_writer [where quitFirst = b and w = w]) (use assms(1-3) in \<open>simp_all add: with_writer_def\<close>)
  then show "proc_step e connId (with_writer p w) (with_writer p w')" by (simp add: with_writer_def)
qed

lemma drain_ends:
  assumes "pExit p = None" "qCancelled (pQuit p)" "wPhase w = LogDrain i n" "n \<le> length (wCh w)"
  shows "\<exists>w'. proc_run e connId (with_writer p w) (with_writer p w') \<and> wPhase w' = LogSleep i"
  using assms(3,4)
proof (induction n arbitrary: w)
  case 0
  have "writer_step True True w = Some (w\<lparr>wPhase := LogSleep i\<rparr>)" using 0 by (simp add: writer_step_def)
  from writer_moves [OF assms(1,2) this proc_run.start] show ?case by (intro exI conjI) auto
next
  case (Suc n)
  let ?w = "(take_buf w)\<lparr>wPhase := LogDrain i n\<rparr>"
  have s: "writer_step True True w = Some ?w" using Suc.prems by (auto simp: writer_step_def)
  have "n \<le> length (wCh ?w)" using Suc.prems take_buf_out(3) [of w] by simp
  then obtain w' where "proc_run e connId (with_writer p ?w) (with_writer p w')" "wPhase w' = LogSleep i" using Suc.IH [of ?w] by auto
  then show ?case using writer_moves [OF assms(1,2) s] by blast
qed

lemma sleep_ends:
  assumes "pExit p = None" "qCancelled (pQuit p)" "wPhase w = LogSleep i"
  shows "\<exists>w'. proc_run e connId (with_writer p w) (with_writer p w') \<and> wPhase w' = LogEnd"
  using assms(3)
proof (induction i arbitrary: w rule: less_induct)
  case (less i)
  show ?case
  proof (cases "i > 1")
    case True
    let ?w = "w\<lparr>wPhase := LogDrain (i - 1) (length (wCh w))\<rparr>"
    have s: "writer_step True True w = Some ?w" using less.prems True by (simp add: writer_step_def)
    have "\<exists>w1. proc_run e connId (with_writer p ?w) (with_writer p w1) \<and> wPhase w1 = LogSleep (i - 1)"
      by (rule drain_ends [OF assms(1,2), where n = "length (wCh w)"]) simp_all
    then obtain w1 where w1: "proc_run e connId (with_writer p ?w) (with_writer p w1)" "wPhase w1 = LogSleep (i - 1)" by blast
    obtain w2 where w2: "proc_run e connId (with_writer p w1) (with_writer p w2)" "wPhase w2 = LogEnd"
      using less.IH [OF _ w1(2)] True by auto
    then show ?thesis using writer_moves [OF assms(1,2) s proc_run_trans [OF w1(1) w2(1)]] by blast
  next
    case False
    then have "writer_step True True w = Some (w\<lparr>wPhase := LogEnd\<rparr>)" using less.prems by (simp add: writer_step_def)
    from writer_moves [OF assms(1,2) this proc_run.start] show ?thesis by (intro exI conjI) auto
  qed
qed

lemma writer_ends:
  assumes "pExit p = None" "qCancelled (pQuit p)" "wPhase w = LogPoll"
  shows "\<exists>w'. proc_run e connId (with_writer p w) (with_writer p w') \<and> wPhase w' = LogEnd"
proof -
  let ?w = "w\<lparr>wPhase := LogDrain 3 (length (wCh w))\<rparr>"
  have s: "writer_step True True w = Some ?w" using assms(3) by (simp add: writer_step_def)
  have "\<exists>w1. proc_run e connId (with_writer p ?w) (with_writer p w1) \<and> wPhase w1 = LogSleep 3"
    by (rule drain_ends [OF assms(1,2), where n = "length (wCh w)"]) simp_all
  then obtain w1 where w1: "proc_run e connId (with_writer p ?w) (with_writer p w1)" "wPhase w1 = LogSleep 3" by blast
  obtain w2 where "proc_run e connId (with_writer p w1) (with_writer p w2)" "wPhase w2 = LogEnd" using sleep_ends [OF assms(1,2) w1(2)] by blast
  then show ?thesis using writer_moves [OF assms(1,2) s] proc_run_trans [OF w1(1)] by blast
qed

text \<open>From the wait on, \<^verbatim>\<open>main\<close> may reach the shutdown of the task server before that server has been created.\<close>

lemma main_moves: "pExit p = None \<Longrightarrow> main_step e True p = Some p' \<Longrightarrow> proc_run e connId p' q \<Longrightarrow> proc_run e connId p q"
  by (rule proc_run_one [OF proc_step.main])

lemma stopping_panics:
  assumes "pExit p = None" "pMain p = MWorker" "pTask p = None" "pWorker p = None"
  shows "\<exists>q. proc_run e connId p q \<and> pExit q = Some Panicked"
proof -
  define p1 where "p1 = p\<lparr>pMain := MRedis\<rparr>"
  define p2 where "p2 = p1\<lparr>pRedis := map_option RManager_Shutdown (pRedis p), pMain := MAmqp\<rparr>"
  define p3 where "p3 = p2\<lparr>pAmqp := map_option AManager_Shutdown (pAmqp p), pMain := MTask\<rparr>"
  have s: "main_step e True p = Some p1" "main_step e True p1 = Some p2" "main_step e True p2 = Some p3"
    "main_step e True p3 = Some (p3\<lparr>pExit := Some Panicked, pMain := MCustomer\<rparr>)"
    using assms by (simp_all add: main_step_def p1_def p2_def p3_def worker_Shutdown_def task_Shutdown_def)
  have x: "pExit p1 = None" "pExit p2 = None" "pExit p3 = None" using assms(1) by (simp_all add: p1_def p2_def p3_def)
  have "proc_run e connId p (p3\<lparr>pExit := Some Panicked, pMain := MCustomer\<rparr>)"
    by (rule main_moves [OF assms(1) s(1)], rule main_moves [OF x(1) s(2)], rule main_moves [OF x(2) s(3)],
        rule main_moves [OF x(3) s(4)], rule proc_run.start)
  then show ?thesis by (intro exI conjI) auto
qed

text \<open>The state when \<^verbatim>\<open>main\<close> begins to wait, after a signal that came right after the start.\<close>

lemma quick_stop:
  assumes "RManager_Start (pePing e) (peConfig e) = Some r" "AManager_Start (peBroker e) (peConfig e) = Some a" "pExit p = None" "pMain p = MStart"
    and q: "pQuit p = quit_init" and "pTask p = None" "pWorker p = None"
  shows "\<exists>p'. proc_run e connId p p' \<and> pExit p' = None \<and> pMain p' = MWait \<and> qCancelled (pQuit p') \<and> pTask p' = None \<and> pWorker p' = None \<and>
    pTaskGo p' \<and> pCustomerGo p' \<and> pLog p' = emit InfoLevel ''Start shutting down the netsvr process'' (pLog p)"
proof -
  define p1 where "p1 = p\<lparr>pRedis := Some r, pAmqp := Some a, pCustomerGo := True, pWorkerGo := True, pTaskGo := True, pMain := MSelect\<rparr>"
  define p2 where "p2 = p1\<lparr>pQuit := on_signal SIGTERM (pQuit p1)\<rparr>"
  define p3 where "p3 = (logs InfoLevel ''Start shutting down the netsvr process'' p2)
    \<lparr>pQuit := (pQuit p2)\<lparr>qCancelled := True\<rparr>, pTimer := cfShutdownWaitTime (peConfig e) > 0, pMain := MWait\<rparr>"
  have m1: "main_step e True p = Some p1" using assms(1,2,4) by (simp add: main_step_def p1_def)
  have m2: "proc_step e connId p1 p2" unfolding p2_def by (rule proc_step.signal) (simp add: p1_def assms(3))
  have "qClosed (pQuit p2)" by (simp add: p2_def on_signal_def)
  moreover have "pMain p2 = MSelect" "pExit p2 = None" using assms(3) by (simp_all add: p2_def p1_def)
  ultimately have m3: "main_step e True p2 = Some p3" "pExit p2 = None" by (simp_all add: main_step_def p3_def)
  have "proc_run e connId p p3"
    by (rule main_moves [OF assms(3) m1], rule proc_run_one [OF m2], rule main_moves [OF m3(2,1)], rule proc_run.start)
  moreover have "pLog p3 = emit InfoLevel ''Start shutting down the netsvr process'' (pLog p)" by (simp add: p3_def p2_def p1_def logs_def)
  ultimately show ?thesis using assms(3,6,7) by (intro exI [of _ p3]) (simp add: p3_def p2_def p1_def)
qed

lemma fresh_sink:
  assumes "log_init joinRoot cf = Some lg" "\<not> wg_zero lg"
  shows "\<exists>w. lgSink (emit v l lg) = Async w \<and> wPhase w = LogPoll"
  using assms by (auto simp: log_init_def log_New_def wg_zero_def emit_def AsyncWriter_Write_def NewAsyncWriter_def split: if_splits)

lemma with_writer_same: "lgSink (pLog p) = Async w \<Longrightarrow> with_writer p w = p"
  by (cases p; cases "pLog p") (simp add: with_writer_def)

lemma stop_reached:
  assumes "RManager_Start (pePing e) (peConfig e) = Some r" "AManager_Start (peBroker e) (peConfig e) = Some a"
    and lg: "log_init joinRoot (peConfig e) = Some lg"
  shows "\<exists>p. proc_run e connId (proc_init lg) p \<and> pExit p = None \<and> pMain p = MWorker \<and> pTask p = None \<and> pWorker p = None \<and>
    pTaskGo p \<and> pCustomerGo p"
proof -
  obtain p where p: "proc_run e connId (proc_init lg) p" "pExit p = None" "pMain p = MWait" "qCancelled (pQuit p)" "pTask p = None"
    "pWorker p = None" "pTaskGo p" "pCustomerGo p" and l: "pLog p = emit InfoLevel ''Start shutting down the netsvr process'' lg"
    using quick_stop [OF assms(1,2), of "proc_init lg" connId] by (auto simp: proc_init_def)
  have "\<exists>q. proc_run e connId p q \<and> wg_zero (pLog q) \<and> pExit q = None \<and> pMain q = MWait \<and> pTask q = None \<and> pWorker q = None \<and> pTaskGo q \<and> pCustomerGo q"
  proof (cases "wg_zero (pLog p)")
    case True
    then show ?thesis using p proc_run.start by blast
  next
    case False
    then obtain w where s: "lgSink (pLog p) = Async w" and w: "wPhase w = LogPoll" using fresh_sink [OF lg] unfolding l wg_zero_emit by blast
    obtain w' where w': "proc_run e connId p (with_writer p w')" "wPhase w' = LogEnd"
      using writer_ends [OF p(2,4) w] unfolding with_writer_same [OF s] by blast
    then show ?thesis using p by (intro exI [of _ "with_writer p w'"]) (simp add: with_writer_def wg_zero_def)
  qed
  then obtain q where q: "proc_run e connId p q" "wg_zero (pLog q)" "pExit q = None" "pMain q = MWait" "pTask q = None" "pWorker q = None"
    "pTaskGo q" "pCustomerGo q" by blast
  have "main_step e True q = Some (q\<lparr>pMain := MWorker\<rparr>)" using q by (simp add: main_step_def)
  then have "proc_run e connId (proc_init lg) (q\<lparr>pMain := MWorker\<rparr>)"
    using proc_run.step [OF proc_run_trans [OF p(1) q(1)] proc_step.main [OF q(3)]] by blast
  then show ?thesis using q by (intro exI [of _ "q\<lparr>pMain := MWorker\<rparr>"]) simp
qed


subsection \<open>Witnesses\<close>

text \<open>A process without queues that logs to a file.\<close>

definition no_redis :: RedisQueue where "no_redis = (sample_redis '''')\<lparr>rqAddress := ''''\<rparr>"
definition no_amqp :: AMQP091Queue where "no_amqp = sample_amqp\<lparr>aqAddress := ''''\<rparr>"

definition sample_penv :: penv where
  "sample_penv = \<lparr>peConfig = sample_config\<lparr>cfLogFile := ''/l'', cfRedisOnOpen := no_redis, cfRedisOnMessage := no_redis, cfRedisOnClose := no_redis,
       cfAmqpOnOpen := no_amqp, cfAmqpOnMessage := no_amqp, cfAmqpOnClose := no_amqp\<rparr>,
     pePing = (\<lambda>_. True), peBroker = \<lparr>brConn = (\<lambda>_. True), brChannel = (\<lambda>_. True), brDeclare = (\<lambda>_ _. True)\<rparr>\<rparr>"

definition file_log :: logger where "file_log = \<lparr>lgLevel = InfoLevel, lgSink = Async NewAsyncWriter\<rparr>"

lemma sample_starts:
  "RManager_Start (pePing sample_penv) (peConfig sample_penv) = Some \<lparr>rmOnOpen = None, rmOnMessage = None, rmOnClose = None, rmQueues = []\<rparr>"
  "\<exists>a. AManager_Start (peBroker sample_penv) (peConfig sample_penv) = Some a"
  "log_init id (peConfig sample_penv) = Some file_log"
  by (simp_all add: sample_penv_def no_redis_def no_amqp_def RManager_Start_def makeRedisClient_def makeQueue_def unconfigured_def
      AManager_Start_def makeConnChannel_def makeTopology_def makeAQueue_def amqp_unconfigured_def
      log_init_def log_New_def GetLogFile_def GetLogLevel_def sample_config_def file_log_def)

lemma sample_stop: "\<exists>p. proc_run sample_penv (\<lambda>_ :: nat. '''') (proc_init file_log) p \<and> pExit p = None \<and> pMain p = MWorker \<and> pTask p = None \<and>
  pWorker p = None \<and> pTaskGo p \<and> pCustomerGo p"
proof -
  obtain a where "AManager_Start (peBroker sample_penv) (peConfig sample_penv) = Some a" using sample_starts(2) by blast
  from stop_reached [OF sample_starts(1) this sample_starts(3)] show ?thesis .
qed



lemma stopping_exits:
  assumes "pExit p = None" "pMain p = MWorker" "pTask p = None" "pWorker p = None" "pTaskGo p" "pCustomerGo p"
  shows "\<exists>q. proc_run e connId p q \<and> pExit q = Some (Exited 0)"
proof -
  define p1 where "p1 = task_Start (peConfig e) True (p\<lparr>pTaskGo := False\<rparr>)"
  define p2 where "p2 = p1\<lparr>pCustomerGo := False, pCustomer := Some False\<rparr>"
  define p3 where "p3 = p2\<lparr>pMain := MRedis\<rparr>"
  define p4 where "p4 = p3\<lparr>pRedis := map_option RManager_Shutdown (pRedis p3), pMain := MAmqp\<rparr>"
  define p5 where "p5 = p4\<lparr>pAmqp := map_option AManager_Shutdown (pAmqp p4), pMain := MTask\<rparr>"
  define p6 where "p6 = (task_Shutdown True p5)\<lparr>pMain := MCustomer\<rparr>"
  define p7 where "p7 = (customer_Shutdown True p6)\<lparr>pMain := MFinish\<rparr>"
  define p8 where "p8 = (logs InfoLevel ''Shutdown the netsvr process successfully'' p7)\<lparr>pExit := Some (Exited 0)\<rparr>"
  have a1: "pExit p1 = None" "pMain p1 = MWorker" "pWorker p1 = None" "pTask p1 = Some new_listener" "pCustomerGo p1"
    using assms by (simp_all add: p1_def task_Start_def)
  have a5: "pExit p3 = None" "pExit p4 = None" "pExit p5 = None" "pTask p5 = Some new_listener" "pCustomer p5 = Some False" "pMain p5 = MTask"
    using a1 by (simp_all add: p2_def p3_def p4_def p5_def)
  have a6: "pExit p6 = None" "pMain p6 = MCustomer" "pCustomer p6 = Some False" using a5 by (simp_all add: p6_def task_Shutdown_def)
  have a7: "pExit p7 = None" "pMain p7 = MFinish" using a6 by (simp_all add: p7_def customer_Shutdown_def)
  have s: "main_step e True p2 = Some p3" "main_step e True p3 = Some p4" "main_step e True p4 = Some p5"
    "main_step e True p5 = Some p6" "main_step e True p6 = Some p7" "main_step e True p7 = Some p8" "pExit p2 = None"
    using a1 a5 a6 a7 by (simp_all add: main_step_def p2_def p3_def p4_def p5_def p6_def p7_def p8_def worker_Shutdown_def)
  have "proc_step e connId p p1" unfolding p1_def by (rule proc_step.task_start [OF assms(1,5)])
  moreover have "proc_step e connId p1 p2" unfolding p2_def by (rule proc_step.customer_start [OF a1(1,5)])
  moreover have "proc_run e connId p2 p8"
    by (rule main_moves [OF s(7,1)], rule main_moves [OF a5(1) s(2)], rule main_moves [OF a5(2) s(3)], rule main_moves [OF a5(3) s(4)],
        rule main_moves [OF a6(1) s(5)], rule main_moves [OF a7(1) s(6)], rule proc_run.start)
  ultimately have "proc_run e connId p p8" using proc_run_one by metis
  then show ?thesis by (intro exI [of _ p8]) (simp add: p8_def)
qed


end
