(* ===== verification/Startup.thy ===== *)
theory Startup
  imports Lifecycle "HOL-Library.Log_Nat"
begin

text \<open>
  Small parts of the start: the engine of the websocket server (\<^verbatim>\<open>src/internal/wsServer/server.go\<close>), the number of event loops that \<^verbatim>\<open>customer.Start\<close> asks gnet for (\<^verbatim>\<open>src/internal/customer/websocket.go\<close>), the pprof
  agent (\<^verbatim>\<open>src/cmd/netsvr.go\<close>) and the timer wheel (\<^verbatim>\<open>src/internal/timer/timer.go\<close>). The number of loops is computed in floating point:
  a positive \<^verbatim>\<open>float64\<close> is \<open>v / 2 ^ k\<close> with \<open>v\<close> of at most 53 bits, and every operation rounds the exact result to the nearest such number, ties to
  an even last bit. The numbers here are far from the ends of the range of exponents.
\<close>

section \<open>Floating point\<close>

definition div_nearest :: "nat \<Rightarrow> nat \<Rightarrow> nat" where
  "div_nearest a b =
     (let q = a div b; r = a mod b
      in if 2 * r < b then q else if 2 * r > b then q + 1 else if even q then q else q + 1)"

text \<open>\<^verbatim>\<open>float64(m) / float64(d)\<close> of integers below \<open>2 ^ 53\<close>.\<close>

definition fl_quotient :: "nat \<Rightarrow> nat \<Rightarrow> nat \<times> nat" where
  "fl_quotient m d =
     (let k = 53 + floorlog 2 d - floorlog 2 m;
          k = (if m * 2 ^ k \<ge> d * 2 ^ 53 then k - 1 else k)
      in (div_nearest (m * 2 ^ k) d, k))"

text \<open>\<^verbatim>\<open>float64(n) * x\<close>.\<close>

definition fl_product :: "nat \<Rightarrow> nat \<times> nat \<Rightarrow> nat \<times> nat" where
  "fl_product n = (\<lambda>(v, k). let j = floorlog 2 (n * v) - 53 in (div_nearest (n * v) (2 ^ j) * 2 ^ j, k))"

definition fl_Ceil :: "nat \<times> nat \<Rightarrow> nat" where
  "fl_Ceil = (\<lambda>(v, k). (v + 2 ^ k - 1) div 2 ^ k)"

definition numEventLoop :: "nat \<Rightarrow> nat \<Rightarrow> nat" where
  "numEventLoop numCPU multicore =
     (if multicore = 0 then 1 else fl_Ceil (fl_product numCPU (fl_quotient multicore 100)))"

section \<open>Rounding errors\<close>

lemma div_nearest_error:
  assumes "0 < b"
  shows "2 * (div_nearest a b * b) \<le> 2 * a + b" "2 * a \<le> 2 * (div_nearest a b * b) + b"
proof -
  define q r where "q = a div b" and "r = a mod b"
  have a: "a = q * b + r" "r < b" using assms by (simp_all add: q_def r_def)
  consider "div_nearest a b = q" "2 * r \<le> b" | "div_nearest a b = q + 1" "b \<le> 2 * r"
    by (cases "2 * r < b"; cases "2 * r > b"; cases "even q") (auto simp: div_nearest_def q_def [symmetric] r_def [symmetric])
  then have "2 * (div_nearest a b * b) \<le> 2 * a + b \<and> 2 * a \<le> 2 * (div_nearest a b * b) + b"
    using a by cases (simp_all add: algebra_simps)
  then show "2 * (div_nearest a b * b) \<le> 2 * a + b" "2 * a \<le> 2 * (div_nearest a b * b) + b" by simp_all
qed

lemma fl_quotient_100:
  assumes "0 < m" "m \<le> 100" "fl_quotient m 100 = (v, k)"
  shows "52 \<le> k" "200 * v \<le> 2 * (m * 2 ^ k) + 100" "2 * (m * 2 ^ k) \<le> 200 * v + 100" "v \<le> 2 ^ 53"
proof -
  have l100: "floorlog 2 100 = 7" by (simp add: compute_floorlog)
  have lm: "floorlog 2 m \<le> 7" using floorlog_mono [OF assms(2), of 2] l100 by simp
  let ?k = "53 + 7 - floorlog 2 m"
  have b: "m < 2 ^ floorlog 2 m" using floorlog_bounds [of m 2] assms(1) by simp
  have k: "k = (if m * 2 ^ ?k \<ge> 100 * 2 ^ 53 then ?k - 1 else ?k)" "v = div_nearest (m * 2 ^ k) 100"
    using assms(3) by (auto simp: fl_quotient_def l100 Let_def)
  show "52 \<le> k" using lm k(1) by (auto split: if_splits)
  note e = div_nearest_error [of 100 "m * 2 ^ k"]
  show "200 * v \<le> 2 * (m * 2 ^ k) + 100" "2 * (m * 2 ^ k) \<le> 200 * v + 100" using e k(2) by simp_all
  have "m * 2 ^ k < 100 * 2 ^ 53"
  proof (cases "m * 2 ^ ?k \<ge> 100 * 2 ^ 53")
    case True
    have p: "2 ^ ?k = 2 * (2 :: nat) ^ (?k - 1)" using lm by (simp flip: power_Suc)
    have "m * 2 ^ ?k < 2 ^ floorlog 2 m * 2 ^ ?k" using b by simp
    also have "\<dots> = (2 :: nat) ^ 60" using lm by (simp flip: power_add)
    finally have "2 * (m * 2 ^ (?k - 1)) < 2 ^ 60" unfolding p by simp
    then show ?thesis using k(1) True by simp
  next
    case False
    then show ?thesis using k(1) by simp
  qed
  then have "200 * v < 200 * 2 ^ 53 + 100" using \<open>200 * v \<le> 2 * (m * 2 ^ k) + 100\<close> by linarith
  then show "v \<le> 2 ^ 53" by linarith
qed

lemma fl_product_error:
  assumes "v \<le> 2 ^ 53" "n < 2 ^ 20" "fl_product n (v, k) = (w, k')"
  shows "k' = k" "2 * w \<le> 2 * (n * v) + 2 ^ 21" "2 * (n * v) \<le> 2 * w + 2 ^ 21"
proof -
  let ?j = "floorlog 2 (n * v) - 53"
  have w: "w = div_nearest (n * v) (2 ^ ?j) * 2 ^ ?j" "k' = k" using assms(3) by (simp_all add: fl_product_def Let_def)
  show "k' = k" by (rule w(2))
  have "n * v < 2 ^ 74"
  proof -
    have "n * v \<le> n * 2 ^ 53" using assms(1) by simp
    also have "\<dots> < 2 ^ 20 * 2 ^ 53" using assms(2) by simp
    finally show ?thesis by simp
  qed
  then have "?j \<le> 21" using floorlog_leI [of "n * v" 2 74] by simp
  then have j: "(2 :: nat) ^ ?j \<le> 2 ^ 21" by (intro power_increasing) simp_all
  note e = div_nearest_error [of "2 ^ ?j" "n * v"]
  show "2 * w \<le> 2 * (n * v) + 2 ^ 21" "2 * (n * v) \<le> 2 * w + 2 ^ 21" using e j unfolding w(1) by simp_all
qed

lemma numEventLoop_close:
  assumes "0 < m" "m \<le> 100" "n < 2 ^ 20" "fl_product n (fl_quotient m 100) = (w, k)"
  shows "52 \<le> k" "100 * w < (n * m + 1) * 2 ^ k" "n * m * 2 ^ k < 100 * w + 2 ^ k"
proof -
  obtain v l where q: "fl_quotient m 100 = (v, l)" by fastforce
  note a = fl_quotient_100 [OF assms(1,2) q]
  have "fl_product n (v, l) = (w, k)" using assms(4) q by simp
  note b = fl_product_error [OF a(4) assms(3) this]
  show "52 \<le> k" using a(1) b(1) by simp
  have "(2 :: nat) ^ 52 \<le> 2 ^ k" using a(1) b(1) by (intro power_increasing) simp_all
  then have big: "4503599627370496 \<le> (2 :: nat) ^ k" by simp
  have up: "n * (200 * v) \<le> n * (2 * (m * 2 ^ k) + 100)" and lo: "n * (2 * (m * 2 ^ k)) \<le> n * (200 * v + 100)"
    using a(2,3) b(1) by (simp_all only: mult_le_mono2)
  have n: "n * 100 \<le> 104857600" using assms(3) by simp
  have "200 * w \<le> 200 * (n * v) + 100 * 2 ^ 21" using b(2) by linarith
  also have "\<dots> \<le> 2 * (n * m * 2 ^ k) + n * 100 + 100 * 2 ^ 21" using up by (simp add: algebra_simps)
  finally have "200 * w < 2 * (n * m * 2 ^ k) + 2 * 2 ^ k" using n big by simp
  then show "100 * w < (n * m + 1) * 2 ^ k" by (simp add: algebra_simps)
  have "2 * (n * m * 2 ^ k) \<le> 200 * (n * v) + n * 100" using lo by (simp add: algebra_simps)
  also have "\<dots> \<le> 200 * w + 100 * 2 ^ 21 + n * 100" using b(3) by linarith
  finally have "2 * (n * m * 2 ^ k) < 2 * (100 * w) + 2 * 2 ^ k" using n big by simp
  then show "n * m * 2 ^ k < 100 * w + 2 ^ k" by linarith
qed


lemma fl_Ceil_bounds:
  shows "w \<le> c * 2 ^ k \<Longrightarrow> fl_Ceil (w, k) \<le> c" "c * 2 ^ k < w + 2 ^ k \<Longrightarrow> c \<le> fl_Ceil (w, k)"
proof -
  have p: "0 < (2 :: nat) ^ k" by simp
  show "fl_Ceil (w, k) \<le> c" if "w \<le> c * 2 ^ k"
  proof -
    have "w + 2 ^ k - 1 < c * 2 ^ k + 2 ^ k" using that p by linarith
    then have "w + 2 ^ k - 1 < (c + 1) * 2 ^ k" by (simp only: add_mult_distrib mult_1)
    then have "(w + 2 ^ k - 1) div 2 ^ k < c + 1" by (rule less_mult_imp_div_less)
    then show ?thesis by (simp add: fl_Ceil_def)
  qed
  show "c \<le> fl_Ceil (w, k)" if "c * 2 ^ k < w + 2 ^ k"
    using that p by (simp add: fl_Ceil_def less_eq_div_iff_mult_less_eq)
qed

section \<open>The engine, the agent and the timer\<close>

text \<open>
  The handle of gnet's engine in the struct \<^verbatim>\<open>Server\<close>: set when gnet boots, asked for the number of connections and told to stop. What gnet
  answers, also to the handle before the boot (\<open>None\<close>), is a parameter.
\<close>

record 'e engine_ops =
  CountConnections :: "'e option \<Rightarrow> int"
  Engine_Stop :: "'e option \<Rightarrow> string option"

definition server_OnBoot :: "'e \<Rightarrow> 'e option \<Rightarrow> 'e option" where "server_OnBoot eng _ = Some eng"

definition server_OnlineNum :: "'e engine_ops \<Rightarrow> 'e option \<Rightarrow> int" where "server_OnlineNum ops eng = CountConnections ops eng"

definition server_Shutdown :: "'e engine_ops \<Rightarrow> 'e option \<Rightarrow> string option" where "server_Shutdown ops eng = Engine_Stop ops eng"

text \<open>
  \<^verbatim>\<open>pprof\<close>: what is logged. \<open>err\<close> is what \<^verbatim>\<open>agent.Listen\<close> returns. The event for the error is built and never sent, for want of a
  call of \<^verbatim>\<open>Msg\<close>.
\<close>

definition pprof :: "string \<Rightarrow> string option \<Rightarrow> string list" where
  "pprof address err =
     (if address = '''' then []
      else [''gops start, eg: gops memstats '' @ address] @ (case err of None \<Rightarrow> [] | Some _ \<Rightarrow> []))"

text \<open>The timer wheel runs from the start; a goroutine stops it as soon as \<^verbatim>\<open>ClosedCh\<close> is closed.\<close>

record gtimer =
  tmRunning :: bool
  tmWaiting :: bool

definition timer_init :: gtimer where "timer_init = \<lparr>tmRunning = True, tmWaiting = True\<rparr>"

definition timer_watch :: "quitst \<Rightarrow> gtimer \<Rightarrow> gtimer option" where
  "timer_watch q t = (if tmWaiting t \<and> qClosed q then Some (t\<lparr>tmRunning := False, tmWaiting := False\<rparr>) else None)"

lemma pprof_silent: "pprof address (Some err) = pprof address None"
  by (simp add: pprof_def)

lemma timer_stops_with_process:
  "timer_watch (on_signal sig quit_init) timer_init = (if sig = SIGHUP then None else Some \<lparr>tmRunning = False, tmWaiting = False\<rparr>)"
  by (simp add: timer_watch_def timer_init_def on_signal_def quit_init_def)

section \<open>Properties\<close>

text \<open>
  The rounding of the percentage costs at most one event loop: for every setting that the configuration admits and fewer than \<open>2 ^ 20\<close> processors, gnet
  is asked for at least one loop, and for the share of the processors rounded up, or one more; the latter only when the share is a whole number.
\<close>

theorem numEventLoop_bounds:
  assumes "m \<le> 100" "0 < n" "n < 2 ^ 20"
  shows "1 \<le> numEventLoop n m \<and>
     (0 < m \<longrightarrow> (n * m + 99) div 100 \<le> numEventLoop n m \<and> numEventLoop n m \<le> (n * m + 99) div 100 + of_bool (100 dvd n * m))"
proof (cases "m = 0")
  case True
  then show ?thesis by (simp add: numEventLoop_def)
next
  case False
  obtain w k where p: "fl_product n (fl_quotient m 100) = (w, k)" by fastforce
  note c = numEventLoop_close [OF _ assms(1,3) p]
  let ?c = "(n * m + 99) div 100" and ?N = "n * m"
  have N: "0 < ?N" using False assms(2) by simp
  have e: "numEventLoop n m = fl_Ceil (w, k)" using False p by (simp add: numEventLoop_def)
  have lo: "100 * ?c \<le> ?N + 99" and hi: "?N \<le> 100 * ?c" by linarith+
  have "100 * (?c * 2 ^ k) \<le> (?N + 99) * 2 ^ k" using mult_le_mono1 [OF lo, of "2 ^ k"] by (simp add: algebra_simps)
  then have "100 * (?c * 2 ^ k) < 100 * (w + 2 ^ k)" using c(3) False by (simp add: algebra_simps)
  then have "?c \<le> fl_Ceil (w, k)" by (intro fl_Ceil_bounds(2)) simp
  moreover have "fl_Ceil (w, k) \<le> ?c + of_bool (100 dvd ?N)"
  proof (intro fl_Ceil_bounds(1))
    have "?N + 1 \<le> 100 * (?c + of_bool (100 dvd ?N))"
    proof (cases "100 dvd ?N")
      case False
      then have "?N \<noteq> 100 * ?c" by (metis dvd_triv_left)
      then show ?thesis using hi False by simp
    qed (use hi in simp)
    then have "(?N + 1) * 2 ^ k \<le> 100 * (?c + of_bool (100 dvd ?N)) * 2 ^ k" by (rule mult_le_mono1)
    then have "100 * w < 100 * ((?c + of_bool (100 dvd ?N)) * 2 ^ k)" using c(2) False by (simp only: mult.assoc) linarith
    then show "w \<le> (?c + of_bool (100 dvd ?N)) * 2 ^ k" by simp
  qed
  moreover have "1 \<le> ?c" using N by linarith
  ultimately show ?thesis unfolding e by linarith
qed

text \<open>The extra loop does occur.\<close>

lemma floorlog_is: "2 ^ b \<le> x \<Longrightarrow> x < 2 ^ Suc b \<Longrightarrow> floorlog 2 x = Suc b"
proof -
  assume "2 ^ b \<le> x" "x < 2 ^ Suc b"
  then have "\<not> floorlog 2 x \<le> b" "floorlog 2 x \<le> Suc b" by (simp_all add: floorlog_le_iff)
  then show ?thesis by simp
qed

lemma extra_loop: "numEventLoop 25 28 = 8"
proof -
  have "floorlog 2 28 = 5" "floorlog 2 100 = 7" by (simp_all add: compute_floorlog)
  then have q: "fl_quotient 28 100 = (5044031582654956, 54)" by (simp add: fl_quotient_def div_nearest_def)
  have "floorlog 2 126100789566373900 = Suc 56" by (rule floorlog_is) simp_all
  then show ?thesis by (simp add: numEventLoop_def q fl_product_def fl_Ceil_def div_nearest_def)
qed

end
