(* ===== verification/PacketPool.thy ===== *)
theory PacketPool
  imports RedisSink
begin

text \<open>
  The memory behind packets. \<^verbatim>\<open>src/internal/queue/internal/packet.go\<close> and \<^verbatim>\<open>src/internal/worker/packet.go\<close> marshal messages into
  byte slices of the pool \<^verbatim>\<open>byteslice\<close> and recycle both the slices and the packets, while many goroutines hold packets. The other theories take a
  packet's bytes as a value; here is why they may: as long as a packet is held, nobody writes to its memory.
  Backing arrays are blocks of a memory, a slice is a block and a length. The pool \<^verbatim>\<open>byteslice\<close> of gnet is a parameter.
\<close>

section \<open>Memory\<close>

text \<open>The arrays, the blocks that the pool has, and the next block that does not exist yet.\<close>

record bmem =
  bArr :: "nat \<Rightarrow> bytes"
  bFree :: "nat set"
  bNext :: nat

type_synonym slice = "nat \<times> nat"

definition contents :: "bmem \<Rightarrow> slice \<Rightarrow> bytes" where
  "contents m = (\<lambda>(k, n). take n (bArr m k))"

record byteslice =
  bsGet :: "nat \<Rightarrow> bmem \<Rightarrow> nat \<times> bmem"
  bsPut :: "nat \<Rightarrow> bmem \<Rightarrow> bmem"

text \<open>
  What \<^verbatim>\<open>byteslice\<close> promises: \<^verbatim>\<open>Get(n)\<close> hands out an array of at least \<open>n\<close> bytes, a recycled one or a new one, whatever it
  holds; \<^verbatim>\<open>Put\<close> keeps an array for later or drops it.
\<close>

definition bs_laws :: "byteslice \<Rightarrow> bool" where
  "bs_laws bs \<longleftrightarrow>
     (\<forall>n m k m'. bsGet bs n m = (k, m') \<longrightarrow> n \<le> length (bArr m' k) \<and> (\<forall>j. j \<noteq> k \<longrightarrow> bArr m' j = bArr m j) \<and>
        (k \<in> bFree m \<and> bFree m' = bFree m - {k} \<and> bNext m' = bNext m \<or> k = bNext m \<and> bFree m' = bFree m \<and> bNext m' = Suc (bNext m))) \<and>
     (\<forall>k m. bFree (bsPut bs k m) \<subseteq> insert k (bFree m) \<and> bNext (bsPut bs k m) = bNext m \<and> bArr (bsPut bs k m) = bArr m)"

text \<open>\<^verbatim>\<open>make([]byte, n)\<close>, \<^verbatim>\<open>append\<close> and writing into a slice.\<close>

definition go_make :: "nat \<Rightarrow> bmem \<Rightarrow> nat \<times> bmem" where
  "go_make n m = (bNext m, m\<lparr>bArr := (bArr m)(bNext m := replicate n 0), bNext := Suc (bNext m)\<rparr>)"

definition go_append :: "slice \<Rightarrow> bytes \<Rightarrow> bmem \<Rightarrow> slice \<times> bmem" where
  "go_append = (\<lambda>(k, n) xs m.
     if n + length xs \<le> length (bArr m k)
     then ((k, n + length xs), m\<lparr>bArr := (bArr m)(k := take n (bArr m k) @ xs @ drop (n + length xs) (bArr m k))\<rparr>)
     else ((bNext m, n + length xs), m\<lparr>bArr := (bArr m)(bNext m := take n (bArr m k) @ xs), bNext := Suc (bNext m)\<rparr>))"

definition write_front :: "nat \<Rightarrow> bytes \<Rightarrow> bmem \<Rightarrow> bmem" where
  "write_front k xs m = m\<lparr>bArr := (bArr m)(k := xs @ drop (length xs) (bArr m k))\<rparr>"

section \<open>The packets of the queues\<close>

record qpacket =
  qMessage :: "slice option"
  qFromPool :: bool

definition newQPacket :: qpacket where "newQPacket = \<lparr>qMessage = None, qFromPool = False\<rparr>"

definition QPacket_reset :: "byteslice \<Rightarrow> qpacket \<times> bmem \<Rightarrow> qpacket \<times> bmem" where
  "QPacket_reset bs = (\<lambda>(pkg, m).
     (\<lparr>qMessage = None, qFromPool = False\<rparr>, case qMessage pkg of Some (k, _) \<Rightarrow> if qFromPool pkg then bsPut bs k m else m | None \<Rightarrow> m))"

text \<open>\<^verbatim>\<open>opts.Size\<close> and \<^verbatim>\<open>opts.MarshalAppend\<close> are parameters; the former need not be exact.\<close>

definition QPacket_Set :: "byteslice \<Rightarrow> ('m \<Rightarrow> nat) \<Rightarrow> ('m \<Rightarrow> bytes option) \<Rightarrow> 'm \<Rightarrow> cmd \<Rightarrow> qpacket \<times> bmem \<Rightarrow> bool \<times> qpacket \<times> bmem" where
  "QPacket_Set bs size_of marshal message c = (\<lambda>(pkg, m).
     let sz = size_of message
     in if sz > 0
        then (let (pooled, m) = bsGet bs (sz + 4) m
              in case marshal message of
                   None \<Rightarrow> (False, pkg, bsPut bs pooled m)
                 | Some b \<Rightarrow>
                     (let ((k, n), m) = go_append (pooled, 4) b m;
                          (fromPool, m) = (if k \<noteq> pooled then (False, bsPut bs pooled m) else (True, m))
                      in (True, \<lparr>qMessage = Some (k, n), qFromPool = fromPool\<rparr>, write_front k (PutUint32 c) m)))
        else (let (k, m) = go_make 4 m
              in case marshal message of
                   None \<Rightarrow> (False, pkg, m)
                 | Some b \<Rightarrow>
                     (let ((k, n), m) = go_append (k, 4) b m
                      in (True, \<lparr>qMessage = Some (k, n), qFromPool = False\<rparr>, write_front k (PutUint32 c) m))))"

section \<open>The packets of the business connections\<close>

text \<open>The header array belongs to the packet for good.\<close>

record wpacket =
  wHeader :: bytes
  wBody :: "slice option"
  wFromPool :: bool

definition newWPacket :: wpacket where "newWPacket = \<lparr>wHeader = replicate 8 0, wBody = None, wFromPool = False\<rparr>"

definition WPacket_reset :: "byteslice \<Rightarrow> wpacket \<times> bmem \<Rightarrow> wpacket \<times> bmem" where
  "WPacket_reset bs = (\<lambda>(pkg, m).
     (pkg\<lparr>wHeader := take 8 (wHeader pkg), wBody := None, wFromPool := False\<rparr>, 
      case wBody pkg of Some (k, _) \<Rightarrow> if wFromPool pkg then bsPut bs k m else m | None \<Rightarrow> m))"

definition WPacket_set :: "byteslice \<Rightarrow> ('m \<Rightarrow> nat) \<Rightarrow> ('m \<Rightarrow> bytes option) \<Rightarrow> 'm \<Rightarrow> cmd \<Rightarrow> wpacket \<times> bmem \<Rightarrow> bool \<times> wpacket \<times> bmem" where
  "WPacket_set bs size_of marshal message c = (\<lambda>(pkg, m).
     let sz = size_of message;
         header = (\<lambda>n. PutUint32 (of_nat (n + 4)) @ PutUint32 c)
     in if sz > 0
        then (let (pooled, m) = bsGet bs sz m
              in case marshal message of
                   None \<Rightarrow> (False, pkg, bsPut bs pooled m)
                 | Some b \<Rightarrow>
                     (let ((k, n), m) = go_append (pooled, 0) b m;
                          (fromPool, m) = (if k \<noteq> pooled then (False, bsPut bs pooled m) else (True, m))
                      in (True, \<lparr>wHeader = header n, wBody = Some (k, n), wFromPool = fromPool\<rparr>, m)))
        else (case marshal message of
                None \<Rightarrow> (False, pkg, m)
              | Some b \<Rightarrow>
                  (let (k, m) = go_make 0 m;
                       ((k, n), m) = go_append (k, 0) b m
                   in (True, \<lparr>wHeader = header n, wBody = Some (k, n), wFromPool = False\<rparr>, m))))"

section \<open>Getting, filling and giving back packets\<close>

text \<open>What \<^verbatim>\<open>packetPool\<close> and its users need of a kind of packet.\<close>

record ('m, 'p) packet_ops =
  opNew :: 'p
  opSet :: "'m \<Rightarrow> cmd \<Rightarrow> 'p \<times> bmem \<Rightarrow> bool \<times> 'p \<times> bmem"
  opReset :: "'p \<times> bmem \<Rightarrow> 'p \<times> bmem"
  opBytes :: "bmem \<Rightarrow> 'p \<Rightarrow> bytes"

record 'p pksys =
  pkMem :: bmem
  pkObj :: "nat \<Rightarrow> 'p"
  pkIdle :: "nat list"
  pkHeld :: "nat list"
  pkNew :: nat

text \<open>\<^verbatim>\<open>sync.Pool.Get\<close> with its \<^verbatim>\<open>New\<close>: an idle packet if there is one and the pool finds it, else a new one.\<close>

definition pool_Get :: "('m, 'p) packet_ops \<Rightarrow> bool \<Rightarrow> 'p pksys \<Rightarrow> nat \<times> 'p pksys" where
  "pool_Get po found s = (case pkIdle s of
      i # is \<Rightarrow> if found then (i, s\<lparr>pkIdle := is\<rparr>)
                else (pkNew s, s\<lparr>pkObj := (pkObj s)(pkNew s := opNew po), pkNew := Suc (pkNew s)\<rparr>)
    | [] \<Rightarrow> (pkNew s, s\<lparr>pkObj := (pkObj s)(pkNew s := opNew po), pkNew := Suc (pkNew s)\<rparr>))"

definition pool_Put :: "('m, 'p) packet_ops \<Rightarrow> nat \<Rightarrow> 'p pksys \<Rightarrow> 'p pksys" where
  "pool_Put po i s =
     (let (p, m) = opReset po (pkObj s i, pkMem s)
      in s\<lparr>pkMem := m, pkObj := (pkObj s)(i := p), pkIdle := i # pkIdle s\<rparr>)"

text \<open>The part of \<^verbatim>\<open>Send\<close> that handles the packet: it is given back at once unless the queue has taken it.\<close>

definition pool_Send :: "('m, 'p) packet_ops \<Rightarrow> bool \<Rightarrow> bool \<Rightarrow> 'm \<Rightarrow> cmd \<Rightarrow> 'p pksys \<Rightarrow> 'p pksys" where
  "pool_Send po found enqueued message c s =
     (let (i, s) = pool_Get po found s;
          (ok, p, m) = opSet po message c (pkObj s i, pkMem s);
          s = s\<lparr>pkMem := m, pkObj := (pkObj s)(i := p)\<rparr>
      in if ok \<and> enqueued then s\<lparr>pkHeld := pkHeld s @ [i]\<rparr> else pool_Put po i s)"

text \<open>The sending goroutine is done with the packet.\<close>

definition pool_Done :: "('m, 'p) packet_ops \<Rightarrow> nat \<Rightarrow> 'p pksys \<Rightarrow> 'p pksys" where
  "pool_Done po j s = pool_Put po (pkHeld s ! j) (s\<lparr>pkHeld := take j (pkHeld s) @ drop (Suc j) (pkHeld s)\<rparr>)"

text \<open>
  Runs: packets are filled and taken by the queue or not, given back in any order, and forgotten by the pool. Beside the state, the messages
  that were put into the packets that are held.
\<close>

inductive pool_run :: "('m, 'p) packet_ops \<Rightarrow> 'p pksys \<Rightarrow> 'p pksys \<Rightarrow> ('m \<times> cmd) list \<Rightarrow> bool" for po s0 where
  start: "pool_run po s0 s0 []"
| sent: "pool_run po s0 s ds \<Longrightarrow> s' = pool_Send po found enqueued msg c s \<Longrightarrow> length (pkHeld s') = Suc (length (pkHeld s)) \<Longrightarrow>
    pool_run po s0 s' (ds @ [(msg, c)])"
| refused: "pool_run po s0 s ds \<Longrightarrow> s' = pool_Send po found enqueued msg c s \<Longrightarrow> pkHeld s' = pkHeld s \<Longrightarrow> pool_run po s0 s' ds"
| given_back: "pool_run po s0 s ds \<Longrightarrow> j < length (pkHeld s) \<Longrightarrow> pool_run po s0 (pool_Done po j s) (take j ds @ drop (Suc j) ds)"
| dropped: "pool_run po s0 s ds \<Longrightarrow> pkIdle s = xs @ i # ys \<Longrightarrow> pool_run po s0 (s\<lparr>pkIdle := xs @ ys\<rparr>) ds"

section \<open>The contract of a kind of packet\<close>

definition mem_ok :: "bmem \<Rightarrow> bool" where
  "mem_ok m \<longleftrightarrow> (\<forall>k \<in> bFree m. k < bNext m)"

text \<open>
  \<open>blocks\<close> are the arrays that a packet refers to. Filling a packet uses only arrays that nobody has; emptying it gives
  back at most its own; its bytes depend on its own arrays alone.
\<close>

locale pooled_packet =
  fixes po :: "('m, 'p) packet_ops" and blocks :: "'p \<Rightarrow> nat set" and val :: "'m \<Rightarrow> cmd \<Rightarrow> bytes option" and law :: bool
  assumes new: "blocks (opNew po) = {}"
    and set_ok: "law \<Longrightarrow> opSet po msg c (p, m) = (ok, p', m') \<Longrightarrow> blocks p = {} \<Longrightarrow> mem_ok m \<Longrightarrow>
      mem_ok m' \<and> bNext m \<le> bNext m' \<and> bFree m' \<subseteq> bFree m \<union> {bNext m ..< bNext m'} \<and>
      blocks p' \<inter> bFree m' = {} \<and> blocks p' \<subseteq> bFree m \<union> {bNext m ..< bNext m'} \<and>
      (\<forall>j < bNext m. j \<notin> bFree m \<longrightarrow> bArr m' j = bArr m j)"
    and set_val: "law \<Longrightarrow> opSet po msg c (p, m) = (ok, p', m') \<Longrightarrow> blocks p = {} \<Longrightarrow> mem_ok m \<Longrightarrow> (if ok then Some (opBytes po m' p') else None) = val msg c"
    and reset_ok: "law \<Longrightarrow> opReset po (p, m) = (p', m') \<Longrightarrow>
      blocks p' = {} \<and> bArr m' = bArr m \<and> bNext m' = bNext m \<and> bFree m' \<subseteq> bFree m \<union> blocks p"
    and own: "(\<And>j. j \<in> blocks p \<Longrightarrow> bArr m j = bArr m' j) \<Longrightarrow> opBytes po m p = opBytes po m' p"
begin

definition pool_ok :: "'p pksys \<Rightarrow> bytes list \<Rightarrow> bool" where
  "pool_ok s ds \<longleftrightarrow> mem_ok (pkMem s) \<and> distinct (pkIdle s @ pkHeld s) \<and> (\<forall>i \<in> set (pkIdle s @ pkHeld s). i < pkNew s) \<and>
     (\<forall>i \<in> set (pkIdle s). blocks (pkObj s i) = {}) \<and>
     (\<forall>i \<in> set (pkHeld s). blocks (pkObj s i) \<inter> bFree (pkMem s) = {} \<and> blocks (pkObj s i) \<subseteq> {..< bNext (pkMem s)}) \<and>
     (\<forall>i \<in> set (pkHeld s). \<forall>j \<in> set (pkHeld s). i \<noteq> j \<longrightarrow> blocks (pkObj s i) \<inter> blocks (pkObj s j) = {}) \<and>
     ds = map (\<lambda>i. opBytes po (pkMem s) (pkObj s i)) (pkHeld s)"

text \<open>A packet in the hands of a goroutine: neither idle nor held, with arrays of its own.\<close>

definition in_hand :: "'p pksys \<Rightarrow> nat \<Rightarrow> bool" where
  "in_hand s i \<longleftrightarrow> i \<notin> set (pkIdle s @ pkHeld s) \<and> i < pkNew s \<and> blocks (pkObj s i) \<inter> bFree (pkMem s) = {} \<and>
     blocks (pkObj s i) \<subseteq> {..< bNext (pkMem s)} \<and> (\<forall>j \<in> set (pkHeld s). blocks (pkObj s i) \<inter> blocks (pkObj s j) = {})"

lemma pool_ok_bytes: "pool_ok s ds \<Longrightarrow> ds = map (\<lambda>i. opBytes po (pkMem s) (pkObj s i)) (pkHeld s)"
  by (simp add: pool_ok_def)

lemma pool_ok_Get:
  assumes "pool_ok s ds" "pool_Get po found s = (i, s')"
  shows "pool_ok s' ds \<and> in_hand s' i \<and> blocks (pkObj s' i) = {} \<and> pkHeld s' = pkHeld s"
proof -
  consider xs where "pkIdle s = i # xs" "s' = s\<lparr>pkIdle := xs\<rparr>"
    | "i = pkNew s" "s' = s\<lparr>pkObj := (pkObj s)(pkNew s := opNew po), pkNew := Suc (pkNew s)\<rparr>"
    using assms(2) by (auto simp: pool_Get_def split: list.splits if_splits)
  then show ?thesis
  proof cases
    case 1
    then show ?thesis using assms(1) by (auto simp: pool_ok_def in_hand_def)
  next
    case 2
    have "pkNew s \<notin> set (pkIdle s @ pkHeld s)" using assms(1) by (auto simp: pool_ok_def)
    then show ?thesis using assms(1) new unfolding 2 pool_ok_def in_hand_def by (auto simp: less_Suc_eq)
  qed
qed

lemma pool_ok_set:
  assumes law: law and ok: "pool_ok s ds" and h: "in_hand s i" "blocks (pkObj s i) = {}"
    and set: "opSet po msg c (pkObj s i, pkMem s) = (b, p, m)" and s': "s' = s\<lparr>pkMem := m, pkObj := (pkObj s)(i := p)\<rparr>"
  shows "pool_ok s' ds \<and> in_hand s' i"
proof -
  have f: "mem_ok m" "bNext (pkMem s) \<le> bNext m" "bFree m \<subseteq> bFree (pkMem s) \<union> {bNext (pkMem s) ..< bNext m}" "blocks p \<inter> bFree m = {}"
    "blocks p \<subseteq> bFree (pkMem s) \<union> {bNext (pkMem s) ..< bNext m}" "\<And>j. j < bNext (pkMem s) \<Longrightarrow> j \<notin> bFree (pkMem s) \<Longrightarrow> bArr m j = bArr (pkMem s) j"
    using set_ok [OF law set h(2)] ok by (auto simp: pool_ok_def)
  have i: "i \<notin> set (pkIdle s)" "i \<notin> set (pkHeld s)" using h(1) by (simp_all add: in_hand_def)
  have b: "blocks (pkObj s j) \<inter> bFree (pkMem s) = {}" "blocks (pkObj s j) \<subseteq> {..< bNext (pkMem s)}" if "j \<in> set (pkHeld s)" for j
    using ok that by (simp_all add: pool_ok_def)
  have obj: "pkObj s' j = pkObj s j" if "j \<noteq> i" for j using that by (simp add: s')
  have d: "blocks (pkObj s j) \<inter> bFree m = {}" "blocks (pkObj s j) \<subseteq> {..< bNext m}" "blocks p \<inter> blocks (pkObj s j) = {}" if "j \<in> set (pkHeld s)" for j
    using b [OF that] f(2,3,5) by fastforce+
  have "opBytes po m (pkObj s j) = opBytes po (pkMem s) (pkObj s j)" if "j \<in> set (pkHeld s)" for j
    by (rule own) (use b [OF that] f(6) in blast)
  then have by': "map (\<lambda>j. opBytes po m (pkObj s' j)) (pkHeld s) = map (\<lambda>j. opBytes po (pkMem s) (pkObj s j)) (pkHeld s)"
    using obj i(2) by (intro map_cong refl) metis
  have "mem_ok (pkMem s)" using ok by (simp add: pool_ok_def)
  then have "blocks p \<subseteq> {..< bNext m}" using f(2,5) by (fastforce simp: mem_ok_def)
  then have hand: "in_hand s' i" using h(1) f(4) d(3) obj i unfolding in_hand_def s' by auto
  have "pool_ok s' ds"
    using ok f(1) d(1,2) i obj by' unfolding pool_ok_def s' by auto
  with hand show ?thesis by blast
qed

lemma pool_ok_Put:
  assumes law: law and ok: "pool_ok s ds" and h: "in_hand s i"
  shows "pool_ok (pool_Put po i s) ds"
proof -
  obtain p m where r: "opReset po (pkObj s i, pkMem s) = (p, m)" by (cases "opReset po (pkObj s i, pkMem s)")
  have f: "blocks p = {}" "bArr m = bArr (pkMem s)" "bNext m = bNext (pkMem s)" "bFree m \<subseteq> bFree (pkMem s) \<union> blocks (pkObj s i)"
    using reset_ok [OF law r] by simp_all
  have i: "i \<notin> set (pkIdle s)" "i \<notin> set (pkHeld s)" using h by (simp_all add: in_hand_def)
  have "opBytes po m q = opBytes po (pkMem s) q" for q by (rule own) (simp add: f(2))
  then have by': "map (\<lambda>j. opBytes po m (((pkObj s)(i := p)) j)) (pkHeld s) = map (\<lambda>j. opBytes po (pkMem s) (pkObj s j)) (pkHeld s)"
    using i(2) by (intro map_cong) auto
  have "mem_ok m" using ok h f(3,4) unfolding pool_ok_def in_hand_def mem_ok_def by fastforce
  moreover have "blocks (pkObj s j) \<inter> bFree m = {}" if "j \<in> set (pkHeld s)" for j
    using ok h f(4) that unfolding pool_ok_def in_hand_def by fastforce
  ultimately show ?thesis
    using ok h f(1,3) i by' unfolding pool_ok_def in_hand_def pool_Put_def r by auto
qed

lemma pool_ok_hold:
  assumes "pool_ok s ds" "in_hand s i"
  shows "pool_ok (s\<lparr>pkHeld := pkHeld s @ [i]\<rparr>) (ds @ [opBytes po (pkMem s) (pkObj s i)])"
  using assms unfolding pool_ok_def in_hand_def by auto

lemma pool_ok_fewer:
  assumes "pool_ok s ds" "set hs \<subseteq> set (pkHeld s)" "distinct hs" "ds' = map (\<lambda>i. opBytes po (pkMem s) (pkObj s i)) hs"
  shows "pool_ok (s\<lparr>pkHeld := hs\<rparr>) ds'"
proof -
  have "set (pkIdle s) \<inter> set hs = {}" "\<forall>i \<in> set hs. i < pkNew s"
    "\<forall>i \<in> set hs. blocks (pkObj s i) \<inter> bFree (pkMem s) = {} \<and> blocks (pkObj s i) \<subseteq> {..< bNext (pkMem s)}"
    using assms(1,2) unfolding pool_ok_def by auto
  moreover have "\<forall>i \<in> set hs. \<forall>j \<in> set hs. i \<noteq> j \<longrightarrow> blocks (pkObj s i) \<inter> blocks (pkObj s j) = {}"
    using assms(1,2) unfolding pool_ok_def by (meson subsetD)
  ultimately show ?thesis using assms(1,3,4) unfolding pool_ok_def by auto
qed

lemma pool_ok_release:
  assumes ok: "pool_ok s ds" and j: "j < length (pkHeld s)"
  defines "s' \<equiv> s\<lparr>pkHeld := take j (pkHeld s) @ drop (Suc j) (pkHeld s)\<rparr>"
  shows "pool_ok s' (take j ds @ drop (Suc j) ds) \<and> in_hand s' (pkHeld s ! j)"
proof -
  let ?i = "pkHeld s ! j"
  have h: "pkHeld s = take j (pkHeld s) @ ?i # drop (Suc j) (pkHeld s)" by (rule id_take_nth_drop [OF j])
  have dist: "distinct (take j (pkHeld s) @ ?i # drop (Suc j) (pkHeld s))" using ok h by (simp add: pool_ok_def)
  have sub: "set (take j (pkHeld s) @ drop (Suc j) (pkHeld s)) \<subseteq> set (pkHeld s)" by (auto dest: in_set_takeD in_set_dropD)
  have ni: "?i \<notin> set (take j (pkHeld s) @ drop (Suc j) (pkHeld s))" using dist by auto
  have i: "?i \<in> set (pkHeld s)" using j by simp
  have "pool_ok s' (take j ds @ drop (Suc j) ds)"
    unfolding s'_def
  proof (rule pool_ok_fewer [OF ok sub])
    show "distinct (take j (pkHeld s) @ drop (Suc j) (pkHeld s))" using dist by auto
    show "take j ds @ drop (Suc j) ds = map (\<lambda>i. opBytes po (pkMem s) (pkObj s i)) (take j (pkHeld s) @ drop (Suc j) (pkHeld s))"
      unfolding pool_ok_bytes [OF ok] by (simp add: take_map drop_map)
  qed
  moreover have "in_hand s' ?i"
  proof -
    have "?i \<notin> set (pkIdle s)" using ok i by (auto simp: pool_ok_def)
    moreover have "blocks (pkObj s ?i) \<inter> blocks (pkObj s k) = {}" if "k \<in> set (take j (pkHeld s) @ drop (Suc j) (pkHeld s))" for k
    proof -
      have "k \<in> set (pkHeld s)" "k \<noteq> ?i" using that sub ni by auto
      then show ?thesis using ok i unfolding pool_ok_def by metis
    qed
    ultimately show ?thesis using ok i ni unfolding pool_ok_def in_hand_def s'_def by auto
  qed
  ultimately show ?thesis ..
qed

lemma pool_ok_Send:
  assumes law: law and "pool_ok s ds" "s' = pool_Send po found enqueued msg c s"
  shows "pkHeld s' = pkHeld s \<and> pool_ok s' ds \<or>
    (\<exists>i. pkHeld s' = pkHeld s @ [i] \<and> val msg c = Some (opBytes po (pkMem s') (pkObj s' i)) \<and> pool_ok s' (ds @ [opBytes po (pkMem s') (pkObj s' i)]))"
proof -
  obtain i s1 where g: "pool_Get po found s = (i, s1)" by (cases "pool_Get po found s")
  obtain b p m where o': "opSet po msg c (pkObj s1 i, pkMem s1) = (b, p, m)" by (cases "opSet po msg c (pkObj s1 i, pkMem s1)") auto
  define s2 where "s2 = s1\<lparr>pkMem := m, pkObj := (pkObj s1)(i := p)\<rparr>"
  note a = pool_ok_Get [OF assms(2) g]
  have b2: "pool_ok s2 ds" "in_hand s2 i" using pool_ok_set [OF law _ _ _ o' s2_def] a by blast+
  have h2: "pkHeld s2 = pkHeld s" "pkMem s2 = m" "pkObj s2 i = p" using a by (simp_all add: s2_def)
  have s': "s' = (if b \<and> enqueued then s2\<lparr>pkHeld := pkHeld s2 @ [i]\<rparr> else pool_Put po i s2)"
    unfolding assms(3) pool_Send_def g Let_def by (simp add: o' s2_def)
  show ?thesis
  proof (cases "b \<and> enqueued")
    case True
    have "mem_ok (pkMem s1)" using a by (simp add: pool_ok_def)
    then have "val msg c = Some (opBytes po m p)" using set_val [OF law o'] a True by simp
    then show ?thesis using pool_ok_hold [OF b2] True h2 unfolding s' by simp
  next
    case False
    have "pkHeld (pool_Put po i s2) = pkHeld s2" by (simp add: pool_Put_def case_prod_unfold Let_def)
    moreover have "s' = pool_Put po i s2" unfolding s' by (simp only: False if_False)
    ultimately show ?thesis using pool_ok_Put [OF law b2] h2(1) by simp
  qed
qed

lemma run_ok:
  assumes law: law and "pool_run po s0 s ms" "pool_ok s0 []"
  shows "\<exists>ds. pool_ok s ds \<and> map Some ds = map (\<lambda>(msg, c). val msg c) ms"
  using assms(2,3)
proof (induction rule: pool_run.induct)
  case start
  then show ?case by auto
next
  case (sent s ms s' found enqueued msg c)
  obtain ds where d: "pool_ok s ds" "map Some ds = map (\<lambda>(msg, c). val msg c) ms" using sent.IH sent.prems by blast
  obtain b where "pool_ok s' (ds @ [b])" "val msg c = Some b" using pool_ok_Send [OF law d(1) sent.hyps(2)] sent.hyps(3) by auto
  then show ?case using d(2) by (intro exI [of _ "ds @ [b]"]) simp
next
  case (refused s ms s' found enqueued msg c)
  then show ?case using pool_ok_Send [OF law _ refused.hyps(2)] by auto
next
  case (given_back s ms j)
  obtain ds where d: "pool_ok s ds" "map Some ds = map (\<lambda>(msg, c). val msg c) ms" using given_back.IH given_back.prems by blast
  note r = pool_ok_release [OF d(1) given_back.hyps(2)]
  have "pool_ok (pool_Done po j s) (take j ds @ drop (Suc j) ds)" unfolding pool_Done_def using pool_ok_Put [OF law] r by blast
  moreover have "map Some (take j ds @ drop (Suc j) ds) = map (\<lambda>(msg, c). val msg c) (take j ms @ drop (Suc j) ms)"
    using d(2) by (simp flip: take_map drop_map)
  ultimately show ?case by blast
next
  case (dropped s ms xs i ys)
  then show ?case unfolding pool_ok_def by auto
qed

lemma run_stable:
  assumes law "pool_run po s0 s ms" "pool_ok s0 []"
  shows "map (\<lambda>i. Some (opBytes po (pkMem s) (pkObj s i))) (pkHeld s) = map (\<lambda>(msg, c). val msg c) ms"
    "distinct (pkIdle s @ pkHeld s)"
proof -
  obtain ds where d: "pool_ok s ds" "map Some ds = map (\<lambda>(msg, c). val msg c) ms" using run_ok [OF assms] by blast
  then show "map (\<lambda>i. Some (opBytes po (pkMem s) (pkObj s i))) (pkHeld s) = map (\<lambda>(msg, c). val msg c) ms"
    using pool_ok_bytes [OF d(1)] by (simp flip: d(2))
  show "distinct (pkIdle s @ pkHeld s)" using d(1) by (simp add: pool_ok_def)
qed

lemma pool_ok_empty: "mem_ok (pkMem s) \<Longrightarrow> pkIdle s = [] \<Longrightarrow> pkHeld s = [] \<Longrightarrow> pool_ok s []"
  by (simp add: pool_ok_def)

end

section \<open>Both kinds of packets keep the contract\<close>

lemma bsGet_facts:
  assumes "bs_laws bs" "bsGet bs n m = (k, m')"
  shows "n \<le> length (bArr m' k)" "\<And>j. j \<noteq> k \<Longrightarrow> bArr m' j = bArr m j"
    "k \<in> bFree m \<and> bFree m' = bFree m - {k} \<and> bNext m' = bNext m \<or> k = bNext m \<and> bFree m' = bFree m \<and> bNext m' = Suc (bNext m)"
  using assms unfolding bs_laws_def by blast+

lemma bsPut_facts [simp]:
  assumes "bs_laws bs"
  shows "bNext (bsPut bs k m) = bNext m" "bArr (bsPut bs k m) = bArr m"
  using assms unfolding bs_laws_def by blast+

lemma bsPut_free: "bs_laws bs \<Longrightarrow> bFree (bsPut bs k m) \<subseteq> insert k (bFree m)"
  unfolding bs_laws_def by blast

lemma go_append_facts:
  assumes "go_append (k, n) xs m = ((k', n'), m')" "n \<le> length (bArr m k)"
  shows "take n' (bArr m' k') = take n (bArr m k) @ xs" "n' = n + length xs" "bFree m' = bFree m"
    "k' = k \<and> bNext m' = bNext m \<or> k' = bNext m \<and> bNext m' = Suc (bNext m)" "\<And>j. j \<noteq> k' \<Longrightarrow> bArr m' j = bArr m j"
  using assms by (auto simp: go_append_def split: if_splits)

lemma write_front_facts [simp]:
  "bFree (write_front k xs m) = bFree m" "bNext (write_front k xs m) = bNext m" "j \<noteq> k \<Longrightarrow> bArr (write_front k xs m) j = bArr m j"
  "bArr (write_front k xs m) k = xs @ drop (length xs) (bArr m k)"
  by (simp_all add: write_front_def)

text \<open>The memory after an array \<open>k\<close> of nobody has been taken, perhaps replaced by \<open>k'\<close>, and only those two written.\<close>

definition takes :: "bmem \<Rightarrow> nat \<Rightarrow> bmem \<Rightarrow> bool" where
  "takes m k m' \<longleftrightarrow> mem_ok m \<and> mem_ok m' \<and> bNext m \<le> bNext m' \<and> bFree m' \<subseteq> bFree m \<union> {bNext m ..< bNext m'} \<and> k \<notin> bFree m' \<and>
     (k \<in> bFree m \<or> k \<in> {bNext m ..< bNext m'}) \<and> (\<forall>j < bNext m. j \<notin> bFree m \<longrightarrow> bArr m' j = bArr m j)"

lemma mem_ok_more: "mem_ok m \<Longrightarrow> bFree m' \<subseteq> bFree m \<Longrightarrow> bNext m \<le> bNext m' \<Longrightarrow> mem_ok m'"
  unfolding mem_ok_def by (meson less_le_trans subsetD)

lemma takes_Get:
  assumes "bs_laws bs" "bsGet bs n m = (k, m')" "mem_ok m"
  shows "takes m k m'"
proof -
  note f = bsGet_facts [OF assms(1,2)]
  have le: "bFree m' \<subseteq> bFree m" "bNext m \<le> bNext m'" using f(3) by (elim disjE conjE; simp)+
  then have "mem_ok m'" by (rule mem_ok_more [OF assms(3)])
  moreover have "bArr m' j = bArr m j" if "j < bNext m" "j \<notin> bFree m" for j using f(2) [of j] f(3) that by auto
  moreover have "bNext m \<notin> bFree m" using assms(3) by (auto simp: mem_ok_def)
  ultimately show ?thesis using assms(3) f(3) unfolding takes_def by auto
qed

lemma takes_make: "go_make n m = (k, m') \<Longrightarrow> mem_ok m \<Longrightarrow> takes m k m'"
  using mem_ok_more [of m m'] by (auto simp: go_make_def takes_def mem_ok_def)

lemma takes_bound: "takes m k m' \<Longrightarrow> k < bNext m'"
  unfolding takes_def mem_ok_def by (meson atLeastLessThan_iff less_le_trans)

lemma takes_append:
  assumes "takes m k m1" "go_append (k, n) xs m1 = ((k', n'), m2)" "n \<le> length (bArr m1 k)"
  shows "takes m k' m2" "k \<notin> bFree m2" "k < bNext m2"
proof -
  note f = go_append_facts(3-5) [OF assms(2,3)]
  have k: "k < bNext m1" by (rule takes_bound [OF assms(1)])
  have t: "mem_ok m" "mem_ok m1" "bNext m \<le> bNext m1" "bFree m1 \<subseteq> bFree m \<union> {bNext m ..< bNext m1}" "k \<notin> bFree m1"
    "k \<in> bFree m \<or> k \<in> {bNext m ..< bNext m1}" "\<And>j. j < bNext m \<Longrightarrow> j \<notin> bFree m \<Longrightarrow> bArr m1 j = bArr m j"
    using assms(1) by (auto simp: takes_def)
  have m2: "mem_ok m2" by (rule mem_ok_more [OF t(2)]) (use f in auto)
  have arr: "bArr m2 j = bArr m j" if "j < bNext m" "j \<notin> bFree m" for j
    using f(2) f(3) [of j] t(3,6,7) that by fastforce
  have "k' \<notin> bFree m2" using f(1,2) t(2,5) by (auto simp: mem_ok_def)
  moreover have "k' \<in> bFree m \<or> k' \<in> {bNext m ..< bNext m2}" using f(2) t(3,6) by auto
  moreover have "bFree m2 \<subseteq> bFree m \<union> {bNext m ..< bNext m2}" using f(1,2) t(4) by fastforce
  moreover have "bNext m \<le> bNext m2" using f(2) t(3) by auto
  ultimately show "takes m k' m2" using t(1) m2 arr unfolding takes_def by blast
  show "k \<notin> bFree m2" "k < bNext m2" using f(1,2) t(5) k by auto
qed

text \<open>Giving back another array that was taken, and writing into the one that is kept.\<close>

lemma takes_Put:
  assumes "bs_laws bs" "takes m k m1" "k0 \<noteq> k" "k0 < bNext m1" "k0 \<in> bFree m \<or> bNext m \<le> k0"
  shows "takes m k (bsPut bs k0 m1)"
proof -
  note f = bsPut_free [OF assms(1), of k0 m1]
  have "mem_ok (bsPut bs k0 m1)" using assms(1,2,4) f unfolding takes_def mem_ok_def by fastforce
  moreover have "bFree (bsPut bs k0 m1) \<subseteq> bFree m \<union> {bNext m ..< bNext m1}" using f assms(2,4,5) unfolding takes_def by fastforce
  moreover have "k \<notin> bFree (bsPut bs k0 m1)" using f assms(2,3) unfolding takes_def by auto
  ultimately show ?thesis using assms(1,2) unfolding takes_def by simp
qed

lemma takes_write: "takes m k m1 \<Longrightarrow> takes m k (write_front k xs m1)"
  unfolding takes_def mem_ok_def by (auto simp: write_front_def)

lemma takes_origin: "takes m k m1 \<Longrightarrow> k \<in> bFree m \<or> bNext m \<le> k"
  by (auto simp: takes_def)

text \<open>Marshalling into an array of the pool, as both kinds of packets do it.\<close>

lemma takes_marshal:
  assumes "bs_laws bs" "mem_ok m" "bsGet bs sz m = (pooled, m1)" "n \<le> sz" "go_append (pooled, n) xs m1 = ((k, l), m2)"
    and m3: "m3 = (if k \<noteq> pooled then bsPut bs pooled m2 else m2)"
  shows "takes m k m3" "take l (bArr m3 k) = take n (bArr m1 pooled) @ xs" "l = n + length xs" "n \<le> length (bArr m1 pooled)"
proof -
  show n: "n \<le> length (bArr m1 pooled)" using bsGet_facts(1) [OF assms(1,3)] assms(4) by simp
  note g = takes_Get [OF assms(1,3,2)]
  note t = takes_append [OF g assms(5) n]
  show "takes m k m3" unfolding m3 using t takes_Put [OF assms(1) t(1) _ t(3) takes_origin [OF g]] by auto
  have "bArr m3 = bArr m2" using assms(1) by (simp add: m3)
  then show "take l (bArr m3 k) = take n (bArr m1 pooled) @ xs" using go_append_facts(1) [OF assms(5) n] by simp
  show "l = n + length xs" by (rule go_append_facts(2) [OF assms(5) n])
qed

definition slice_blocks :: "slice option \<Rightarrow> nat set" where
  "slice_blocks sl = (case sl of None \<Rightarrow> {} | Some (k, _) \<Rightarrow> {k})"

definition slice_bytes :: "bmem \<Rightarrow> slice option \<Rightarrow> bytes" where
  "slice_bytes m sl = (case sl of None \<Rightarrow> [] | Some x \<Rightarrow> contents m x)"

definition queue_ops :: "byteslice \<Rightarrow> ('m \<Rightarrow> nat) \<Rightarrow> ('m \<Rightarrow> bytes option) \<Rightarrow> ('m, qpacket) packet_ops" where
  "queue_ops bs size_of marshal = \<lparr>opNew = newQPacket, opSet = QPacket_Set bs size_of marshal, opReset = QPacket_reset bs,
     opBytes = (\<lambda>m p. slice_bytes m (qMessage p))\<rparr>"

definition worker_ops :: "byteslice \<Rightarrow> ('m \<Rightarrow> nat) \<Rightarrow> ('m \<Rightarrow> bytes option) \<Rightarrow> ('m, wpacket) packet_ops" where
  "worker_ops bs size_of marshal = \<lparr>opNew = newWPacket, opSet = WPacket_set bs size_of marshal, opReset = WPacket_reset bs,
     opBytes = (\<lambda>m p. wHeader p @ slice_bytes m (wBody p))\<rparr>"

lemma slice_bytes_own: "(\<And>j. j \<in> slice_blocks sl \<Longrightarrow> bArr m j = bArr m' j) \<Longrightarrow> slice_bytes m sl = slice_bytes m' sl"
  by (auto simp: slice_blocks_def slice_bytes_def contents_def split: option.splits)

text \<open>The outcome of filling a packet: either it failed and nothing is held, or the packet has one array that was nobody's.\<close>

definition filled :: "bmem \<Rightarrow> bool \<Rightarrow> slice option \<Rightarrow> bmem \<Rightarrow> bool" where
  "filled m ok sl m' \<longleftrightarrow> (case sl of
      Some (k, _) \<Rightarrow> ok \<and> takes m k m'
    | None \<Rightarrow> \<not> ok \<and> mem_ok m' \<and> bNext m \<le> bNext m' \<and> bFree m' \<subseteq> bFree m \<union> {bNext m ..< bNext m'} \<and>
        (\<forall>j < bNext m. j \<notin> bFree m \<longrightarrow> bArr m' j = bArr m j))"

lemma filled_ok:
  "filled m ok sl m' \<Longrightarrow> mem_ok m' \<and> bNext m \<le> bNext m' \<and> bFree m' \<subseteq> bFree m \<union> {bNext m ..< bNext m'} \<and>
     slice_blocks sl \<inter> bFree m' = {} \<and> slice_blocks sl \<subseteq> bFree m \<union> {bNext m ..< bNext m'} \<and>
     (\<forall>j < bNext m. j \<notin> bFree m \<longrightarrow> bArr m' j = bArr m j)"
  unfolding filled_def slice_blocks_def takes_def by (auto split: option.splits)

text \<open>Nothing is held: arrays of others are as before, and those used are free or garbage.\<close>

lemma takes_filled: "takes m k m' \<Longrightarrow> filled m False None m'"
  by (simp add: takes_def filled_def)

lemma filled_Put:
  assumes "bs_laws bs" "takes m k m1"
  shows "filled m False None (bsPut bs k m1)"
proof -
  note f = bsPut_free [OF assms(1), of k m1]
  have k: "k < bNext m1" "k \<in> bFree m \<or> bNext m \<le> k" using takes_bound [OF assms(2)] takes_origin [OF assms(2)] by auto
  have t: "mem_ok m1" "bNext m \<le> bNext m1" "bFree m1 \<subseteq> bFree m \<union> {bNext m ..< bNext m1}" "\<forall>j < bNext m. j \<notin> bFree m \<longrightarrow> bArr m1 j = bArr m j"
    using assms(2) unfolding takes_def by blast+
  have "mem_ok (bsPut bs k m1)" using t(1) f k(1) assms(1) unfolding mem_ok_def by fastforce
  moreover have "bFree (bsPut bs k m1) \<subseteq> bFree m \<union> {bNext m ..< bNext m1}" using f t(3) k by fastforce
  ultimately show ?thesis using t(2,4) assms(1) by (simp add: filled_def)
qed

lemma failed_Put:
  assumes "bs_laws bs" "mem_ok m" "bsGet bs n m = (k, m1)"
  shows "filled m False None (bsPut bs k m1)"
  by (rule filled_Put [OF assms(1) takes_Get [OF assms(1,3,2)]])

lemma front_written:
  assumes "take l arr = take 4 a @ b" "l = 4 + length b" "4 \<le> length a" "length h = 4"
  shows "take l (h @ drop 4 arr) = h @ b"
proof -
  have "drop 4 (take l arr) = b" using assms(1,3) by simp
  then have "take (length b) (drop 4 arr) = b" using assms(2) by (simp add: drop_take)
  then show ?thesis using assms(2,4) by simp
qed

lemma QPacket_Set_filled:
  assumes "bs_laws bs" "mem_ok m" "QPacket_Set bs size_of marshal msg c (p, m) = (ok, p', m')" "qMessage p = None"
  shows "filled m ok (qMessage p') m' \<and> (if ok then Some (slice_bytes m' (qMessage p')) else None) = Packet_Set marshal msg c"
proof (cases "size_of msg > 0")
  case True
  obtain pooled m1 where g: "bsGet bs (size_of msg + 4) m = (pooled, m1)" by (cases "bsGet bs (size_of msg + 4) m")
  show ?thesis
  proof (cases "marshal msg")
    case None
    then have "ok = False" "p' = p" "m' = bsPut bs pooled m1" using assms(3) True by (simp_all add: QPacket_Set_def g)
    then show ?thesis using failed_Put [OF assms(1,2) g] assms(4) None by (simp add: Packet_Set_def)
  next
    case (Some b)
    obtain k l m2 where a: "go_append (pooled, 4) b m1 = ((k, l), m2)" by (metis surj_pair)
    define m3 where "m3 = (if k \<noteq> pooled then bsPut bs pooled m2 else m2)"
    have r: "ok" "qMessage p' = Some (k, l)" "m' = write_front k (PutUint32 c) m3"
      using assms(3) True Some by (auto simp: QPacket_Set_def g a m3_def split: if_splits)
    note f = takes_marshal [OF assms(1,2) g _ a m3_def, simplified]
    have "take l (PutUint32 c @ drop 4 (bArr m3 k)) = PutUint32 c @ b" by (rule front_written [OF f(2-4)]) simp
    then have "slice_bytes m' (qMessage p') = PutUint32 c @ b" unfolding r by (simp add: slice_bytes_def contents_def)
    then show ?thesis using r f(1) takes_write Some by (simp add: filled_def Packet_Set_def)
  qed
next
  case False
  obtain k0 m1 where g: "go_make 4 m = (k0, m1)" by (cases "go_make 4 m")
  have four: "4 \<le> length (bArr m1 k0)" using g by (auto simp: go_make_def)
  note t = takes_make [OF g assms(2)]
  show ?thesis
  proof (cases "marshal msg")
    case None
    then have "ok = False" "p' = p" "m' = m1" using assms(3) False by (simp_all add: QPacket_Set_def g)
    then show ?thesis using t assms(4) None by (simp add: Packet_Set_def filled_def takes_def)
  next
    case (Some b)
    obtain k l m2 where a: "go_append (k0, 4) b m1 = ((k, l), m2)" by (metis surj_pair)
    have r: "ok" "qMessage p' = Some (k, l)" "m' = write_front k (PutUint32 c) m2"
      using assms(3) False Some by (auto simp: QPacket_Set_def g a)
    have "take l (PutUint32 c @ drop 4 (bArr m2 k)) = PutUint32 c @ b"
      by (rule front_written [OF go_append_facts(1,2) [OF a four] four]) simp
    then have "slice_bytes m' (qMessage p') = PutUint32 c @ b" unfolding r by (simp add: slice_bytes_def contents_def)
    then show ?thesis using r takes_append(1) [OF t a four] takes_write Some by (simp add: filled_def Packet_Set_def)
  qed
qed

lemma WPacket_set_filled:
  assumes "bs_laws bs" "mem_ok m" "WPacket_set bs size_of marshal msg c (p, m) = (ok, p', m')" "wBody p = None"
  shows "filled m ok (wBody p') m' \<and> (if ok then Some (wHeader p' @ slice_bytes m' (wBody p')) else None) = map_option wire (packet_set marshal msg c)"
proof (cases "size_of msg > 0")
  case True
  obtain pooled m1 where g: "bsGet bs (size_of msg) m = (pooled, m1)" by (cases "bsGet bs (size_of msg) m")
  show ?thesis
  proof (cases "marshal msg")
    case None
    then have "ok = False" "p' = p" "m' = bsPut bs pooled m1" using assms(3) True by (simp_all add: WPacket_set_def g)
    then show ?thesis using failed_Put [OF assms(1,2) g] assms(4) None by (simp add: packet_set_def)
  next
    case (Some b)
    obtain k l m2 where a: "go_append (pooled, 0) b m1 = ((k, l), m2)" by (metis surj_pair)
    define m3 where "m3 = (if k \<noteq> pooled then bsPut bs pooled m2 else m2)"
    have r: "ok" "wBody p' = Some (k, l)" "m' = m3" "wHeader p' = PutUint32 (of_nat (l + 4)) @ PutUint32 c"
      using assms(3) True Some by (auto simp: WPacket_set_def g a m3_def split: if_splits)
    note f = takes_marshal [OF assms(1,2) g _ a m3_def, simplified]
    show ?thesis using r f Some by (simp add: filled_def packet_set_def wire_def slice_bytes_def contents_def)
  qed
next
  case False
  obtain k0 m1 where g: "go_make 0 m = (k0, m1)" by (cases "go_make 0 m")
  note t = takes_make [OF g assms(2)]
  show ?thesis
  proof (cases "marshal msg")
    case None
    then have "ok = False" "p' = p" "m' = m" using assms(3) False by (simp_all add: WPacket_set_def)
    then show ?thesis using assms(2,4) None by (simp add: packet_set_def filled_def)
  next
    case (Some b)
    obtain k l m2 where a: "go_append (k0, 0) b m1 = ((k, l), m2)" by (metis surj_pair)
    have r: "ok" "wBody p' = Some (k, l)" "m' = m2" "wHeader p' = PutUint32 (of_nat (l + 4)) @ PutUint32 c"
      using assms(3) False Some by (auto simp: WPacket_set_def g a)
    note f = go_append_facts(1,2) [OF a] takes_append(1) [OF t a]
    show ?thesis using r f Some by (simp add: filled_def packet_set_def wire_def slice_bytes_def contents_def)
  qed
qed

lemma reset_blocks:
  assumes "bs_laws bs"
  shows "bFree (case sl of Some (k, _) \<Rightarrow> if b then bsPut bs k m else m | None \<Rightarrow> m) \<subseteq> bFree m \<union> slice_blocks sl"
    "bNext (case sl of Some (k, _) \<Rightarrow> if b then bsPut bs k m else m | None \<Rightarrow> m) = bNext m"
    "bArr (case sl of Some (k, _) \<Rightarrow> if b then bsPut bs k m else m | None \<Rightarrow> m) = bArr m"
  using assms bsPut_free [OF assms] by (auto simp: slice_blocks_def split: option.split)

lemma no_blocks: "slice_blocks sl = {} \<longleftrightarrow> sl = None"
  by (auto simp: slice_blocks_def split: option.splits)

interpretation queue_packets: pooled_packet "queue_ops bs size_of marshal" "\<lambda>p. slice_blocks (qMessage p)" "Packet_Set marshal" "bs_laws bs"
  for bs and size_of :: "'m \<Rightarrow> nat" and marshal
proof unfold_locales
  fix msg :: 'm and c p m ok p' m'
  assume a: "bs_laws bs" "opSet (queue_ops bs size_of marshal) msg c (p, m) = (ok, p', m')" "slice_blocks (qMessage p) = {}" "mem_ok m"
  have q: "QPacket_Set bs size_of marshal msg c (p, m) = (ok, p', m')" "qMessage p = None"
    using a(2,3) by (simp_all add: queue_ops_def no_blocks)
  have f: "filled m ok (qMessage p') m'" "(if ok then Some (slice_bytes m' (qMessage p')) else None) = Packet_Set marshal msg c"
    using QPacket_Set_filled [OF a(1,4) q] by blast+
  show "mem_ok m' \<and> bNext m \<le> bNext m' \<and> bFree m' \<subseteq> bFree m \<union> {bNext m ..< bNext m'} \<and>
      slice_blocks (qMessage p') \<inter> bFree m' = {} \<and> slice_blocks (qMessage p') \<subseteq> bFree m \<union> {bNext m ..< bNext m'} \<and>
      (\<forall>j < bNext m. j \<notin> bFree m \<longrightarrow> bArr m' j = bArr m j)" by (rule filled_ok [OF f(1)])
  show "(if ok then Some (opBytes (queue_ops bs size_of marshal) m' p') else None) = Packet_Set marshal msg c" using f(2) by (auto simp: queue_ops_def split: if_splits)
next
  fix p m p' m'
  assume "bs_laws bs" "opReset (queue_ops bs size_of marshal) (p, m) = (p', m')"
  then show "slice_blocks (qMessage p') = {} \<and> bArr m' = bArr m \<and> bNext m' = bNext m \<and> bFree m' \<subseteq> bFree m \<union> slice_blocks (qMessage p)"
    using reset_blocks [of bs m "qFromPool p" "qMessage p"] by (auto simp: queue_ops_def QPacket_reset_def no_blocks)
next
  fix p :: qpacket and m m' :: bmem
  assume "\<And>j. j \<in> slice_blocks (qMessage p) \<Longrightarrow> bArr m j = bArr m' j"
  then show "opBytes (queue_ops bs size_of marshal) m p = opBytes (queue_ops bs size_of marshal) m' p"
    using slice_bytes_own [of "qMessage p" m m'] by (simp add: queue_ops_def)
qed (simp add: queue_ops_def newQPacket_def slice_blocks_def)

interpretation worker_packets: pooled_packet "worker_ops bs size_of marshal" "\<lambda>p. slice_blocks (wBody p)"
  "\<lambda>msg c. map_option wire (packet_set marshal msg c)" "bs_laws bs"
  for bs and size_of :: "'m \<Rightarrow> nat" and marshal
proof unfold_locales
  fix msg :: 'm and c p m ok p' m'
  assume a: "bs_laws bs" "opSet (worker_ops bs size_of marshal) msg c (p, m) = (ok, p', m')" "slice_blocks (wBody p) = {}" "mem_ok m"
  have q: "WPacket_set bs size_of marshal msg c (p, m) = (ok, p', m')" "wBody p = None"
    using a(2,3) by (simp_all add: worker_ops_def no_blocks)
  have f: "filled m ok (wBody p') m'" "(if ok then Some (wHeader p' @ slice_bytes m' (wBody p')) else None) = map_option wire (packet_set marshal msg c)"
    using WPacket_set_filled [OF a(1,4) q] by blast+
  show "mem_ok m' \<and> bNext m \<le> bNext m' \<and> bFree m' \<subseteq> bFree m \<union> {bNext m ..< bNext m'} \<and>
      slice_blocks (wBody p') \<inter> bFree m' = {} \<and> slice_blocks (wBody p') \<subseteq> bFree m \<union> {bNext m ..< bNext m'} \<and>
      (\<forall>j < bNext m. j \<notin> bFree m \<longrightarrow> bArr m' j = bArr m j)" by (rule filled_ok [OF f(1)])
  show "(if ok then Some (opBytes (worker_ops bs size_of marshal) m' p') else None) = map_option wire (packet_set marshal msg c)"
    using f(2) by (auto simp: worker_ops_def split: if_splits)
next
  fix p m p' m'
  assume "bs_laws bs" "opReset (worker_ops bs size_of marshal) (p, m) = (p', m')"
  then show "slice_blocks (wBody p') = {} \<and> bArr m' = bArr m \<and> bNext m' = bNext m \<and> bFree m' \<subseteq> bFree m \<union> slice_blocks (wBody p)"
    using reset_blocks [of bs m "wFromPool p" "wBody p"] by (auto simp: worker_ops_def WPacket_reset_def no_blocks)
next
  fix p :: wpacket and m m' :: bmem
  assume "\<And>j. j \<in> slice_blocks (wBody p) \<Longrightarrow> bArr m j = bArr m' j"
  then show "opBytes (worker_ops bs size_of marshal) m p = opBytes (worker_ops bs size_of marshal) m' p"
    using slice_bytes_own [of "wBody p" m m'] by (simp add: worker_ops_def)
qed (simp add: worker_ops_def newWPacket_def slice_blocks_def)

section \<open>Packets that are held\<close>

text \<open>The pool at start, over whatever memory the process has at that time.\<close>

definition pool_start :: "bmem \<Rightarrow> 'p pksys" where
  "pool_start m = \<lparr>pkMem = m, pkObj = (\<lambda>_. undefined), pkIdle = [], pkHeld = [], pkNew = 0\<rparr>"

text \<open>
  C21. The memory behind packets. In every run of sending, giving back and forgetting packets, in any order and
  over any memory pool that keeps its promise, a packet that is held has the bytes of the message it was filled with, for the queues
  (command, body) and for the business connections (length, command, body), and no packet is held twice or held and idle at once. So reusing
  slices and packets is invisible, also when the size of a message was estimated wrongly and marshalling moved to another array.
\<close>

theorem pooled_packets_stable:
  fixes size_of :: "'m \<Rightarrow> nat"
  assumes "bs_laws bs" "mem_ok m"
    and "pool_run (queue_ops bs size_of marshal) (pool_start m) q qs" "pool_run (worker_ops bs size_of marshal) (pool_start m) w ws"
  shows "map (\<lambda>i. Some (slice_bytes (pkMem q) (qMessage (pkObj q i)))) (pkHeld q) = map (\<lambda>(msg, c). Packet_Set marshal msg c) qs \<and>
    distinct (pkIdle q @ pkHeld q) \<and>
    map (\<lambda>i. Some (wHeader (pkObj w i) @ slice_bytes (pkMem w) (wBody (pkObj w i)))) (pkHeld w) =
      map (\<lambda>(msg, c). map_option wire (packet_set marshal msg c)) ws \<and>
    distinct (pkIdle w @ pkHeld w)"
proof -
  have q: "queue_packets.pool_ok TYPE('m) bs size_of marshal (pool_start m) []"
    and w: "worker_packets.pool_ok TYPE('m) bs size_of marshal (pool_start m) []"
    by (rule queue_packets.pool_ok_empty worker_packets.pool_ok_empty; simp add: assms(2) pool_start_def)+
  note rq = queue_packets.run_stable [OF assms(1,3) q] and rw = worker_packets.run_stable [OF assms(1,4) w]
  show ?thesis using rq rw by (simp add: queue_ops_def worker_ops_def)
qed

text \<open>A memory pool that never recycles, and one message for each kind.\<close>

definition fresh_arrays :: byteslice where
  "fresh_arrays = \<lparr>bsGet = go_make, bsPut = (\<lambda>_ m. m)\<rparr>"

lemma fresh_arrays_laws: "bs_laws fresh_arrays"
  by (auto simp: bs_laws_def fresh_arrays_def go_make_def)

definition ten_bytes :: "bytes \<Rightarrow> bytes option" where
  "ten_bytes b = (if length b \<le> 10 then Some b else None)"

definition no_memory :: bmem where
  "no_memory = \<lparr>bArr = (\<lambda>_. []), bFree = {}, bNext = 0\<rparr>"

abbreviation "qops \<equiv> queue_ops fresh_arrays List.length ten_bytes"
abbreviation "wops \<equiv> worker_ops fresh_arrays List.length ten_bytes"

lemma one_sent:
  "pool_run qops (pool_start no_memory) (pool_Send qops True True [7] 5 (pool_start no_memory)) [([7], 5)]"
  "pool_run wops (pool_start no_memory) (pool_Send wops True True [7] 5 (pool_start no_memory)) [([7], 5)]"
  by (rule pool_run.sent [OF pool_run.start refl, unfolded append_Nil];
      simp add: pool_Send_def pool_Get_def pool_start_def queue_ops_def worker_ops_def QPacket_Set_def WPacket_set_def
        fresh_arrays_def go_make_def go_append_def ten_bytes_def no_memory_def newQPacket_def newWPacket_def)+

lemma no_memory_ok: "mem_ok no_memory"
  by (simp add: mem_ok_def no_memory_def)

theorem pooled_packets_stable_witness:
  "let q = pool_Send qops True True [7] 5 (pool_start no_memory)
   in map (\<lambda>i. Some (slice_bytes (pkMem q) (qMessage (pkObj q i)))) (pkHeld q) = [Some (PutUint32 5 @ [7])]"
  unfolding Let_def
  by (rule pooled_packets_stable [OF fresh_arrays_laws no_memory_ok one_sent, THEN conjunct1, THEN trans])
    (simp add: Packet_Set_def ten_bytes_def)

section \<open>The answers at the task port\<close>

text \<open>
  \<^verbatim>\<open>send\<close> of \<^verbatim>\<open>src/internal/task/process/process.go\<close> as far as memory goes: what is handed to the socket, and the memory when it has returned.
  A header from \<^verbatim>\<open>headerObjPool\<close> has its eight bytes overwritten.
\<close>

definition send_memory :: "byteslice \<Rightarrow> ('m \<Rightarrow> nat) \<Rightarrow> ('m \<Rightarrow> bytes option) \<Rightarrow> 'm \<Rightarrow> cmd \<Rightarrow> bmem \<Rightarrow> bytes option \<times> bmem" where
  "send_memory bs size_of marshal message c m =
     (let sz = size_of message;
          header = (\<lambda>n. PutUint32 (of_nat (n + 4)) @ PutUint32 c)
      in if sz > 0
         then (let (pooled, m) = bsGet bs sz m
               in case marshal message of
                    None \<Rightarrow> (None, bsPut bs pooled m)
                  | Some b \<Rightarrow>
                      (let ((k, n), m) = go_append (pooled, 0) b m;
                           (deferred, m) = (if k \<noteq> pooled then (False, bsPut bs pooled m) else (True, m));
                           sent = header n @ contents m (k, n)
                       in (Some sent, if deferred then bsPut bs pooled m else m)))
         else (case marshal message of
                 None \<Rightarrow> (None, m)
               | Some b \<Rightarrow>
                   (let (k, m) = go_make 0 m;
                        ((k, n), m) = go_append (k, 0) b m
                    in (Some (header n @ contents m (k, n)), m))))"

lemma send_memory_exact:
  assumes "bs_laws bs" "mem_ok m" "send_memory bs size_of marshal msg c m = (sent, m')"
  shows "sent = map_option wire (packet_set marshal msg c) \<and> filled m False None m'"
proof (cases "size_of msg > 0")
  case True
  obtain pooled m1 where g: "bsGet bs (size_of msg) m = (pooled, m1)" by (cases "bsGet bs (size_of msg) m")
  show ?thesis
  proof (cases "marshal msg")
    case None
    then have "sent = None" "m' = bsPut bs pooled m1" using assms(3) True by (simp_all add: send_memory_def g)
    then show ?thesis using filled_Put [OF assms(1) takes_Get [OF assms(1) g assms(2)]] None by (simp add: packet_set_def)
  next
    case (Some b)
    obtain k l m2 where a: "go_append (pooled, 0) b m1 = ((k, l), m2)" by (metis surj_pair)
    define m3 where "m3 = (if k \<noteq> pooled then bsPut bs pooled m2 else m2)"
    have r: "sent = Some (PutUint32 (of_nat (l + 4)) @ PutUint32 c @ contents m3 (k, l))" "m' = (if k = pooled then bsPut bs k m3 else m3)"
      using assms(3) True Some by (auto simp: send_memory_def g a m3_def Let_def split: if_splits)
    note f = takes_marshal [OF assms(1,2) g _ a m3_def, simplified]
    have "filled m False None m'" using filled_Put [OF assms(1) f(1)] takes_filled [OF f(1)] by (auto simp: r(2))
    then show ?thesis using r(1) f Some by (simp add: packet_set_def wire_def contents_def)
  qed
next
  case False
  obtain k0 m1 where g: "go_make 0 m = (k0, m1)" by (cases "go_make 0 m")
  note t = takes_make [OF g assms(2)]
  show ?thesis
  proof (cases "marshal msg")
    case None
    then show ?thesis using assms(2,3) False by (auto simp: send_memory_def packet_set_def filled_def)
  next
    case (Some b)
    obtain k l m2 where a: "go_append (k0, 0) b m1 = ((k, l), m2)" by (metis surj_pair)
    have r: "sent = Some (PutUint32 (of_nat (l + 4)) @ PutUint32 c @ contents m2 (k, l))" "m' = m2"
      using assms(3) False Some by (auto simp: send_memory_def g a)
    note f = go_append_facts(1,2) [OF a] takes_append(1) [OF t a]
    show ?thesis using r f Some takes_filled by (simp add: packet_set_def wire_def contents_def)
  qed
qed

end
