(* ===== verification/FrameMemory.thy ===== *)
theory FrameMemory
  imports PacketPool Gateway
begin

text \<open>
  The memory behind frames. \<^verbatim>\<open>WriteTo\<close> of \<^verbatim>\<open>src/internal/customer/frame.go\<close> compresses into an array of the pool \<^verbatim>\<open>byteslice\<close>, which it
  gives back before the frame is sent, and keeps the finished frame in the \<^verbatim>\<open>Frame\<close> for other connections. Here is why this is safe, over
  the memory of theory \<open>PacketPool\<close>, with the writer of \<^verbatim>\<open>src/internal/utils/buffer/buffer.go\<close>.
\<close>

section \<open>The buffer\<close>

type_synonym buffer = "slice option"

text \<open>\<^verbatim>\<open>New\<close> and \<^verbatim>\<open>Set\<close> panic on nil.\<close>

definition Buffer_New :: "slice option \<Rightarrow> buffer option" where
  "Buffer_New buf = (case buf of None \<Rightarrow> None | Some sl \<Rightarrow> Some (Some sl))"

definition Buffer_Set :: "slice option \<Rightarrow> buffer \<Rightarrow> buffer option" where
  "Buffer_Set buf b = (case buf of None \<Rightarrow> None | Some sl \<Rightarrow> Some (Some sl))"

definition Buffer_Len :: "buffer \<Rightarrow> nat" where
  "Buffer_Len b = (case b of None \<Rightarrow> 0 | Some (_, n) \<Rightarrow> n)"

definition Buffer_Bytes :: "buffer \<Rightarrow> slice option" where "Buffer_Bytes b = b"

definition Buffer_Discard :: "buffer \<Rightarrow> buffer" where "Buffer_Discard b = None"

definition Buffer_Write :: "bytes \<Rightarrow> buffer \<times> bmem \<Rightarrow> buffer \<times> bmem" where
  "Buffer_Write p = (\<lambda>(b, m). case b of
      Some sl \<Rightarrow> (let (sl, m) = go_append sl p m in (Some sl, m))
    | None \<Rightarrow> (let (k, m) = go_make 0 m; (sl, m) = go_append (k, 0) p m in (Some sl, m)))"

section \<open>Encoding a frame\<close>

text \<open>What \<^verbatim>\<open>ws.WriteFrame\<close> writes before the payload, in one call of \<^verbatim>\<open>Write\<close>, and how many bytes \<^verbatim>\<open>WriteTo\<close> reserves for it.\<close>

definition frameHeader :: "u8 \<Rightarrow> opcode \<Rightarrow> nat \<Rightarrow> bytes" where
  "frameHeader rsv op n =
     (128 OR push_bit 4 rsv OR op) #
     (if n \<le> 125 then [of_nat n] else if n \<le> 65535 then 126 # PutUint16 (of_nat n) else 127 # PutUint64 (of_nat n))"

definition headerSize :: "nat \<Rightarrow> nat" where
  "headerSize payloadLen = (if payloadLen \<ge> 126 \<and> payloadLen < 65536 then 4 else if payloadLen \<ge> 65536 then 10 else 2)"

definition write_frame :: "u8 \<Rightarrow> opcode \<Rightarrow> bytes \<Rightarrow> buffer \<times> bmem \<Rightarrow> buffer \<times> bmem" where
  "write_frame rsv op payload bm = fold Buffer_Write [frameHeader rsv op (length payload), payload] bm"

text \<open>
  The two encodings of \<^verbatim>\<open>WriteTo\<close>. \<open>compressTo\<close> stands for \<^verbatim>\<open>flateHelper.CompressTo\<close>: the pieces it writes, and whether it succeeds.
  The pooled array is given back by \<^verbatim>\<open>defer\<close>, on every way out. The second result is false after a panic of the buffer.
\<close>

definition encode_compressed :: "byteslice \<Rightarrow> (bytes \<Rightarrow> bytes list \<times> bool) \<Rightarrow> opcode \<Rightarrow> bytes \<Rightarrow> bmem \<Rightarrow> buffer \<times> bool \<times> bmem" where
  "encode_compressed bs compressTo op data m =
     (let (compressBytes, m) = bsGet bs (length data) m
      in case Buffer_New (Some (compressBytes, 0)) of
           None \<Rightarrow> (None, False, bsPut bs compressBytes m)
         | Some buff \<Rightarrow>
            (let (pieces, ok) = compressTo data;
                 (buff, m) = fold Buffer_Write pieces (buff, m)
             in if \<not> ok then (None, True, bsPut bs compressBytes m)
                else let payload = slice_bytes m (Buffer_Bytes buff);
                         (fresh, m) = go_make (headerSize (length payload) + length payload) m
                     in case Buffer_Set (Some (fresh, 0)) buff of
                          None \<Rightarrow> (None, False, bsPut bs compressBytes m)
                        | Some buff \<Rightarrow>
                            (let (buff, m) = write_frame 4 op payload (buff, m)
                             in (Buffer_Bytes buff, True, bsPut bs compressBytes m))))"

definition encode_plain :: "opcode \<Rightarrow> bytes \<Rightarrow> bmem \<Rightarrow> buffer \<times> bool \<times> bmem" where
  "encode_plain op data m =
     (let (fresh, m) = go_make (headerSize (length data) + length data) m
      in case Buffer_New (Some (fresh, 0)) of
           None \<Rightarrow> (None, False, m)
         | Some buff \<Rightarrow> (let (buff, m) = write_frame 0 op data (buff, m) in (Buffer_Bytes buff, True, m)))"

section \<open>The finished frame has memory of its own\<close>

lemma serverFrame_header: "serverFrame rsv op p = frameHeader rsv op (length p) @ p"
  by (simp add: serverFrame_def frameHeader_def)

lemma length_frameHeader [simp]: "length (frameHeader rsv op n) = headerSize n"
  by (simp add: frameHeader_def headerSize_def PutUint16_def PutUint64_def)

text \<open>Writing piece by piece into an array that was taken.\<close>

lemma Buffer_Write_takes:
  assumes "takes m k m1" "n \<le> length (bArr m1 k)" "Buffer_Write p (Some (k, n), m1) = (b, m2)" "j < bNext m1" "j \<notin> bFree m1"
  obtains k' n' where "b = Some (k', n')" "takes m k' m2" "n' \<le> length (bArr m2 k')" "slice_bytes m2 b = take n (bArr m1 k) @ p"
    "j < bNext m2" "j \<notin> bFree m2"
proof -
  obtain k' n' where a: "go_append (k, n) p m1 = ((k', n'), m2)" and b: "b = Some (k', n')"
    using assms(3) by (auto simp: Buffer_Write_def split: prod.splits)
  note f = go_append_facts [OF a assms(2)]
  have "length (take n' (bArr m2 k')) = n'" using f(1,2) assms(2) by simp
  then have "n' \<le> length (bArr m2 k')" by simp
  moreover have "slice_bytes m2 b = take n (bArr m1 k) @ p" using f(1) by (simp add: b slice_bytes_def contents_def)
  moreover have "j < bNext m2" "j \<notin> bFree m2" using f(3,4) assms(4,5) by auto
  ultimately show thesis using that takes_append(1) [OF assms(1) a assms(2)] b by blast
qed

lemma Buffer_Writes_takes:
  assumes "takes m k m1" "n \<le> length (bArr m1 k)" "fold Buffer_Write ps (Some (k, n), m1) = (b, m2)" "j < bNext m1" "j \<notin> bFree m1"
  shows "\<exists>k' n'. b = Some (k', n') \<and> takes m k' m2 \<and> slice_bytes m2 b = take n (bArr m1 k) @ concat ps \<and> j < bNext m2 \<and> j \<notin> bFree m2"
  using assms
proof (induction ps arbitrary: k n m1)
  case Nil
  then show ?case by (auto simp: slice_bytes_def contents_def)
next
  case (Cons p ps)
  obtain b1 m2' where w: "Buffer_Write p (Some (k, n), m1) = (b1, m2')" by (cases "Buffer_Write p (Some (k, n), m1)")
  obtain k' n' where f: "b1 = Some (k', n')" "takes m k' m2'" "n' \<le> length (bArr m2' k')" "slice_bytes m2' b1 = take n (bArr m1 k) @ p"
    "j < bNext m2'" "j \<notin> bFree m2'" by (rule Buffer_Write_takes [OF Cons.prems(1,2) w Cons.prems(4,5)])
  have "take n' (bArr m2' k') = take n (bArr m1 k) @ p" using f(1,4) by (simp add: slice_bytes_def contents_def)
  then show ?case using Cons.IH [OF f(2,3) _ f(5,6)] Cons.prems(3) w f(1) by simp
qed

text \<open>Writing a frame into the array reserved for it: the array is filled exactly, so it is not replaced by a larger one.\<close>

lemma write_frame_exact:
  assumes "go_make (headerSize (length p) + length p) m1 = (j, m2)" "write_frame rsv op p (Some (j, 0), m2) = (b, m3)"
  shows "b = Some (j, length (serverFrame rsv op p))" "bArr m3 = (bArr m1)(j := serverFrame rsv op p)" "j = bNext m1" "bFree m3 = bFree m1"
    "bNext m3 = Suc (bNext m1)"
  using assms by (auto simp: write_frame_def Buffer_Write_def go_make_def go_append_def serverFrame_header)

lemma takes_new:
  assumes "takes m k m1" "j = bNext m1" "bArr m3 = (bArr m1)(j := x)" "bFree m3 = bFree m1" "bNext m3 = Suc (bNext m1)"
  shows "takes m j m3"
proof -
  have "mem_ok m3" using assms unfolding takes_def mem_ok_def by (auto intro: less_SucI)
  moreover have "j \<notin> bFree m3" using assms unfolding takes_def mem_ok_def by auto
  moreover have "bNext m \<le> j" "bFree m1 \<subseteq> bFree m \<union> {bNext m ..< bNext m1}" using assms(1,2) by (auto simp: takes_def)
  ultimately show ?thesis using assms(1,3-5) unfolding takes_def assms(2) by auto
qed

lemma takes_self: "mem_ok m \<Longrightarrow> bArr m3 = (bArr m)(j := x) \<Longrightarrow> j = bNext m \<Longrightarrow> bFree m3 = bFree m \<Longrightarrow> bNext m3 = Suc (bNext m) \<Longrightarrow> takes m j m3"
  unfolding takes_def mem_ok_def by (auto intro: less_SucI)

lemma encode_compressed_takes:
  assumes "bs_laws bs" "mem_ok m" "encode_compressed bs compressTo op data m = (b, ok, m')" "compressTo data = (pieces, True)"
  shows "ok \<and> (\<exists>k. b = Some (k, length (bArr m' k)) \<and> bNext m \<le> k \<and> takes m k m' \<and> bArr m' k = serverFrame 4 op (concat pieces))"
proof -
  obtain k0 m1 where g: "bsGet bs (length data) m = (k0, m1)" by (cases "bsGet bs (length data) m")
  obtain b2 m2 where w: "fold Buffer_Write pieces (Some (k0, 0), m1) = (b2, m2)" by (cases "fold Buffer_Write pieces (Some (k0, 0), m1)")
  note t = takes_Get [OF assms(1) g assms(2)]
  have "k0 \<notin> bFree m1" using t by (simp add: takes_def)
  then obtain k' n' where f: "b2 = Some (k', n')" "takes m k' m2" "slice_bytes m2 b2 = concat pieces" "k0 < bNext m2" "k0 \<notin> bFree m2"
    using Buffer_Writes_takes [OF t _ w takes_bound [OF t]] by auto
  obtain j m3 where k: "go_make (headerSize (length (concat pieces)) + length (concat pieces)) m2 = (j, m3)" by (metis surj_pair)
  obtain b4 m4 where wf: "write_frame 4 op (concat pieces) (Some (j, 0), m3) = (b4, m4)" by (metis surj_pair)
  note e = write_frame_exact [OF k wf]
  have r: "b = b4" "ok" "m' = bsPut bs k0 m4"
    using assms(3) unfolding encode_compressed_def g assms(4) Let_def prod.case Buffer_New_def Buffer_Set_def Buffer_Bytes_def option.case w f(3) k wf
    by auto
  have tj: "takes m j m4" by (rule takes_new [OF f(2) e(3,2,4,5)])
  have "k0 \<noteq> j" "k0 < bNext m4" using f(4) e(3,5) by auto
  then have "takes m j m'" unfolding r(3) using takes_Put [OF assms(1) tj _ _ takes_origin [OF t]] by blast
  moreover have "bArr m' j = serverFrame 4 op (concat pieces)" using e(2) assms(1) by (simp add: r(3))
  moreover have "bNext m \<le> j" using f(2) e(3) by (simp add: takes_def)
  ultimately show ?thesis using r(1,2) e(1) by auto
qed

lemma encode_failed_keeps:
  assumes "bs_laws bs" "mem_ok m" "encode_compressed bs compressTo op data m = (b, ok, m')" "compressTo data = (pieces, False)"
  shows "ok \<and> filled m False b m'"
proof -
  obtain k0 m1 where g: "bsGet bs (length data) m = (k0, m1)" by (cases "bsGet bs (length data) m")
  obtain b2 m2 where w: "fold Buffer_Write pieces (Some (k0, 0), m1) = (b2, m2)" by (cases "fold Buffer_Write pieces (Some (k0, 0), m1)")
  note t = takes_Get [OF assms(1) g assms(2)]
  have "k0 \<notin> bFree m1" using t by (simp add: takes_def)
  then obtain k' n' where f: "takes m k' m2" "k0 < bNext m2" using Buffer_Writes_takes [OF t _ w takes_bound [OF t]] by auto
  have r: "b = None" "ok" "m' = bsPut bs k0 m2"
    using assms(3) unfolding encode_compressed_def g assms(4) Let_def prod.case Buffer_New_def option.case w by auto
  have p: "bFree (bsPut bs k0 m2) \<subseteq> insert k0 (bFree m2)" "bNext (bsPut bs k0 m2) = bNext m2" "bArr (bsPut bs k0 m2) = bArr m2"
    using bsPut_free [OF assms(1)] assms(1) by simp_all
  have k0: "k0 \<in> bFree m \<or> bNext m \<le> k0" by (rule takes_origin [OF t])
  have "mem_ok m'" unfolding r(3) using f p unfolding takes_def mem_ok_def by fastforce
  moreover have "bFree m' \<subseteq> bFree m \<union> {bNext m ..< bNext m'}" unfolding r(3) using f p(1,2) k0 unfolding takes_def by fastforce
  ultimately show ?thesis using f p(2,3) r unfolding takes_def filled_def by auto
qed

text \<open>What \<^verbatim>\<open>WriteTo\<close> of theory \<open>Gateway\<close> keeps in the frame is what is in that array, if \<open>deflate\<close> is what the compressor writes.\<close>

lemma WriteTo_keeps_array:
  assumes "bs_laws bs" "mem_ok m" "encode_compressed bs compressTo op d m = (b, ok, m1)" "compressTo d = (pieces, success)"
    and "deflate env d = (if success then Some (concat pieces) else None)"
    and "\<not> IsClosedOnSafe (ccodec (heap s c))" "IsCompressOnSafe (ccodec (heap s c))" "length d > compressingValue env"
  shows "fcompressed (fst (snd (WriteTo env c (newFrame op d) s))) = map_option (contents m1) b"
proof (cases success)
  case True
  then obtain k where "b = Some (k, length (bArr m1 k))" "bArr m1 k = serverFrame 4 op (concat pieces)"
    using encode_compressed_takes [OF assms(1-3)] assms(4) by auto
  then show ?thesis using assms(5-8) True by (simp add: WriteTo_def newFrame_def contents_def case_prod_unfold Let_def)
next
  case False
  then have "b = None" using encode_failed_keeps [OF assms(1-3)] assms(4) by (auto simp: filled_def split: option.splits)
  then show ?thesis using assms(5-8) False by (simp add: WriteTo_def newFrame_def)
qed



end
