(* ===== verification/ObjPools.thy ===== *)
theory ObjPools
  imports Gateway
begin

text \<open>
  The pools of objects: the frames of \<^verbatim>\<open>src/internal/customer/frame.go\<close>, the messages of \<^verbatim>\<open>src/internal/objPool\<close>, the readers of
  \<^verbatim>\<open>src/internal/wsServer/bufReader.go\<close>, and the slices of \<^verbatim>\<open>src/internal/utils/slicePool\<close>. The other theories create a new object
  where the code takes one from a pool; here is why this makes no difference.
\<close>

section \<open>\<^verbatim>\<open>sync.Pool\<close>\<close>

record 'o spool_ops =
  soNew :: 'o
  soReset :: "'o \<Rightarrow> 'o"

record 'o spool =
  spObj :: "nat \<Rightarrow> 'o"
  spIdle :: "nat list"
  spHeld :: "nat list"
  spNew :: nat

definition spool_start :: "'o spool" where
  "spool_start = \<lparr>spObj = (\<lambda>_. undefined), spIdle = [], spHeld = [], spNew = 0\<rparr>"

text \<open>An idle object if the pool finds one, else a new one; and giving back, after a reset.\<close>

definition sp_Get :: "'o spool_ops \<Rightarrow> bool \<Rightarrow> 'o spool \<Rightarrow> nat \<times> 'o spool" where
  "sp_Get so found s = (case spIdle s of
      i # is \<Rightarrow> if found then (i, s\<lparr>spIdle := is, spHeld := i # spHeld s\<rparr>)
                else (spNew s, s\<lparr>spObj := (spObj s)(spNew s := soNew so), spNew := Suc (spNew s), spHeld := spNew s # spHeld s\<rparr>)
    | [] \<Rightarrow> (spNew s, s\<lparr>spObj := (spObj s)(spNew s := soNew so), spNew := Suc (spNew s), spHeld := spNew s # spHeld s\<rparr>))"

definition sp_Put :: "'o spool_ops \<Rightarrow> nat \<Rightarrow> 'o spool \<Rightarrow> 'o spool" where
  "sp_Put so i s = s\<lparr>spObj := (spObj s)(i := soReset so (spObj s i)), spIdle := i # spIdle s, spHeld := remove1 i (spHeld s)\<rparr>"

text \<open>Runs: who holds an object may do with it what its type allows and gives it back once; the pool may forget idle objects.\<close>

inductive spool_run :: "'o spool_ops \<Rightarrow> ('o \<Rightarrow> bool) \<Rightarrow> 'o spool \<Rightarrow> bool" for so typed where
  start: "spool_run so typed spool_start"
| got: "spool_run so typed s \<Longrightarrow> spool_run so typed (snd (sp_Get so found s))"
| used: "spool_run so typed s \<Longrightarrow> i \<in> set (spHeld s) \<Longrightarrow> typed x \<Longrightarrow> spool_run so typed (s\<lparr>spObj := (spObj s)(i := x)\<rparr>)"
| given_back: "spool_run so typed s \<Longrightarrow> i \<in> set (spHeld s) \<Longrightarrow> spool_run so typed (sp_Put so i s)"
| dropped: "spool_run so typed s \<Longrightarrow> spIdle s = xs @ i # ys \<Longrightarrow> spool_run so typed (s\<lparr>spIdle := xs @ ys\<rparr>)"

text \<open>A kind of objects whose reset leaves nothing behind.\<close>

locale object_pool =
  fixes so :: "'o spool_ops" and clean :: "'o \<Rightarrow> bool" and typed :: "'o \<Rightarrow> bool"
  assumes new_clean: "clean (soNew so)" and clean_typed: "clean x \<Longrightarrow> typed x" and reset_clean: "typed x \<Longrightarrow> clean (soReset so x)"
begin

definition spool_ok :: "'o spool \<Rightarrow> bool" where
  "spool_ok s \<longleftrightarrow> distinct (spIdle s @ spHeld s) \<and> (\<forall>i \<in> set (spIdle s @ spHeld s). i < spNew s) \<and>
     (\<forall>i \<in> set (spIdle s). clean (spObj s i)) \<and> (\<forall>i \<in> set (spHeld s). typed (spObj s i))"

lemma sp_Get_ok:
  assumes "spool_ok s" "sp_Get so found s = (i, s')"
  shows "spool_ok s' \<and> clean (spObj s' i) \<and> i \<notin> set (spHeld s) \<and> set (spHeld s') = insert i (set (spHeld s)) \<and>
    (\<forall>j \<in> set (spHeld s). spObj s' j = spObj s j)"
proof -
  consider xs where "spIdle s = i # xs" "s' = s\<lparr>spIdle := xs, spHeld := i # spHeld s\<rparr>"
    | "i = spNew s" "s' = s\<lparr>spObj := (spObj s)(spNew s := soNew so), spNew := Suc (spNew s), spHeld := spNew s # spHeld s\<rparr>"
    using assms(2) by (auto simp: sp_Get_def split: list.splits if_splits)
  then show ?thesis
  proof cases
    case 1
    then show ?thesis using assms(1) clean_typed by (auto simp: spool_ok_def)
  next
    case 2
    have "spNew s \<notin> set (spIdle s @ spHeld s)" using assms(1) by (auto simp: spool_ok_def)
    then show ?thesis using assms(1) new_clean clean_typed unfolding 2 spool_ok_def by (auto simp: less_Suc_eq)
  qed
qed

lemma sp_Put_ok:
  assumes "spool_ok s" "i \<in> set (spHeld s)"
  shows "spool_ok (sp_Put so i s)"
proof -
  have "distinct (spHeld s)" "i \<notin> set (spIdle s)" using assms by (auto simp: spool_ok_def)
  then show ?thesis using assms reset_clean unfolding spool_ok_def sp_Put_def by (auto simp: set_remove1_eq)
qed

lemma run_spool_ok: "spool_run so typed s \<Longrightarrow> spool_ok s"
proof (induction rule: spool_run.induct)
  case start
  then show ?case by (simp add: spool_ok_def spool_start_def)
next
  case (got s found)
  then show ?case using sp_Get_ok [of s found] by (metis surjective_pairing)
next
  case (used s i x)
  moreover from used have "i \<notin> set (spIdle s)" by (auto simp: spool_ok_def)
  ultimately show ?case unfolding spool_ok_def by auto
next
  case (given_back s i)
  then show ?case using sp_Put_ok by blast
next
  case (dropped s xs i ys)
  then show ?case unfolding spool_ok_def by auto
qed

lemma got_clean:
  assumes "spool_run so typed s" "sp_Get so found s = (i, s')"
  shows "clean (spObj s' i)" "i \<notin> set (spHeld s)" "\<forall>j \<in> set (spHeld s). spObj s' j = spObj s j"
  using sp_Get_ok [OF run_spool_ok [OF assms(1)] assms(2)] by blast+

end

section \<open>Frames\<close>

definition Frame_set :: "opcode \<Rightarrow> bytes \<Rightarrow> Frame \<Rightarrow> Frame" where
  "Frame_set op data fr = fr\<lparr>messageType := op, fdata := data\<rparr>"

text \<open>The message type is left as it is.\<close>

definition Frame_reset :: "Frame \<Rightarrow> Frame" where
  "Frame_reset fr = fr\<lparr>fdata := [], fcompressed := None, funcompressed := None\<rparr>"

definition framePool :: "Frame spool_ops" where
  "framePool = \<lparr>soNew = newFrame 0 [], soReset = Frame_reset\<rparr>"

definition framePool_Get :: "bool \<Rightarrow> opcode \<Rightarrow> bytes \<Rightarrow> Frame spool \<Rightarrow> nat \<times> Frame spool" where
  "framePool_Get found op data s =
     (let (i, s) = sp_Get framePool found s in (i, s\<lparr>spObj := (spObj s)(i := Frame_set op data (spObj s i))\<rparr>))"

definition framePool_Put :: "nat \<Rightarrow> Frame spool \<Rightarrow> Frame spool" where
  "framePool_Put i s = sp_Put framePool i s"

interpretation frames: object_pool framePool "\<lambda>fr. fdata fr = [] \<and> fcompressed fr = None \<and> funcompressed fr = None" "\<lambda>_. True"
  by unfold_locales (simp_all add: framePool_def newFrame_def Frame_reset_def)

text \<open>
  Frames from the pool. However frames were used before and whoever uses frames at the same time, a frame from the pool is a new frame with the
  given type and payload, so no encoding of an earlier message can be sent again; nobody else holds it, and the frames that
  others hold are left alone.
\<close>

theorem frame_pool_clean:
  assumes "spool_run framePool (\<lambda>_. True) s" "framePool_Get found op data s = (i, s')"
  shows "spObj s' i = newFrame op data \<and> i \<notin> set (spHeld s) \<and> (\<forall>j \<in> set (spHeld s). spObj s' j = spObj s j)"
proof -
  obtain s1 where g: "sp_Get framePool found s = (i, s1)" and s': "s' = s1\<lparr>spObj := (spObj s1)(i := Frame_set op data (spObj s1 i))\<rparr>"
    using assms(2) by (auto simp: framePool_Get_def split: prod.splits)
  note c = frames.got_clean [OF assms(1) g]
  have "spObj s' i = newFrame op data" using c(1) by (simp add: s' Frame_set_def newFrame_def)
  then show ?thesis using c(2,3) by (auto simp: s')
qed

section \<open>Messages\<close>

text \<open>
  The protobuf library: the type of a message, a new message of a type, and \<^verbatim>\<open>Reset\<close>, which makes a message equal to a new one of its type.
\<close>

record 'm proto =
  typeOf :: "'m \<Rightarrow> string"
  zeroOf :: "string \<Rightarrow> 'm"
  ResetMsg :: "'m \<Rightarrow> 'm"

definition proto_laws :: "'m proto \<Rightarrow> bool" where
  "proto_laws pl \<longleftrightarrow> (\<forall>t. typeOf pl (zeroOf pl t) = t) \<and> (\<forall>x. ResetMsg pl x = zeroOf pl (typeOf pl x))"

text \<open>One pool per type of message.\<close>

definition BroadcastBulkPool :: "'m proto \<Rightarrow> 'm spool_ops" where
  "BroadcastBulkPool pl = \<lparr>soNew = zeroOf pl ''BroadcastBulk'', soReset = ResetMsg pl\<rparr>"

definition ConnClosePool :: "'m proto \<Rightarrow> 'm spool_ops" where
  "ConnClosePool pl = \<lparr>soNew = zeroOf pl ''ConnClose'', soReset = ResetMsg pl\<rparr>"

definition ConnInfoDeletePool :: "'m proto \<Rightarrow> 'm spool_ops" where
  "ConnInfoDeletePool pl = \<lparr>soNew = zeroOf pl ''ConnInfoDelete'', soReset = ResetMsg pl\<rparr>"

definition ConnInfoUpdatePool :: "'m proto \<Rightarrow> 'm spool_ops" where
  "ConnInfoUpdatePool pl = \<lparr>soNew = zeroOf pl ''ConnInfoUpdate'', soReset = ResetMsg pl\<rparr>"

definition ConnOpenPool :: "'m proto \<Rightarrow> 'm spool_ops" where
  "ConnOpenPool pl = \<lparr>soNew = zeroOf pl ''ConnOpen'', soReset = ResetMsg pl\<rparr>"

definition SingleCastBulkPool :: "'m proto \<Rightarrow> 'm spool_ops" where
  "SingleCastBulkPool pl = \<lparr>soNew = zeroOf pl ''SingleCastBulk'', soReset = ResetMsg pl\<rparr>"

definition SingleCastBulkByCustomerIdPool :: "'m proto \<Rightarrow> 'm spool_ops" where
  "SingleCastBulkByCustomerIdPool pl = \<lparr>soNew = zeroOf pl ''SingleCastBulkByCustomerId'', soReset = ResetMsg pl\<rparr>"

definition TopicDeletePool :: "'m proto \<Rightarrow> 'm spool_ops" where
  "TopicDeletePool pl = \<lparr>soNew = zeroOf pl ''TopicDelete'', soReset = ResetMsg pl\<rparr>"

definition TopicPublishBulkPool :: "'m proto \<Rightarrow> 'm spool_ops" where
  "TopicPublishBulkPool pl = \<lparr>soNew = zeroOf pl ''TopicPublishBulk'', soReset = ResetMsg pl\<rparr>"

definition TopicSubscribePool :: "'m proto \<Rightarrow> 'm spool_ops" where
  "TopicSubscribePool pl = \<lparr>soNew = zeroOf pl ''TopicSubscribe'', soReset = ResetMsg pl\<rparr>"

definition TopicUnsubscribePool :: "'m proto \<Rightarrow> 'm spool_ops" where
  "TopicUnsubscribePool pl = \<lparr>soNew = zeroOf pl ''TopicUnsubscribe'', soReset = ResetMsg pl\<rparr>"

definition TransferPool :: "'m proto \<Rightarrow> 'm spool_ops" where
  "TransferPool pl = \<lparr>soNew = zeroOf pl ''Transfer'', soReset = ResetMsg pl\<rparr>"

definition UniqIdCountRespPool :: "'m proto \<Rightarrow> 'm spool_ops" where
  "UniqIdCountRespPool pl = \<lparr>soNew = zeroOf pl ''UniqIdCountResp'', soReset = ResetMsg pl\<rparr>"

definition message_pools :: "'m proto \<Rightarrow> (string \<times> 'm spool_ops) list" where
  "message_pools pl = [
     (''BroadcastBulk'', BroadcastBulkPool pl),
     (''ConnClose'', ConnClosePool pl),
     (''ConnInfoDelete'', ConnInfoDeletePool pl),
     (''ConnInfoUpdate'', ConnInfoUpdatePool pl),
     (''ConnOpen'', ConnOpenPool pl),
     (''SingleCastBulk'', SingleCastBulkPool pl),
     (''SingleCastBulkByCustomerId'', SingleCastBulkByCustomerIdPool pl),
     (''TopicDelete'', TopicDeletePool pl),
     (''TopicPublishBulk'', TopicPublishBulkPool pl),
     (''TopicSubscribe'', TopicSubscribePool pl),
     (''TopicUnsubscribe'', TopicUnsubscribePool pl),
     (''Transfer'', TransferPool pl),
     (''UniqIdCountResp'', UniqIdCountRespPool pl)]"

lemmas message_pool_defs = message_pools_def
  BroadcastBulkPool_def
  ConnClosePool_def
  ConnInfoDeletePool_def
  ConnInfoUpdatePool_def
  ConnOpenPool_def
  SingleCastBulkPool_def
  SingleCastBulkByCustomerIdPool_def
  TopicDeletePool_def
  TopicPublishBulkPool_def
  TopicSubscribePool_def
  TopicUnsubscribePool_def
  TransferPool_def
  UniqIdCountRespPool_def

text \<open>
  Messages from the pools. For each of the thirteen pools of messages, however its messages were filled before and whoever holds
  messages at the same time, a message from the pool equals a new one and nobody else holds it.
\<close>

theorem message_pools_clean:
  assumes "proto_laws pl" "(t, so) \<in> set (message_pools pl)" "spool_run so (\<lambda>x. typeOf pl x = t) s" "sp_Get so found s = (i, s')"
  shows "spObj s' i = zeroOf pl t \<and> i \<notin> set (spHeld s) \<and> (\<forall>j \<in> set (spHeld s). spObj s' j = spObj s j)"
proof -
  have so: "soNew so = zeroOf pl t" "soReset so = ResetMsg pl" using assms(2) by (auto simp: message_pool_defs)
  have "object_pool so (\<lambda>x. x = zeroOf pl t) (\<lambda>x. typeOf pl x = t)"
    by unfold_locales (use assms(1) in \<open>auto simp: so proto_laws_def\<close>)
  from object_pool.got_clean [OF this assms(3,4)] show ?thesis by blast
qed

section \<open>Readers\<close>

text \<open>A \<^verbatim>\<open>bufio.Reader\<close>: where it reads from and what it has buffered.\<close>

record bufReader =
  brSource :: "bytes option"
  brBuffered :: bytes

definition bufReader_Reset :: "bytes option \<Rightarrow> bufReader \<Rightarrow> bufReader" where
  "bufReader_Reset src r = \<lparr>brSource = src, brBuffered = []\<rparr>"

definition bufReaderPool :: "bufReader spool_ops" where
  "bufReaderPool = \<lparr>soNew = \<lparr>brSource = None, brBuffered = []\<rparr>, soReset = bufReader_Reset None\<rparr>"

interpretation readers: object_pool bufReaderPool "\<lambda>r. r = \<lparr>brSource = None, brBuffered = []\<rparr>" "\<lambda>_. True"
  by unfold_locales (simp_all add: bufReaderPool_def bufReader_Reset_def)

text \<open>So a handshake never sees bytes of another one.\<close>

lemma reader_clean:
  "spool_run bufReaderPool (\<lambda>_. True) s \<Longrightarrow> sp_Get bufReaderPool found s = (i, s') \<Longrightarrow>
     bufReader_Reset (Some peek) (spObj s' i) = \<lparr>brSource = Some peek, brBuffered = []\<rparr> \<and> brBuffered (spObj s' i) = []"
  using readers.got_clean(1) [of s found i s'] by (simp add: bufReader_Reset_def)

section \<open>Headers of answers\<close>

text \<open>A header of the task port: its array and the length of the slice. Giving back restores the length, not the bytes.\<close>

definition headerPool :: "(bytes \<times> nat) spool_ops" where
  "headerPool = \<lparr>soNew = (replicate 8 0, 8), soReset = (\<lambda>(arr, n). (arr, 8))\<rparr>"

definition fill_header :: "u32 \<Rightarrow> u32 \<Rightarrow> bytes \<times> nat \<Rightarrow> bytes \<times> nat" where
  "fill_header len cmd = (\<lambda>(arr, n). (PutUint32 len @ PutUint32 cmd @ drop 8 arr, n))"

interpretation headers: object_pool headerPool "\<lambda>(arr, n). length arr = 8 \<and> n = 8" "\<lambda>(arr, n). length arr = 8"
  by unfold_locales (auto simp: headerPool_def)

text \<open>The bytes of an earlier answer that are still in the header are all overwritten.\<close>

lemma header_overwritten:
  assumes "spool_run headerPool (\<lambda>(arr, n). length arr = 8) s" "sp_Get headerPool found s = (i, s')"
    and "fill_header len cmd (spObj s' i) = (arr, n)"
  shows "take n arr = PutUint32 len @ PutUint32 cmd"
  using headers.got_clean(1) [OF assms(1,2)] assms(3) by (auto simp: fill_header_def)

section \<open>Slices\<close>

text \<open>A slice that is passed around by its pointer: its elements and its capacity. Slices of similar capacity share a pool.\<close>

type_synonym 'x pslice = "'x list \<times> nat"

record 'x slicePool =
  slStep :: nat
  slPools :: "nat \<rightharpoonup> nat list"
  slObj :: "nat \<Rightarrow> 'x pslice"
  slHeld :: "nat list"
  slNew :: nat

definition slicePool_New :: "int \<Rightarrow> 'x slicePool" where
  "slicePool_New stride =
     \<lparr>slStep = (if stride \<le> 0 then 16 else nat stride), slPools = (\<lambda>_. None), slObj = (\<lambda>_. ([], 0)), slHeld = [], slNew = 0\<rparr>"

definition poolIndex :: "nat \<Rightarrow> nat \<Rightarrow> nat" where
  "poolIndex stride capacity = (capacity + stride - 1) div stride"

text \<open>\<^verbatim>\<open>make([]T, 0, poolIndex*step)\<close>, by \<^verbatim>\<open>Get\<close> itself or by \<^verbatim>\<open>New\<close> of the pool.\<close>

definition make_slice :: "nat \<Rightarrow> 'x slicePool \<Rightarrow> nat \<times> 'x slicePool" where
  "make_slice idx s =
     (slNew s, s\<lparr>slObj := (slObj s)(slNew s := ([], idx * slStep s)), slNew := Suc (slNew s), slHeld := slNew s # slHeld s\<rparr>)"

definition slicePool_Get :: "int \<Rightarrow> bool \<Rightarrow> 'x slicePool \<Rightarrow> nat \<times> 'x slicePool" where
  "slicePool_Get capacity found s =
     (let cap = (if capacity \<le> 0 then 1 else nat capacity);
          idx = poolIndex (slStep s) cap
      in case slPools s idx of
           Some (i # is) \<Rightarrow> if found then (i, s\<lparr>slPools := (slPools s)(idx \<mapsto> is), slHeld := i # slHeld s\<rparr>) else make_slice idx s
         | _ \<Rightarrow> make_slice idx s)"

text \<open>The second look under the lock makes finding or creating the pool one stride.\<close>

definition slicePool_Put :: "nat \<Rightarrow> 'x slicePool \<Rightarrow> 'x slicePool" where
  "slicePool_Put i s =
     (let cap = snd (slObj s i);
          idx = poolIndex (slStep s) cap;
          idle = (case slPools s idx of None \<Rightarrow> [] | Some xs \<Rightarrow> xs)
      in s\<lparr>slObj := (slObj s)(i := ([], cap)), slPools := (slPools s)(idx \<mapsto> i # idle), slHeld := remove1 i (slHeld s)\<rparr>)"

text \<open>The two instances and the pool of the handlers.\<close>

definition NewStrSlice :: "int \<Rightarrow> string slicePool" where "NewStrSlice = slicePool_New"
definition NewWsConn :: "int \<Rightarrow> cref slicePool" where "NewWsConn = slicePool_New"
definition WsConn_Get :: "int \<Rightarrow> bool \<Rightarrow> cref slicePool \<Rightarrow> nat \<times> cref slicePool" where "WsConn_Get = slicePool_Get"
definition WsConn_Put :: "nat \<Rightarrow> cref slicePool \<Rightarrow> cref slicePool" where "WsConn_Put = slicePool_Put"
definition ConnSlice :: "cref slicePool" where "ConnSlice = NewWsConn 1024"

text \<open>
  Runs: who holds a slice fills it; \<open>grows\<close> says whether \<^verbatim>\<open>append\<close> may move it to an array of another capacity.
\<close>

inductive slice_run :: "bool \<Rightarrow> int \<Rightarrow> 'x slicePool \<Rightarrow> bool" for grows stride where
  start: "slice_run grows stride (slicePool_New stride)"
| got: "slice_run grows stride s \<Longrightarrow> slice_run grows stride (snd (slicePool_Get capacity found s))"
| filled: "slice_run grows stride s \<Longrightarrow> i \<in> set (slHeld s) \<Longrightarrow> length xs \<le> c \<Longrightarrow> c = snd (slObj s i) \<or> grows \<and> c > snd (slObj s i) \<Longrightarrow>
    slice_run grows stride (s\<lparr>slObj := (slObj s)(i := (xs, c))\<rparr>)"
| given_back: "slice_run grows stride s \<Longrightarrow> i \<in> set (slHeld s) \<Longrightarrow> slice_run grows stride (slicePool_Put i s)"
| dropped: "slice_run grows stride s \<Longrightarrow> slPools s idx = Some (xs @ i # ys) \<Longrightarrow> slice_run grows stride (s\<lparr>slPools := (slPools s)(idx \<mapsto> xs @ ys)\<rparr>)"

definition idle_in :: "'x slicePool \<Rightarrow> nat \<Rightarrow> nat list" where
  "idle_in s idx = (case slPools s idx of None \<Rightarrow> [] | Some xs \<Rightarrow> xs)"

text \<open>Idle slices are empty, in the pool of their capacity, and neither held nor idle twice; without growth, capacities are multiples of the step.\<close>

definition slices_ok :: "bool \<Rightarrow> 'x slicePool \<Rightarrow> bool" where
  "slices_ok grows s \<longleftrightarrow> slStep s > 0 \<and> distinct (slHeld s) \<and> (\<forall>i \<in> set (slHeld s). i < slNew s \<and> (\<not> grows \<longrightarrow> slStep s dvd snd (slObj s i))) \<and>
     (\<forall>idx. distinct (idle_in s idx) \<and> (\<forall>i \<in> set (idle_in s idx). i < slNew s \<and> i \<notin> set (slHeld s) \<and> fst (slObj s i) = [] \<and>
        poolIndex (slStep s) (snd (slObj s i)) = idx \<and> (\<not> grows \<longrightarrow> slStep s dvd snd (slObj s i))))"

lemma slices_okI:
  assumes "slStep s > 0" "distinct (slHeld s)" "\<And>i. i \<in> set (slHeld s) \<Longrightarrow> i < slNew s \<and> (\<not> grows \<longrightarrow> slStep s dvd snd (slObj s i))"
    and "\<And>x. distinct (idle_in s x)"
    and "\<And>x j. j \<in> set (idle_in s x) \<Longrightarrow> j < slNew s \<and> j \<notin> set (slHeld s) \<and> fst (slObj s j) = [] \<and>
      poolIndex (slStep s) (snd (slObj s j)) = x \<and> (\<not> grows \<longrightarrow> slStep s dvd snd (slObj s j))"
  shows "slices_ok grows s"
  using assms by (simp add: slices_ok_def)

lemma slices_ok_idle:
  assumes "slices_ok grows s"
  shows "distinct (idle_in s x)"
    and "\<forall>j \<in> set (idle_in s x). j < slNew s \<and> j \<notin> set (slHeld s) \<and> fst (slObj s j) = [] \<and>
      poolIndex (slStep s) (snd (slObj s j)) = x \<and> (\<not> grows \<longrightarrow> slStep s dvd snd (slObj s j))"
  using assms by (simp_all add: slices_ok_def)

lemma poolIndex_upper: "stride > 0 \<Longrightarrow> capacity \<le> poolIndex stride capacity * stride"
proof -
  assume "stride > 0"
  then have "capacity + stride - 1 < stride * ((capacity + stride - 1) div stride) + stride" by (metis mod_less_divisor mult_div_mod_eq nat_add_left_cancel_less)
  then show ?thesis by (simp add: poolIndex_def mult.commute)
qed

lemma poolIndex_multiple: "stride > 0 \<Longrightarrow> stride dvd c \<Longrightarrow> poolIndex stride c * stride = c"
proof -
  assume p: "stride > 0" "stride dvd c"
  then obtain k where c: "c = stride * k" by (auto simp: dvd_def)
  have e: "c + stride - 1 = (stride - 1) + k * stride" using p(1) by (simp add: c mult.commute)
  have "(stride - 1 + k * stride) div stride = k" using p(1) by (subst div_mult_self1) simp_all
  then show ?thesis unfolding poolIndex_def e by (simp add: c mult.commute)
qed

lemma make_slice_ok:
  assumes "slices_ok grows s" "make_slice idx s = (i, s')"
  shows "slices_ok grows s' \<and> i \<notin> set (slHeld s) \<and> slObj s' i = ([], idx * slStep s) \<and> (\<forall>j \<in> set (slHeld s). slObj s' j = slObj s j)"
proof -
  have n: "slNew s \<notin> set (slHeld s)" "\<And>x. slNew s \<notin> set (idle_in s x)" using assms(1) by (auto simp: slices_ok_def)
  have idle: "idle_in s' = idle_in s" using assms(2) by (auto simp: make_slice_def idle_in_def)
  show ?thesis using assms n unfolding slices_ok_def idle make_slice_def
    by (auto simp: less_Suc_eq)
qed

lemma slicePool_Get_ok:
  assumes "slices_ok grows s" "slicePool_Get capacity found s = (i, s')"
  shows "slices_ok grows s' \<and> i \<notin> set (slHeld s) \<and> fst (slObj s' i) = [] \<and> (\<forall>j \<in> set (slHeld s). slObj s' j = slObj s j) \<and>
    (\<not> grows \<longrightarrow> max 1 capacity \<le> int (snd (slObj s' i)))"
proof -
  let ?cap = "if capacity \<le> 0 then 1 else nat capacity"
  let ?idx = "poolIndex (slStep s) ?cap"
  have stride: "slStep s > 0" using assms(1) by (simp add: slices_ok_def)
  have enough: "max 1 capacity \<le> int n" if "?idx * slStep s \<le> n" for n
  proof -
    have "?cap \<le> n" using poolIndex_upper [OF stride, of ?cap] that by (rule order_trans)
    then show ?thesis by (cases "capacity \<le> 0") auto
  qed
  consider xs where "slPools s ?idx = Some (i # xs)" "s' = s\<lparr>slPools := (slPools s)(?idx \<mapsto> xs), slHeld := i # slHeld s\<rparr>"
    | "make_slice ?idx s = (i, s')"
    using assms(2) unfolding slicePool_Get_def Let_def by (auto split: option.splits list.splits if_splits)
  then show ?thesis
  proof cases
    case 1
    have idle: "idle_in s ?idx = i # xs" using 1(1) by (simp add: idle_in_def)
    have idle': "idle_in s' x = (if x = ?idx then xs else idle_in s x)" for x using 1 by (auto simp: idle_in_def)
    have f: "distinct (i # xs)" "i < slNew s" "i \<notin> set (slHeld s)" "fst (slObj s i) = []" "poolIndex (slStep s) (snd (slObj s i)) = ?idx"
      "\<not> grows \<Longrightarrow> slStep s dvd snd (slObj s i)"
      using slices_ok_idle [OF assms(1), of ?idx] unfolding idle by simp_all
    have other: "i \<notin> set (idle_in s x)" if "x \<noteq> ?idx" for x
      using slices_ok_idle(2) [OF assms(1), of x] that f(5) by auto
    have "slices_ok grows s'"
    proof (rule slices_okI)
      fix x
      show "distinct (idle_in s' x)" using slices_ok_idle(1) [OF assms(1), of x] f(1) unfolding idle' by simp
      fix j assume j: "j \<in> set (idle_in s' x)"
      then have "j \<in> set (idle_in s x)" "j \<noteq> i" using idle f(1) other [of x] by (auto simp: idle' split: if_splits)
      then show "j < slNew s' \<and> j \<notin> set (slHeld s') \<and> fst (slObj s' j) = [] \<and> poolIndex (slStep s') (snd (slObj s' j)) = x \<and>
        (\<not> grows \<longrightarrow> slStep s' dvd snd (slObj s' j))"
        using slices_ok_idle [OF assms(1), of x] by (simp add: 1(2))
    qed (use assms(1) f in \<open>auto simp: 1(2) slices_ok_def\<close>)
    moreover have "max 1 capacity \<le> int (snd (slObj s' i))" if "\<not> grows"
      using enough poolIndex_multiple [OF stride f(6) [OF that]] f(5) by (simp add: 1(2))
    ultimately show ?thesis using f by (simp add: 1(2))
  next
    case 2
    then show ?thesis using make_slice_ok [OF assms(1) 2] enough [of "?idx * slStep s"] by auto
  qed
qed

lemma slicePool_Put_ok:
  assumes "slices_ok grows s" "i \<in> set (slHeld s)"
  shows "slices_ok grows (slicePool_Put i s)"
proof -
  let ?s = "slicePool_Put i s" and ?idx = "poolIndex (slStep s) (snd (slObj s i))"
  have idle: "idle_in ?s x = (if x = ?idx then i # idle_in s x else idle_in s x)" for x
    by (auto simp: slicePool_Put_def idle_in_def Let_def split: option.splits)
  have h: "slStep ?s = slStep s" "slNew ?s = slNew s" "slHeld ?s = remove1 i (slHeld s)" "slObj ?s = (slObj s)(i := ([], snd (slObj s i)))"
    by (simp_all add: slicePool_Put_def Let_def)
  have d: "distinct (slHeld s)" "\<And>x. i \<notin> set (idle_in s x)" using assms by (auto simp: slices_ok_def)
  then show ?thesis using assms unfolding slices_ok_def idle h by (auto simp: set_remove1_eq)
qed

lemma slice_run_ok: "slice_run grows stride s \<Longrightarrow> slices_ok grows s"
proof (induction rule: slice_run.induct)
  case start
  then show ?case by (auto simp: slices_ok_def slicePool_New_def idle_in_def)
next
  case (got s capacity found)
  then show ?case using slicePool_Get_ok [of grows s capacity found] by (metis surjective_pairing)
next
  case (filled s i xs c)
  have i: "i \<notin> set (idle_in s x)" for x using filled by (auto simp: slices_ok_def)
  have "idle_in (s\<lparr>slObj := (slObj s)(i := (xs, c))\<rparr>) = idle_in s" by (auto simp: idle_in_def)
  then show ?case using filled i unfolding slices_ok_def by auto
next
  case (given_back s i)
  then show ?case using slicePool_Put_ok by blast
next
  case (dropped s idx xs i ys)
  have idle: "idle_in (s\<lparr>slPools := (slPools s)(idx \<mapsto> xs @ ys)\<rparr>) x = (if x = idx then xs @ ys else idle_in s x)" for x by (simp add: idle_in_def)
  have e: "idle_in s idx = xs @ i # ys" using dropped by (simp add: idle_in_def)
  then have d: "distinct (xs @ ys)" using dropped.IH unfolding slices_ok_def by (metis distinct_append distinct.simps(2) Int_insert_right_if0 disjoint_insert(2) list.simps(15))
  have "set (xs @ ys) \<subseteq> set (idle_in s idx)" by (auto simp: e)
  then show ?case using dropped.IH d unfolding slices_ok_def idle by (auto simp: subset_iff)
qed

text \<open>
  Slices from the pool. However slices were filled before and whoever holds slices at the same time, a slice from the pool is empty, nobody
  else holds it, and the slices of others are left alone. Its capacity is at least what was asked for, and at least one,
  as long as no slice has outgrown its array before it was given back.
\<close>

theorem slice_pool_clean:
  assumes "slice_run grows stride s" "slicePool_Get capacity found s = (i, s')"
  shows "fst (slObj s' i) = [] \<and> i \<notin> set (slHeld s) \<and> (\<forall>j \<in> set (slHeld s). slObj s' j = slObj s j) \<and>
    (\<not> grows \<longrightarrow> max 1 capacity \<le> int (snd (slObj s' i)))"
  using slicePool_Get_ok [OF slice_run_ok [OF assms(1)] assms(2)] by blast

text \<open>A slice that has outgrown its array is filed by rounding up: it can be handed out for more than it holds.\<close>

definition one_grown :: "nat slicePool" where
  "one_grown = slicePool_Put 0 ((snd (slicePool_Get 1 True (slicePool_New 2)))\<lparr>slObj := (\<lambda>_. ([], 0))(0 := ([1, 2, 3], 3))\<rparr>)"

lemma one_grown_run: "slice_run True 2 one_grown"
proof -
  let ?s = "snd (slicePool_Get 1 True (slicePool_New 2)) :: nat slicePool"
  have s: "slHeld ?s = [0]" "slObj ?s = (\<lambda>_. ([], 0))(0 := ([], 2))"
    by (simp_all add: slicePool_Get_def make_slice_def slicePool_New_def poolIndex_def Let_def)
  have "slice_run True 2 (?s\<lparr>slObj := (slObj ?s)(0 := ([1, 2, 3], 3))\<rparr>)"
    by (rule slice_run.filled [OF slice_run.got [OF slice_run.start]]) (simp_all add: s)
  then have "slice_run True 2 (?s\<lparr>slObj := (\<lambda>_. ([], 0))(0 := ([1, 2, 3], 3))\<rparr>)" by (simp add: s)
  then show ?thesis unfolding one_grown_def by (rule slice_run.given_back) (simp add: s)
qed

lemma grown_slice_too_small: "snd (slObj (snd (slicePool_Get 4 True one_grown)) (fst (slicePool_Get 4 True one_grown))) = 3"
  by (simp add: one_grown_def slicePool_Put_def slicePool_Get_def make_slice_def slicePool_New_def poolIndex_def Let_def)

theorem slice_pool_clean_witness:
  "fst (slObj (snd (slicePool_Get 4 True one_grown)) (fst (slicePool_Get 4 True one_grown))) = []"
  using slice_pool_clean [OF one_grown_run surjective_pairing [of "slicePool_Get 4 True one_grown"]] by blast

section \<open>Witnesses\<close>

theorem frame_pool_clean_witness:
  "spObj (snd (framePool_Get True 1 [7] spool_start)) (fst (framePool_Get True 1 [7] spool_start)) = newFrame 1 [7]"
  using frame_pool_clean [OF spool_run.start surjective_pairing [of "framePool_Get True 1 [7] spool_start"]] by blast

definition sample_proto :: "(string \<times> nat) proto" where
  "sample_proto = \<lparr>typeOf = fst, zeroOf = (\<lambda>t. (t, 0)), ResetMsg = (\<lambda>x. (fst x, 0))\<rparr>"

definition used_transfer :: "(string \<times> nat) spool" where
  "used_transfer = (snd (sp_Get (TransferPool sample_proto) True spool_start))
     \<lparr>spObj := (spObj (snd (sp_Get (TransferPool sample_proto) True spool_start)))(0 := (''Transfer'', 5))\<rparr>"

lemma used_transfer_run:
  "spool_run (TransferPool sample_proto) (\<lambda>x. typeOf sample_proto x = ''Transfer'') (sp_Put (TransferPool sample_proto) 0 used_transfer)"
proof (rule spool_run.given_back)
  have h: "0 \<in> set (spHeld (snd (sp_Get (TransferPool sample_proto) True spool_start)))" by (simp add: sp_Get_def spool_start_def)
  show "spool_run (TransferPool sample_proto) (\<lambda>x. typeOf sample_proto x = ''Transfer'') used_transfer"
    unfolding used_transfer_def by (rule spool_run.used [OF spool_run.got [OF spool_run.start] h]) (simp add: sample_proto_def)
  show "0 \<in> set (spHeld used_transfer)" using h by (simp add: used_transfer_def)
qed

theorem message_pools_clean_witness:
  "spObj (snd (sp_Get (TransferPool sample_proto) True (sp_Put (TransferPool sample_proto) 0 used_transfer)))
     (fst (sp_Get (TransferPool sample_proto) True (sp_Put (TransferPool sample_proto) 0 used_transfer))) = (''Transfer'', 0)"
proof -
  have "proto_laws sample_proto" "(''Transfer'', TransferPool sample_proto) \<in> set (message_pools sample_proto)"
    by (simp_all add: proto_laws_def sample_proto_def message_pools_def)
  from message_pools_clean [OF this used_transfer_run surjective_pairing [of "sp_Get _ True _"]] show ?thesis by (simp add: sample_proto_def)
qed

end
