(* ===== verification/Spec2Isabelle.thy ===== *)
theory Spec2Isabelle
  imports RingQueue Packet TaskProps RedisManager AmqpManager AmqpMonitor WorkerSend EventServer MainProcess Startup FrameMemory ObjPools
begin

text \<open>
  \<^bold>\<open>Verification of netsvr\<close>, a websocket gateway written in Go. Clients connect over websocket; the business logic runs in other
  processes. The gateway reports the opening, the messages and the end of every client connection to the business, and the business tells the
  gateway whom to write to, which topics a connection subscribes to, which customer it belongs to, and asks what the gateway
  knows.

  \<^bold>\<open>The program and its parts.\<close>

  \<^item> \<^verbatim>\<open>src/internal/wsServer\<close>: handlers of the network library gnet, the HTTP handshake, the incremental frame decoder, and the data of a
    connection. One event loop runs all handlers of a connection.
  \<^item> \<^verbatim>\<open>src/internal/customer\<close>: the callbacks for opening, messages, pings and closing; three sharded registries (connections by id,
    connections by customer id, connections by topic); frames to clients.
  \<^item> \<^verbatim>\<open>src/internal/task\<close>: the port at which business processes send commands. Its loop cuts packets out of the stream, runs commands
    itself or in the goroutine pool, and answers queries.
  \<^item> \<^verbatim>\<open>src/internal/worker\<close>: the port at which business processes register for events; events go to them in turn.
  \<^item> \<^verbatim>\<open>src/internal/queue\<close>: Redis and AMQP queues as further ways to hand events to the business, and
    \<^verbatim>\<open>src/internal/callback\<close>: HTTP callbacks.
  \<^item> \<^verbatim>\<open>src/pkg/queue\<close>: the lock-free ring queue between event producers and the sending coroutines.
  \<^item> \<^verbatim>\<open>src/configs\<close>, \<^verbatim>\<open>src/internal/metrics\<close>, \<^verbatim>\<open>src/internal/limit\<close>: configuration, statistics, rate limits.
  \<^item> \<^verbatim>\<open>src/cmd/netsvr.go\<close> starts and stops all this, with the stop signal of \<^verbatim>\<open>src/pkg/quit\<close> and the log of \<^verbatim>\<open>src/pkg/log\<close>.
  \<^item> Memory is recycled throughout: packets, frames, protobuf messages, slices and byte arrays come from pools
    (\<^verbatim>\<open>src/internal/objPool\<close>, \<^verbatim>\<open>src/internal/utils\<close>, and pools inside the packages above).

  \<^bold>\<open>Theories and sources.\<close>

  \<^item> \<open>Prelude\<close>: machine types, Go maps as association lists, big-endian integers, rewrite rules shared by all.
  \<^item> \<open>ShardMap\<close>, \<open>RelIndex\<close>: the interfaces. Locale \<open>sharded\<close> is the storage in 256 shards, \<open>point_op\<close> bulk updates of it,
    \<open>rel_index\<close> an index from names to connections. \<open>Topic\<close> (\<^verbatim>\<open>topic.go\<close>), \<open>Binder\<close> (\<^verbatim>\<open>binder.go\<close>) and
    \<open>ConnManager\<close> (\<^verbatim>\<open>manager.go\<close>) interpret them on their own operations.
  \<^item> \<open>ConnInfo\<close> (\<^verbatim>\<open>info.go\<close>), \<open>UniqIdGen\<close> (\<^verbatim>\<open>uniqIdGen.go\<close>), \<open>Metrics\<close> (\<^verbatim>\<open>metrics\<close>, \<^verbatim>\<open>limit\<close>).
  \<^item> \<open>Codec\<close> (\<^verbatim>\<open>decode\<close> of \<^verbatim>\<open>codec.go\<close>, \<^verbatim>\<open>messagePayload.go\<close>), \<open>Upgrade\<close> (\<^verbatim>\<open>upgrade\<close> of \<^verbatim>\<open>codec.go\<close>, \<^verbatim>\<open>OnUpgradeCheck\<close>).
  \<^item> \<open>RingQueue\<close> (\<^verbatim>\<open>src/pkg/queue/queue.go\<close>): every atomic access of the queue is a step.
  \<^item> \<open>Packet\<close> (the packets between gateway and business), \<open>Worker\<close> (\<^verbatim>\<open>src/internal/worker\<close>), \<open>WorkerSend\<close> (the sending coroutine of its
    \<^verbatim>\<open>conn.go\<close>), \<open>EventLog\<close> (the log lines about events that were not delivered, \<^verbatim>\<open>src/internal/queue/internal/fn.go\<close>).
  \<^item> \<open>Gateway\<close>: the state of the process, \<^verbatim>\<open>frame.go\<close>, \<^verbatim>\<open>func.go\<close>, \<^verbatim>\<open>callback.go\<close>, and the invariant that the registries agree
    with the connections. \<open>Registry\<close>: that invariant under every kind of change.
  \<^item> \<open>TaskPost\<close> and \<open>Delivery\<close>: the twelve commands that change the gateway or write to clients, and what clients receive.
    \<open>TaskQueries\<close>: the sixteen queries. \<open>TaskProcess\<close> and \<open>TaskProps\<close>: the loop of \<^verbatim>\<open>process.go\<close> and what a business process can rely on.
  \<^item> \<open>CustomerEvents\<close> (\<^verbatim>\<open>server.go\<close>, \<^verbatim>\<open>websocket.go\<close>), \<open>GatewaySteps\<close> (all handlers, pool tasks, timers and commands as one transition
    system), \<open>GatewayProps\<close> (its properties). \<open>EventServer\<close>: the same handlers for any callbacks, with the gateway's and those of
    \<^verbatim>\<open>StartAutobahn\<close> as instances; locale \<open>codec_blind\<close> is what the handlers need of a callback.
  \<^item> \<open>Config\<close> (\<^verbatim>\<open>config.go\<close>, \<^verbatim>\<open>utils.go\<close>, \<^verbatim>\<open>wd.go\<close>).
  \<^item> \<open>EventMeters\<close>: when the statistics of an event queue are right. \<open>RedisSink\<close> and \<open>RedisManager\<close> (\<^verbatim>\<open>src/internal/queue/redisQueue\<close>);
    \<open>AmqpPool\<close> (\<^verbatim>\<open>connPool.go\<close>, \<^verbatim>\<open>channelPool.go\<close>; locale \<open>token_pool\<close> is the contract of both pools), \<open>AmqpSink\<close>
    (\<^verbatim>\<open>queue.go\<close>, the monitor of \<^verbatim>\<open>channelPool.go\<close>: what is counted), \<open>AmqpMonitor\<close> (one channel with its monitor, its task and the
    bounded Go channel between them, operation by operation: who waits for whom; locale \<open>action_system\<close>) and \<open>AmqpManager\<close> (\<^verbatim>\<open>manager.go\<close>).
  \<^item> \<open>Lifecycle\<close> (\<^verbatim>\<open>quit.go\<close>, \<^verbatim>\<open>log.go\<close>, the accept loops of \<^verbatim>\<open>tcp.go\<close>; locale \<open>accept_loop\<close> is what both loops do) and
    \<open>MainProcess\<close> (\<^verbatim>\<open>netsvr.go\<close>, start and shutdown of the servers). \<open>Startup\<close>: the number of event loops, with the rounding of
    floating point written out, the pprof agent and the stop of the timer wheel (\<^verbatim>\<open>timer.go\<close>).
  \<^item> \<open>PacketPool\<close> (both \<^verbatim>\<open>packet.go\<close>; locale \<open>pooled_packet\<close>), \<open>FrameMemory\<close> (\<^verbatim>\<open>frame.go\<close>, \<^verbatim>\<open>buffer.go\<close>) and \<open>ObjPools\<close>
    (\<^verbatim>\<open>objPool\<close>, \<^verbatim>\<open>slicePool\<close>, \<^verbatim>\<open>bufReader.go\<close>, the pool of frames; locale \<open>object_pool\<close>): the memory that the other theories abstract
    from, byte arrays as blocks of an explicit memory.

  \<^bold>\<open>State and operations.\<close> A struct is a record, an enumeration a datatype, a fixed-width integer a word where its width matters and an
  integer or natural number elsewhere. Connections are pointers into a heap, as the Go code shares them between registries; the
  optional values of the configuration are pointers too, because the code compares them. Errors are values: \<open>None\<close> for an error, an exit
  or a panic, as each theory says. What runs under a lock or inside one handler is one step. What another goroutine can
  come between is a step relation: the ring queue (per atomic access), the gateway (per handler, pool task, timer, command), the task
  loop (per packet), the Redis and AMQP queues (per turn of a loop, pool task, published message, round of \<^verbatim>\<open>select\<close>), the AMQP
  pools (per operation on a Go channel), the process (per operation of \<^verbatim>\<open>main\<close>, turn of an accept loop, buffer of the log writer), and
  the pools of memory (per get, use and give-back).

  \<^bold>\<open>What the lemmas show.\<close>

  \<^item> Registries: in every reachable state of the gateway they agree exactly with the connections; a connection that ends is forgotten
    everywhere; commands therefore reach exactly the connections they name and queries report exactly what is there.
  \<^item> Decoder and event loop: what a client sends in fragments is decoded to what it meant, however the stream is cut into reads, and its
    messages are handed over one by one in their order.
  \<^item> Ring queue: it refines a bounded FIFO queue, loses nothing, and loses no wake-up. Other theories use the FIFO queue.
  \<^item> Task port: order, at most one execution, one answer per query, termination on every stream.
  \<^item> Event queues: every event is exactly once delivered, failed or waiting, and the meters say so; pooled channels have one user; the
    pools block nobody; a task never waits for a monitor that has gone, unless the process ends; the start makes the queues that the
    configuration describes. Business connections: a turn of the sending coroutine counts every packet once, unless it panics.
  \<^item> Process: what is closed at a clean exit and in which order, which connections are still served, what the log file
    has at the end.
  \<^item> Memory: a packet, frame, message or slice from a pool is as good as a new one and has one holder; what is being sent is not written to, although
    the arrays behind it are recycled. So the other theories may take packets and frames as values.
  \<^item> Bounds: rate limiter, ids, capacities, heartbeats, packet sizes, reserved header sizes, event loops.
  \<^item> Flaws of the code that the model exhibits are theorems as well: a connection that ends while it is opening, compressed messages with a
    control frame inside, lengths near \<open>2 ^ 63\<close>, events queued at shutdown, log lines of the shutdown, a stop signal during the start,
    confirmations that overtake their records, tasks that the end of the process strands, write errors inside a packet header, an unchecked
    key type, queues and pools that are shared too little or too much.

  \<^bold>\<open>Bounds.\<close> No model needs fuel: all functions are total and all loops have a termination proof or are step relations. Connection ids are
  distinct for fewer than \<open>2 ^ 32\<close> calls in a row, the period of their counter. Ring positions are natural numbers,
  which the code's 64 bits match for \<open>2 ^ 64\<close> operations.

  \<^bold>\<open>Parameters.\<close> Code outside the repository is an argument: the answers of gnet to writes, the compressor and inflater, the HTTP client and
  request parser, the digest, protobuf marshalling, the token bucket of \<^verbatim>\<open>golang.org/x/time/rate\<close>, package \<^verbatim>\<open>net\<close>, the TOML decoder,
  the clock, go-redis, the AMQP broker, and the pool of byte arrays of gnet. Where a theorem needs their documented behaviour, a hypothesis says so
  (\<open>rate_laws\<close>, \<open>exec_laws\<close>, \<open>bs_laws\<close>, \<open>proto_laws\<close>, \<open>log_laws\<close>, that inflating undoes deflating), and the witness of the theorem instantiates it.

  \<^bold>\<open>Not modelled.\<close> What log lines say, except those of \<^verbatim>\<open>main\<close> and the servers and those about undelivered events; the
  options passed to gnet, except the number of event loops; the inside of the timer wheel, whose effects are steps of the gateway;
  unused helpers of \<^verbatim>\<open>utils.go\<close> (they only wrap the standard library) and accessors of single fields;
  rates of the meters, which are floating point; scheduling fairness and real time beyond the clock values that
  the code reads.
\<close>

end
